(* ===== verification/Prelude.thy ===== *)
theory Prelude
  imports Main "HOL-Library.Word" "HOL-Library.Multiset"
begin

unbundle bit_operations_syntax

text \<open>
  Shared vocabulary of the development: the C types at their x86-64 widths, objects as byte
  lists, little-endian words, bounds-checked loads and stores, and the outcome of a C call that
  may end the process. Every component theory imports this one.

  Conventions. A \<open>const char *\<close> is the list of bytes from the pointer to the end of the object
  it points into; reading past the end is \<open>None\<close>. Where a routine writes, or where two pointers
  may overlap, the memory is one byte list and a pointer is an index into it. \<open>char\<close> is signed
  (the x86-64 ABI), so a byte is promoted with \<open>sint\<close>. A leading underscore of a C name is
  written \<open>s_\<close>, and the uCore twin of a routine that both libraries have is written \<open>u_\<close>.
\<close>

section \<open>Types\<close>

type_synonym byte = "8 word"
type_synonym cint = "32 word"
type_synonym long = "64 word"
type_synonym mem = "byte list"

named_theorems blit_simps
named_theorems sys_defs
named_theorems io_defs

section \<open>Outcome of a call\<close>

text \<open>
  \<open>Ret\<close> is a normal return, \<open>Errx\<close> a call of \<open>errx\<close> or \<open>err\<close> (the process prints the message and
  leaves through \<open>exit\<close> with the status), \<open>Fault\<close> an access outside every object, \<open>Block\<close> a wait
  that only another thread can end.
\<close>

datatype 'a outcome = Ret 'a | Errx cint string | Fault | Block

fun bind_out :: "'a outcome \<Rightarrow> ('a \<Rightarrow> 'b outcome) \<Rightarrow> 'b outcome" where
  "bind_out (Ret x) f = f x"
| "bind_out (Errx e m) f = Errx e m"
| "bind_out Fault f = Fault"
| "bind_out Block f = Block"

lemma bind_out_Ret_iff:
  "bind_out x f = Ret y \<longleftrightarrow> (\<exists>a. x = Ret a \<and> f a = Ret y)"
  by (cases x) auto

section \<open>Generic lemmas\<close>

lemma ex_nat_cases: "(\<exists>i. P i) \<longleftrightarrow> P 0 \<or> (\<exists>i. P (Suc i))"
  by (metis not0_implies_Suc)

section \<open>Loads and stores\<close>

definition loadn :: "mem \<Rightarrow> nat \<Rightarrow> nat \<Rightarrow> byte list option" where
  "loadn m p n = (if p + n \<le> length m then Some (take n (drop p m)) else None)"

definition storen :: "mem \<Rightarrow> nat \<Rightarrow> byte list \<Rightarrow> mem option" where
  "storen m p bs =
     (if p + length bs \<le> length m then Some (take p m @ bs @ drop (p + length bs) m) else None)"

lemma loadn_length: "loadn m p n = Some bs \<Longrightarrow> length bs = n"
  by (auto simp: loadn_def split: if_splits)

lemma storen_length: "storen m p bs = Some m' \<Longrightarrow> length m' = length m"
  by (auto simp: storen_def split: if_splits)

lemma loadn_storen_same:
  "storen m p bs = Some m' \<Longrightarrow> loadn m' p (length bs) = Some bs"
  by (auto simp: storen_def loadn_def split: if_splits)

section \<open>Block transfer\<close>

text \<open>The memory after \<open>n\<close> bytes starting at \<open>s\<close> have been moved to \<open>d\<close> at once.\<close>

definition blit :: "mem \<Rightarrow> nat \<Rightarrow> nat \<Rightarrow> nat \<Rightarrow> mem" where
  "blit m d s n = take d m @ take n (drop s m) @ drop (d + n) m"

lemma length_blit [simp]:
  "s + n \<le> length m \<Longrightarrow> d + n \<le> length m \<Longrightarrow> length (blit m d s n) = length m"
  by (simp add: blit_def)

lemma nth_blit:
  assumes "s + n \<le> length m" "d + n \<le> length m" "i < length m"
  shows "blit m d s n ! i = (if d \<le> i \<and> i < d + n then m ! (s + (i - d)) else m ! i)"
proof -
  have "min n (length m - s) = n" using assms by simp
  then show ?thesis using assms by (auto simp: blit_def nth_append)
qed

lemma blit_0 [simp]: "d \<le> length m \<Longrightarrow> blit m d s 0 = m"
  by (simp add: blit_def)

lemma blit_same: "d + n \<le> length m \<Longrightarrow> blit m d d n = m"
  by (rule nth_equalityI) (auto simp: nth_blit)

text \<open>The two compositions the copy loops need: ascending and descending.\<close>

lemma blit_fwd:
  assumes "s + (w + n) \<le> length m" "d + (w + n) \<le> length m" "d \<le> s \<or> s + (w + n) \<le> d"
  shows "blit (blit m d s w) (d + w) (s + w) n = blit m d s (w + n)"
  using assms by (intro nth_equalityI) (auto simp: nth_blit)

lemma blit_bwd:
  assumes "s + (n + w) \<le> length m" "d + (n + w) \<le> length m" "s \<le> d \<or> d + (n + w) \<le> s"
  shows "blit (blit m (d + n) (s + n) w) d s n = blit m d s (n + w)"
  using assms by (intro nth_equalityI) (auto simp: nth_blit)

lemma load_store_blit:
  assumes "s + n \<le> length m" "d + n \<le> length m"
  shows "loadn m s n = Some (take n (drop s m))"
    and "storen m d (take n (drop s m)) = Some (blit m d s n)"
  using assms by (simp_all add: loadn_def storen_def blit_def min_absorb1)

lemma loadn_blit_same:
  "s + n \<le> length m \<Longrightarrow> d + n \<le> length m \<Longrightarrow> loadn (blit m d s n) d n = loadn m s n"
  by (simp add: loadn_def blit_def min_absorb1)

section \<open>Little-endian words\<close>

fun to_le :: "nat \<Rightarrow> 'a::len word \<Rightarrow> byte list" where
  "to_le 0 w = []"
| "to_le (Suc n) w = ucast w # to_le n (drop_bit 8 w)"

fun from_le :: "byte list \<Rightarrow> 'a::len word" where
  "from_le [] = 0"
| "from_le (b # bs) = ucast b OR push_bit 8 (from_le bs)"

lemma length_to_le [simp]: "length (to_le n w) = n"
  by (induction n arbitrary: w) auto

lemma from_le_to_le_take: "from_le (to_le n w) = take_bit (8 * n) w"
proof (induction n arbitrary: w)
  case 0
  show ?case by simp
next
  case (Suc n)
  show ?case
  proof (rule bit_word_eqI)
    fix i assume "i < LENGTH('a)"
    then show "bit (from_le (to_le (Suc n) w) :: 'a word) i = bit (take_bit (8 * Suc n) w) i"
      by (cases "i < 8")
        (auto simp: Suc.IH bit_or_iff bit_push_bit_iff bit_take_bit_iff bit_drop_bit_eq bit_ucast_iff
          not_less dest: le_Suc_ex)
  qed
qed

lemma from_le_to_le: "LENGTH('a) \<le> 8 * n \<Longrightarrow> from_le (to_le n w) = (w :: 'a::len word)"
  by (simp add: from_le_to_le_take take_bit_word_eq_self)

section \<open>C strings\<close>

text \<open>
  \<open>cstr p s\<close>: the object seen from the pointer \<open>p\<close> begins with the non-zero bytes \<open>s\<close> and a
  terminating zero; anything may follow.
\<close>

definition cstr :: "byte list \<Rightarrow> byte list \<Rightarrow> bool" where
  "cstr p s \<longleftrightarrow> 0 \<notin> set s \<and> (\<exists>rest. p = s @ 0 # rest)"

lemma cstr_Nil [simp]: "cstr (c # cs) [] \<longleftrightarrow> c = 0"
  by (auto simp: cstr_def)

lemma cstr_Cons [simp]: "cstr (c # cs) (x # xs) \<longleftrightarrow> c = x \<and> x \<noteq> 0 \<and> cstr cs xs"
  by (auto simp: cstr_def)

lemma cstr_empty_obj [simp]: "\<not> cstr [] s"
  by (simp add: cstr_def)

lemma cstr_zero_hd [simp]: "cstr (0 # cs) s \<longleftrightarrow> s = []"
  by (cases s) auto

lemma cstr_nzE:
  assumes "cstr (c # cs) s" "c \<noteq> 0"
  obtains s' where "s = c # s'" "cstr cs s'"
  using assms by (cases s) auto

lemma cstr_objE:
  assumes "cstr p s"
  obtains c cs where "p = c # cs"
  using assms by (cases p) auto

lemma cstr_hd: "cstr (c # cs) s \<Longrightarrow> (s @ [0]) ! 0 = c"
  by (cases s) auto

lemma cstr_unique: "cstr p s \<Longrightarrow> cstr p t \<Longrightarrow> s = t"
proof (induction s arbitrary: p t)
  case Nil
  then show ?case by (cases p; cases t) auto
next
  case (Cons x xs)
  then show ?case by (cases p; cases t) auto
qed

lemma cstr_canonical: "0 \<notin> set s \<Longrightarrow> cstr (s @ [0]) s"
  by (auto simp: cstr_def)

text \<open>The bytes of an ASCII literal, without and with its terminating zero.\<close>

definition bytes_of :: "string \<Rightarrow> byte list" where
  "bytes_of s = map (\<lambda>c. of_nat (of_char c)) s"

definition lit :: "string \<Rightarrow> byte list" where
  "lit s = bytes_of s @ [0]"

section \<open>Widening\<close>

lemma sint_scast_long [simp]: "sint (scast (x :: cint) :: long) = sint x"
  by (rule sint_up_scast) (simp add: is_up)

lemma scast_long_neg [simp]: "(scast (x :: cint) :: long) <s 0 \<longleftrightarrow> x <s 0"
  by (simp add: word_sless_alt)

lemma ucast_scast_cint [simp]: "ucast (scast (x :: cint) :: long) = x"
  by (rule bit_word_eqI) (auto simp: bit_simps)

lemma scast_minus_one [simp]: "(scast (- 1 :: cint) :: long) = - 1"
  by (simp add: signed_eq_0_iff scast_eq)

lemma ucast_minus_one [simp]: "(ucast (- 1 :: long) :: cint) = - 1"
  using ucast_scast_cint[of "- 1"] by simp

lemma sint_nonneg:
  assumes "\<not> (x :: cint) <s 0"
  shows "sint x = uint x"
proof -
  have "0 \<le> sint x" using assms by (simp add: word_sless_alt)
  moreover have "sint x < 2 ^ 32" using sint_less[of x] by simp
  ultimately have "take_bit 32 (sint x) = sint x" by (simp add: take_bit_int_eq_self)
  moreover have "uint (word_of_int (sint x) :: cint) = take_bit 32 (sint x)"
    by (rule uint_word_of_int_eq[where ?k = "sint x", THEN trans]) simp
  ultimately show ?thesis by simp
qed

lemma scast_nonneg: "\<not> (x :: cint) <s 0 \<Longrightarrow> (scast x :: long) = ucast x"
  unfolding scast_eq ucast_eq by (drule sint_nonneg) (simp only:)

lemma uint_below: "unat (r :: long) < 2 ^ 31 \<Longrightarrow> uint r < 2 ^ 31"
  by (metis of_nat_less_iff of_nat_numeral of_nat_power uint_nat)

lemma sint_ucast_small:
  assumes "unat (r :: long) < 2 ^ 31"
  shows "sint (ucast r :: cint) = uint r"
proof -
  have "signed_take_bit 31 (uint r) = uint r"
  proof (rule signed_take_bit_int_eq_self)
    show "- (2 ^ 31) \<le> uint r" by (rule order_trans[OF _ uint_ge_0]) simp
    show "uint r < 2 ^ 31" using assms by (rule uint_below)
  qed
  then show ?thesis by (simp add: signed_ucast_eq)
qed

lemma ucast_small_nonneg: "unat (r :: long) < 2 ^ 31 \<Longrightarrow> \<not> (ucast r :: cint) <s 0"
  using sint_ucast_small[of r] by (simp add: word_sless_alt)

lemma scast_ucast_small: "unat (r :: long) < 2 ^ 31 \<Longrightarrow> scast (ucast r :: cint) = r"
  unfolding scast_eq by (simp only: sint_ucast_small) simp

lemma sint_index:
  assumes "n < 2 ^ 31"
  shows "sint (word_of_nat n :: cint) = int n" "unat (word_of_nat n :: cint) = n"
proof -
  have "signed_take_bit 31 (int n) = int n" using assms by (intro signed_take_bit_int_eq_self) simp_all
  moreover have "(word_of_nat n :: cint) = word_of_int (int n)" by simp
  ultimately show "sint (word_of_nat n :: cint) = int n" by (simp only: sint_sbintrunc') simp
  show "unat (word_of_nat n :: cint) = n" using assms by (simp add: unat_of_nat)
qed

lemma sint_long_small:
  assumes "unat (x :: long) < 2 ^ 63"
  shows "sint x = uint x"
proof -
  have "uint x < 2 ^ 63" using assms by (metis of_nat_less_iff of_nat_numeral of_nat_power uint_nat)
  then have "signed_take_bit 63 (uint x) = uint x"
    by (intro signed_take_bit_int_eq_self order_trans[OF _ uint_ge_0, of "- (2 ^ 63)"]) auto
  then show ?thesis by (simp add: sint_uint)
qed

lemma long_nonneg: "unat (x :: long) < 2 ^ 63 \<Longrightarrow> \<not> x <s 0"
  by (simp add: word_sless_alt sint_long_small)

end
