(* ===== verification/Litc_Mem.thy ===== *)
theory Litc_Mem
  imports Prelude
begin

unbundle bit_operations_syntax

text \<open>
  The block routines of \<open>litc.c\<close>: \<open>memcmp\<close>, \<open>memcpy\<close>, \<open>memmove\<close> and \<open>memset\<close>. Both move eight
  bytes at a time through \<open>long\<close> pointers and finish byte by byte; the loops below take the element
  width as an argument, so that one loop of the model is used for the \<open>long\<close> and for the \<open>char\<close>
  loop of the source. The lemmas show that the result is the byte-wise one for every overlap.
\<close>

section \<open>Copy loops\<close>

text \<open>\<open>for (; n >= w; n -= w) *d++ = *s++;\<close> with elements of \<open>w\<close> bytes.\<close>

function copy_fwd :: "nat \<Rightarrow> mem \<Rightarrow> nat \<Rightarrow> nat \<Rightarrow> nat \<Rightarrow> (mem \<times> nat \<times> nat \<times> nat) option" where
  "copy_fwd w m d s n =
     (if 0 < w \<and> w \<le> n then
        (case loadn m s w of
           None \<Rightarrow> None
         | Some bs \<Rightarrow>
             (case storen m d bs of
                None \<Rightarrow> None
              | Some m' \<Rightarrow> copy_fwd w m' (d + w) (s + w) (n - w)))
      else Some (m, d, s, n))"
  by pat_completeness auto
termination
  by (relation "measure (\<lambda>(w, m, d, s, n). n)") auto

text \<open>\<open>for (; n >= w; n -= w) *--d = *--s;\<close> with elements of \<open>w\<close> bytes.\<close>

function copy_bwd :: "nat \<Rightarrow> mem \<Rightarrow> nat \<Rightarrow> nat \<Rightarrow> nat \<Rightarrow> (mem \<times> nat \<times> nat \<times> nat) option" where
  "copy_bwd w m d s n =
     (if 0 < w \<and> w \<le> n then
        (if w \<le> d \<and> w \<le> s then
          (case loadn m (s - w) w of
             None \<Rightarrow> None
           | Some bs \<Rightarrow>
               (case storen m (d - w) bs of
                  None \<Rightarrow> None
                | Some m' \<Rightarrow> copy_bwd w m' (d - w) (s - w) (n - w)))
         else None)
      else Some (m, d, s, n))"
  by pat_completeness auto
termination
  by (relation "measure (\<lambda>(w, m, d, s, n). n)") auto

text \<open>\<open>for (; n >= w; n -= w) *p++ = v;\<close> with an element value of \<open>w\<close> bytes.\<close>

function fill_loop :: "byte list \<Rightarrow> mem \<Rightarrow> nat \<Rightarrow> nat \<Rightarrow> (mem \<times> nat \<times> nat) option" where
  "fill_loop v m p n =
     (if v \<noteq> [] \<and> length v \<le> n then
        (case storen m p v of
           None \<Rightarrow> None
         | Some m' \<Rightarrow> fill_loop v m' (p + length v) (n - length v))
      else Some (m, p, n))"
  by pat_completeness auto
termination
  by (relation "measure (\<lambda>(v, m, p, n). n)") (auto simp flip: length_greater_0_conv)

declare copy_fwd.simps [simp del] copy_bwd.simps [simp del] fill_loop.simps [simp del]

section \<open>memmove, memcpy, memset, memcmp\<close>

definition memmove :: "mem \<Rightarrow> nat \<Rightarrow> nat \<Rightarrow> nat \<Rightarrow> (nat \<times> mem) option" where
  "memmove m dst src n =
     (if dst = src \<or> n = 0 then Some (dst, m)
      else if dst > src \<and> dst \<le> src + n then
        (case (if 8 \<le> n then copy_bwd 8 m (dst + n) (src + n) n
               else Some (m, dst + n, src + n, n)) of
           None \<Rightarrow> None
         | Some (m1, d1, s1, n1) \<Rightarrow>
             (case copy_bwd 1 m1 d1 s1 n1 of
                None \<Rightarrow> None
              | Some (m2, d2, s2, n2) \<Rightarrow> Some (d2, m2)))
      else
        (case (if 8 \<le> n then copy_fwd 8 m dst src n else Some (m, dst, src, n)) of
           None \<Rightarrow> None
         | Some (m1, d1, s1, n1) \<Rightarrow>
             (case copy_fwd 1 m1 d1 s1 n1 of
                None \<Rightarrow> None
              | Some (m2, d2, s2, n2) \<Rightarrow> Some (dst, m2))))"

definition memcpy :: "mem \<Rightarrow> nat \<Rightarrow> nat \<Rightarrow> nat \<Rightarrow> (nat \<times> mem) option" where
  "memcpy m dst src n = memmove m dst src n"

text \<open>The eight-byte pattern \<open>memset\<close> builds from the low byte of its argument.\<close>

definition memset_c8 :: "cint \<Rightarrow> long" where
  "memset_c8 c =
     (let c8 = ucast (ucast c :: byte) :: long;
          c8 = c8 OR push_bit 8 c8;
          c8 = c8 OR push_bit 16 c8
      in c8 OR push_bit 32 c8)"

definition memset :: "mem \<Rightarrow> nat \<Rightarrow> cint \<Rightarrow> nat \<Rightarrow> (nat \<times> mem) option" where
  "memset m d c n =
     (if n = 0 then Some (d, m)
      else
        (case (if 8 \<le> n then fill_loop (to_le 8 (memset_c8 c)) m d n else Some (m, d, n)) of
           None \<Rightarrow> None
         | Some (m1, p1, n1) \<Rightarrow>
             (case fill_loop [ucast c] m1 p1 n1 of
                None \<Rightarrow> None
              | Some (m2, p2, n2) \<Rightarrow> Some (d, m2))))"

text \<open>\<open>while (sz >= w && *e1 == *e2) sz -= w, e1++, e2++;\<close>; for \<open>w = 1\<close> the guard is \<open>sz\<close>.\<close>

function cmp_loop :: "nat \<Rightarrow> mem \<Rightarrow> nat \<Rightarrow> nat \<Rightarrow> nat \<Rightarrow> (nat \<times> nat \<times> nat) option" where
  "cmp_loop w m q p sz =
     (if 0 < w \<and> w \<le> sz then
        (case (loadn m q w, loadn m p w) of
           (Some x, Some y) \<Rightarrow>
             if x = y then cmp_loop w m (q + w) (p + w) (sz - w) else Some (q, p, sz)
         | _ \<Rightarrow> None)
      else Some (q, p, sz))"
  by pat_completeness auto
termination
  by (relation "measure (\<lambda>(w, m, q, p, sz). sz)") auto

declare cmp_loop.simps [simp del]

definition memcmp :: "mem \<Rightarrow> nat \<Rightarrow> nat \<Rightarrow> nat \<Rightarrow> int option" where
  "memcmp m q p sz =
     (case cmp_loop 8 m q p sz of
        None \<Rightarrow> None
      | Some (s1, s2, sz1) \<Rightarrow>
          (case cmp_loop 1 m s1 s2 sz1 of
             None \<Rightarrow> None
           | Some (t1, t2, sz2) \<Rightarrow>
               if sz2 = 0 then Some 0
               else (case (loadn m t1 1, loadn m t2 1) of
                       (Some [x], Some [y]) \<Rightarrow> Some (sint x - sint y)
                     | _ \<Rightarrow> None)))"

section \<open>Lemmas\<close>

subsection \<open>The copy loops move what they have counted down\<close>

lemma copy_fwd_blit:
  assumes "0 < w" "s + n \<le> length m" "d + n \<le> length m" "d \<le> s \<or> s + n \<le> d"
  shows "copy_fwd w m d s n =
     Some (blit m d s (n - n mod w), d + (n - n mod w), s + (n - n mod w), n mod w)"
  using assms
proof (induction w m d s n rule: copy_fwd.induct)
  case (1 w m d s n)
  show ?case
  proof (cases "w \<le> n")
    case True
    let ?k = "n - w"
    have bounds: "s + w \<le> length m" "d + w \<le> length m" using "1.prems" True by auto
    have mod: "?k mod w = n mod w" using True by (simp add: le_mod_geq)
    have le: "n mod w \<le> ?k" using mod by (metis mod_less_eq_dividend)
    have IH: "copy_fwd w (blit m d s w) (d + w) (s + w) ?k =
        Some (blit (blit m d s w) (d + w) (s + w) (?k - n mod w), d + w + (?k - n mod w),
          s + w + (?k - n mod w), n mod w)"
      using "1.IH"[of "take w (drop s m)" "blit m d s w"] "1.prems" True bounds mod
      by (auto simp: load_store_blit)
    have "blit (blit m d s w) (d + w) (s + w) (?k - n mod w) = blit m d s (n - n mod w)"
      using blit_fwd[of s w "?k - n mod w" m d] "1.prems" True le by auto
    then show ?thesis
      using IH True "1.prems"(1) bounds le by (simp add: copy_fwd.simps[of w m d s n] load_store_blit)
  next
    case False
    then show ?thesis using "1.prems" by (simp add: copy_fwd.simps[of w m d s n])
  qed
qed

lemma copy_bwd_blit:
  assumes "0 < w" "s + n \<le> length m" "d + n \<le> length m" "s \<le> d \<or> d + n \<le> s"
  shows "copy_bwd w m (d + n) (s + n) n =
     Some (blit m (d + n mod w) (s + n mod w) (n - n mod w), d + n mod w, s + n mod w, n mod w)"
  using assms
proof (induction n arbitrary: m rule: less_induct)
  case (less n)
  show ?case
  proof (cases "w \<le> n")
    case True
    let ?k = "n - w"
    have n: "n = ?k + w" using True by simp
    have mod: "?k mod w = n mod w" using True by (simp add: le_mod_geq)
    have le: "n mod w \<le> ?k" using mod by (metis mod_less_eq_dividend)
    let ?m = "blit m (d + ?k) (s + ?k) w"
    have bounds: "s + ?k + w \<le> length m" "d + ?k + w \<le> length m" using less.prems True by auto
    have IH: "copy_bwd w ?m (d + ?k) (s + ?k) ?k =
        Some (blit ?m (d + n mod w) (s + n mod w) (?k - n mod w), d + n mod w, s + n mod w, n mod w)"
      using less.IH[of ?k ?m] less.prems True bounds mod by auto
    have "blit ?m (d + n mod w) (s + n mod w) (?k - n mod w)
        = blit m (d + n mod w) (s + n mod w) (n - n mod w)"
      using blit_bwd[of "s + n mod w" "?k - n mod w" w m "d + n mod w"] less.prems True le by auto
    moreover have "loadn m (s + n - w) w = Some (take w (drop (s + ?k) m))"
      and "storen m (d + n - w) (take w (drop (s + ?k) m)) = Some ?m"
      using load_store_blit[OF bounds] True by simp_all
    ultimately show ?thesis
      using IH True less.prems by (simp add: copy_bwd.simps[of w m "d + n" "s + n" n])
  next
    case False
    then show ?thesis using less.prems by (simp add: copy_bwd.simps[of w m "d + n" "s + n" n])
  qed
qed

lemma memmove_blit:
  assumes "s + n \<le> length m" "d + n \<le> length m"
  shows "memmove m d s n = Some (d, blit m d s n)"
proof -
  let ?r = "n mod 8"
  have r: "?r \<le> n" by simp
  consider (triv) "d = s \<or> n = 0" | (bwd) "d \<noteq> s" "n \<noteq> 0" "s < d" "d \<le> s + n"
    | (fwd) "d \<noteq> s" "n \<noteq> 0" "\<not> (s < d \<and> d \<le> s + n)" by blast
  then show ?thesis
  proof cases
    case triv
    then show ?thesis using assms by (auto simp: memmove_def blit_same)
  next
    case bwd
    have "copy_bwd 1 (blit m (d + ?r) (s + ?r) (n - ?r)) (d + ?r) (s + ?r) ?r
        = Some (blit m d s n, d, s, 0)"
      using copy_bwd_blit[of 1 s ?r "blit m (d + ?r) (s + ?r) (n - ?r)" d]
        blit_bwd[of s ?r "n - ?r" m d] assms bwd by simp
    then show ?thesis
      using bwd copy_bwd_blit[of 8 s n m d] assms by (auto simp: memmove_def)
  next
    case fwd
    have sep: "d \<le> s \<or> s + n \<le> d" using fwd by auto
    then have "d + (n - ?r) \<le> s + (n - ?r) \<or> s + (n - ?r) + ?r \<le> d + (n - ?r)" using r by linarith
    then have "copy_fwd 1 (blit m d s (n - ?r)) (d + (n - ?r)) (s + (n - ?r)) ?r
        = Some (blit m d s n, d + n, s + n, 0)"
      using copy_fwd_blit[of 1 "s + (n - ?r)" ?r "blit m d s (n - ?r)" "d + (n - ?r)"]
        blit_fwd[of s "n - ?r" ?r m d] assms sep by simp
    then show ?thesis
      using fwd sep copy_fwd_blit[of 8 s n m d] assms by (auto simp: memmove_def)
  qed
qed

subsection \<open>Filling\<close>

definition fill :: "mem \<Rightarrow> nat \<Rightarrow> nat \<Rightarrow> byte \<Rightarrow> mem" where
  "fill m p n v = take p m @ replicate n v @ drop (p + n) m"

lemma fill_0 [simp]: "p \<le> length m \<Longrightarrow> fill m p 0 v = m"
  by (simp add: fill_def)

lemma length_fill [simp]: "p + n \<le> length m \<Longrightarrow> length (fill m p n v) = length m"
  by (simp add: fill_def)

lemma fill_fill:
  assumes "p + (w + n) \<le> length m"
  shows "fill (fill m p w v) (p + w) n v = fill m p (w + n) v"
  using assms by (simp add: fill_def replicate_add add.assoc) (simp add: ac_simps)

lemma storen_fill:
  "p + w \<le> length m \<Longrightarrow> storen m p (replicate w v) = Some (fill m p w v)"
  by (simp add: storen_def fill_def)

lemma fill_loop_fill:
  assumes "0 < w" "p + n \<le> length m"
  shows "fill_loop (replicate w v) m p n =
    Some (fill m p (n - n mod w) v, p + (n - n mod w), n mod w)"
  using assms
proof (induction n arbitrary: m p rule: less_induct)
  case (less n)
  show ?case
  proof (cases "w \<le> n")
    case True
    let ?k = "n - w"
    have mod: "?k mod w = n mod w" using True by (simp add: le_mod_geq)
    have le: "n mod w \<le> ?k" using mod by (metis mod_less_eq_dividend)
    have "fill (fill m p w v) (p + w) (?k - n mod w) v = fill m p (n - n mod w) v"
      using fill_fill[of p w "?k - n mod w" m v] less.prems True le by simp
    then show ?thesis
      using less.IH[of ?k "p + w" "fill m p w v"] less.prems True mod le
      by (simp add: fill_loop.simps[of "replicate w v" m p n] storen_fill)
  next
    case False
    then show ?thesis using less.prems by (simp add: fill_loop.simps[of "replicate w v" m p n])
  qed
qed

lemma memset_c8_bytes: "to_le 8 (memset_c8 c) = replicate 8 (ucast c)"
proof -
  have "bit (memset_c8 c) (8 * k + i) = bit c i" if "k < 8" "i < 8" for k i
  proof -
    from that(1) consider "k = 0" | "k = 1" | "k = 2" | "k = 3" | "k = 4" | "k = 5" | "k = 6" | "k = 7"
      by linarith
    then show ?thesis
      using that(2)
      by cases (auto simp: memset_c8_def Let_def bit_or_iff bit_push_bit_iff bit_ucast_iff)
  qed
  then have "ucast (drop_bit (8 * k) (memset_c8 c)) = (ucast c :: byte)" if "k < 8" for k
    using that by (intro bit_word_eqI) (auto simp: bit_ucast_iff bit_drop_bit_eq add.commute)
  from this[of 0] this[of 1] this[of 2] this[of 3] this[of 4] this[of 5] this[of 6] this[of 7]
  show ?thesis by (simp add: numeral_eq_Suc)
qed

lemma memset_fill:
  assumes "d + n \<le> length m"
  shows "memset m d c n = Some (d, fill m d n (ucast c))"
proof (cases "n = 0")
  case True
  then show ?thesis using assms by (simp add: memset_def)
next
  case False
  let ?r = "n mod 8"
  have le: "?r \<le> n" by simp
  have chunk: "(if 8 \<le> n then fill_loop (to_le 8 (memset_c8 c)) m d n else Some (m, d, n)) =
      Some (fill m d (n - ?r) (ucast c), d + (n - ?r), ?r)"
    using fill_loop_fill[of 8 d n m "ucast c"] assms by (simp add: memset_c8_bytes)
  have "fill_loop (replicate 1 (ucast c)) (fill m d (n - ?r) (ucast c)) (d + (n - ?r)) ?r =
      Some (fill m d n (ucast c), d + n, 0)"
    using fill_loop_fill[of 1 "d + (n - ?r)" ?r "fill m d (n - ?r) (ucast c)" "ucast c"]
      fill_fill[of d "n - ?r" ?r m "ucast c"] assms le by simp
  then show ?thesis using chunk False by (simp add: memset_def)
qed

subsection \<open>Comparing\<close>

text \<open>The byte-wise reference: the signed difference of the first pair that differs.\<close>

fun cmp_bytes :: "byte list \<Rightarrow> byte list \<Rightarrow> int" where
  "cmp_bytes (x # xs) (y # ys) = (if x = y then cmp_bytes xs ys else sint x - sint y)"
| "cmp_bytes _ _ = 0"

lemma cmp_bytes_append:
  "length xs = length ys \<Longrightarrow>
   cmp_bytes (xs @ us) (ys @ vs) = (if xs = ys then cmp_bytes us vs else cmp_bytes xs ys)"
  by (induction xs ys rule: list_induct2) auto

lemma cmp_bytes_zero:
  "length xs = length ys \<Longrightarrow> cmp_bytes xs ys = 0 \<longleftrightarrow> xs = ys"
  by (induction xs ys rule: list_induct2) (auto simp: signed_word_eqI)

lemma cmp_loop_inv:
  assumes "0 < w" "q + sz \<le> length m" "p + sz \<le> length m"
  shows "\<exists>q' p' sz'. cmp_loop w m q p sz = Some (q', p', sz') \<and>
     q' + sz' = q + sz \<and> p' + sz' = p + sz \<and>
     cmp_bytes (take sz (drop q m)) (take sz (drop p m)) =
       cmp_bytes (take sz' (drop q' m)) (take sz' (drop p' m)) \<and>
     (w \<le> sz' \<longrightarrow> take w (drop q' m) \<noteq> take w (drop p' m))"
  using assms
proof (induction sz arbitrary: q p rule: less_induct)
  case (less sz)
  let ?x = "take w (drop q m)" and ?y = "take w (drop p m)"
  show ?case
  proof (cases "w \<le> sz \<and> ?x = ?y")
    case True
    then have "take sz (drop q m) = ?x @ take (sz - w) (drop (q + w) m)"
      and "take sz (drop p m) = ?y @ take (sz - w) (drop (p + w) m)"
      by (metis add.commute drop_drop le_add_diff_inverse take_add)+
    then have "cmp_bytes (take sz (drop q m)) (take sz (drop p m)) =
        cmp_bytes (take (sz - w) (drop (q + w) m)) (take (sz - w) (drop (p + w) m))"
      using True cmp_bytes_append[of ?x ?y] by simp
    then show ?thesis
      using less.IH[of "sz - w" "q + w" "p + w"] less.prems True
      by (simp add: cmp_loop.simps[of w m q p sz] loadn_def)
  next
    case False
    then show ?thesis
      using less.prems by (auto simp: cmp_loop.simps[of w m q p sz] loadn_def)
  qed
qed

lemma memcmp_cmp_bytes:
  assumes "q + sz \<le> length m" "p + sz \<le> length m"
  shows "memcmp m q p sz = Some (cmp_bytes (take sz (drop q m)) (take sz (drop p m)))"
proof -
  obtain q1 p1 s1 where one: "cmp_loop 8 m q p sz = Some (q1, p1, s1)"
    "q1 + s1 = q + sz" "p1 + s1 = p + sz"
    "cmp_bytes (take sz (drop q m)) (take sz (drop p m)) =
       cmp_bytes (take s1 (drop q1 m)) (take s1 (drop p1 m))"
    using cmp_loop_inv[of 8 q sz m p] assms by auto
  obtain q2 p2 s2 where two: "cmp_loop 1 m q1 p1 s1 = Some (q2, p2, s2)"
    "q2 + s2 = q1 + s1" "p2 + s2 = p1 + s1"
    "cmp_bytes (take s1 (drop q1 m)) (take s1 (drop p1 m)) =
       cmp_bytes (take s2 (drop q2 m)) (take s2 (drop p2 m))"
    "1 \<le> s2 \<longrightarrow> take 1 (drop q2 m) \<noteq> take 1 (drop p2 m)"
    using cmp_loop_inv[of 1 q1 s1 m p1] one assms by auto
  show ?thesis
  proof (cases s2)
    case 0
    then show ?thesis using one two by (simp add: memcmp_def)
  next
    case (Suc k)
    then have "q2 < length m" "p2 < length m" using one(2,3) two(2,3) assms by linarith+
    then obtain x xs y ys where xy: "drop q2 m = x # xs" "drop p2 m = y # ys"
      by (metis Cons_nth_drop_Suc)
    with two(5) Suc have "x \<noteq> y" by simp
    then show ?thesis
      using one two Suc xy \<open>q2 < length m\<close> \<open>p2 < length m\<close>
      by (simp add: memcmp_def loadn_def)
  qed
qed

section \<open>Properties\<close>

text \<open>
  C34: \<open>memmove\<close> is correct for every overlap: when both blocks lie in the memory it returns \<open>dst\<close>,
  the destination holds what the source held before the call, and no other byte has changed.
\<close>

theorem memmove_correct:
  assumes "s + n \<le> length m" "d + n \<le> length m"
  shows "\<exists>m'. memmove m d s n = Some (d, m') \<and> length m' = length m \<and>
     loadn m' d n = loadn m s n \<and>
     (\<forall>i < length m. i < d \<or> d + n \<le> i \<longrightarrow> m' ! i = m ! i)"
  using memmove_blit[OF assms] assms by (auto simp: loadn_blit_same nth_blit)

theorem memmove_correct_witness:
  "\<exists>m'. memmove (map of_nat [0..<20]) 3 1 12 = Some (3, m') \<and> length m' = 20 \<and>
     loadn m' 3 12 = loadn (map of_nat [0..<20]) 1 12 \<and> m' ! 2 = 2 \<and> m' ! 15 = 15"
proof -
  let ?m = "map of_nat [0..<20] :: mem"
  obtain m' where m': "memmove ?m 3 1 12 = Some (3, m')" "length m' = 20" "loadn m' 3 12 = loadn ?m 1 12"
    and rest: "\<forall>i < length ?m. i < 3 \<or> 3 + 12 \<le> i \<longrightarrow> m' ! i = ?m ! i"
    using memmove_correct[of 1 12 ?m 3] by auto
  have "m' ! 2 = 2" "m' ! 15 = 15" using rest[rule_format, of 2] rest[rule_format, of 15] by simp_all
  with m' show ?thesis by blast
qed

text \<open>
  \<open>memset\<close> stores the low byte of its argument in exactly the \<open>n\<close> bytes from \<open>d\<close>, although it
  works on eight bytes at a time with a pattern built by shifts.
\<close>

theorem memset_correct:
  assumes "d + n \<le> length m"
  shows "memset m d c n = Some (d, take d m @ replicate n (ucast c) @ drop (d + n) m)"
  using memset_fill[OF assms] by (simp add: fill_def)

theorem memset_correct_witness:
  "memset [1, 2, 3, 4, 5, 6, 7, 8, 9, 10, 11, 12] 2 0x1FF 9 =
     Some (2, [1, 2] @ replicate 9 (ucast (0x1FF :: cint)) @ [12])"
  using memset_correct[of 2 9 "[1, 2, 3, 4, 5, 6, 7, 8, 9, 10, 11, 12]" "0x1FF"] by simp

text \<open>
  \<open>memcmp\<close> agrees with the byte-wise comparison: it is zero exactly when the two blocks are
  equal, and otherwise the difference, as signed chars, of the first two bytes that differ.
\<close>

theorem memcmp_correct:
  assumes "q + sz \<le> length m" "p + sz \<le> length m"
  shows "\<exists>r. memcmp m q p sz = Some r \<and> (r = 0 \<longleftrightarrow> loadn m q sz = loadn m p sz) \<and>
     (\<forall>k < sz. take k (drop q m) = take k (drop p m) \<longrightarrow> m ! (q + k) \<noteq> m ! (p + k) \<longrightarrow>
        r = sint (m ! (q + k)) - sint (m ! (p + k)))"
proof -
  let ?x = "take sz (drop q m)" and ?y = "take sz (drop p m)"
  have "cmp_bytes ?x ?y = sint (m ! (q + k)) - sint (m ! (p + k))"
    if k: "k < sz" and eq: "take k (drop q m) = take k (drop p m)"
      and ne: "m ! (q + k) \<noteq> m ! (p + k)" for k
  proof -
    have split: "take sz (drop a m) = take k (drop a m) @ m ! (a + k) # take (sz - Suc k) (drop (Suc (a + k)) m)"
      if "a + sz \<le> length m" for a
    proof -
      have "k < length (take sz (drop a m))" using that k by simp
      from id_take_nth_drop[OF this] show ?thesis
        using that k by (simp add: min_def drop_take add.commute)
    qed
    show ?thesis
      using split[OF assms(1)] split[OF assms(2)] eq ne
        cmp_bytes_append[of "take k (drop q m)" "take k (drop p m)"] by simp
  qed
  then show ?thesis
    using memcmp_cmp_bytes[OF assms] cmp_bytes_zero[of ?x ?y] assms by (auto simp: loadn_def)
qed

theorem memcmp_correct_witness:
  "\<exists>r. memcmp [1, 2, 3, 1, 255, 3] 0 3 3 = Some r \<and>
     (r = 0 \<longleftrightarrow> loadn [1, 2, 3, 1, 255, 3] 0 3 = loadn [1, 2, 3, 1, 255, 3 :: byte] 3 3) \<and>
     r = sint (2 :: byte) - sint (255 :: byte)"
proof -
  let ?m = "[1, 2, 3, 1, 255, 3 :: byte]"
  from memcmp_correct[of 0 3 ?m 3] obtain r where
    r: "memcmp ?m 0 3 3 = Some r" "r = 0 \<longleftrightarrow> loadn ?m 0 3 = loadn ?m 3 3" and
    k: "\<forall>k < 3. take k (drop 0 ?m) = take k (drop 3 ?m) \<longrightarrow> ?m ! (0 + k) \<noteq> ?m ! (3 + k) \<longrightarrow>
        r = sint (?m ! (0 + k)) - sint (?m ! (3 + k))"
    by auto
  from k[rule_format, of 1] have "r = sint (2 :: byte) - sint (255 :: byte)" by simp
  with r show ?thesis by blast
qed

end
