(* ===== verification/Litc_Ctype.thy ===== *)
theory Litc_Ctype
  imports Prelude
begin

unbundle bit_operations_syntax

text \<open>
  Character classes of \<open>litc.c\<close>. The C functions take an \<open>int\<close>; a truth value they return is a
  \<open>bool\<close> here. \<open>ispunct\<close> indexes a table of 255 entries with an \<open>unsigned char\<close>, so it and
  \<open>isprint\<close> read past the table for 255: \<open>None\<close>.
\<close>

definition islower :: "int \<Rightarrow> bool" where
  "islower c \<longleftrightarrow> c \<ge> 97 \<and> c \<le> 122"

definition isupper :: "int \<Rightarrow> bool" where
  "isupper c \<longleftrightarrow> c \<ge> 65 \<and> c \<le> 90"

definition isalpha :: "int \<Rightarrow> bool" where
  "isalpha c \<longleftrightarrow> isupper c \<or> islower c"

definition isdigit :: "int \<Rightarrow> bool" where
  "isdigit c \<longleftrightarrow> c \<ge> 48 \<and> c \<le> 57"

text \<open>The characters whose entry of the table \<open>_punct[255]\<close> is set.\<close>

definition s_punct_chars :: "byte list" where
  "s_punct_chars =
     bytes_of [CHR 0x21, CHR 0x22, CHR 0x23, CHR 0x24, CHR 0x25, CHR 0x26,
       CHR 0x27, CHR 0x28, CHR 0x29, CHR 0x2A, CHR 0x2B, CHR 0x2C,
       CHR 0x2D, CHR 0x2E, CHR 0x2F, CHR 0x3A, CHR 0x3B, CHR 0x3C,
       CHR 0x3D, CHR 0x3E, CHR 0x3F, CHR 0x40, CHR 0x5B, CHR 0x5C,
       CHR 0x5D, CHR 0x5E, CHR 0x5F, CHR 0x60, CHR 0x7B, CHR 0x7C,
       CHR 0x7D, CHR 0x7E]"

definition s_punct :: "nat \<Rightarrow> bool option" where
  "s_punct i = (if i < 255 then Some (of_nat i \<in> set s_punct_chars) else None)"

definition ispunct :: "int \<Rightarrow> bool option" where
  "ispunct c = s_punct (unat (word_of_int c :: byte))"

definition isprint :: "int \<Rightarrow> bool option" where
  "isprint c = (if isalpha c \<or> isdigit c then Some True else ispunct c)"

definition isspace :: "int \<Rightarrow> bool" where
  "isspace c \<longleftrightarrow> c = 32 \<or> c = 12 \<or> c = 10 \<or> c = 9 \<or> c = 11 \<or> c = 13"

definition tolower :: "int \<Rightarrow> int" where
  "tolower c = (if \<not> isalpha c then c else c OR 0x20)"

definition toupper :: "int \<Rightarrow> int" where
  "toupper c = (if \<not> isalpha c then c else c AND NOT 0x20)"

definition isxdigit :: "int \<Rightarrow> bool" where
  "isxdigit c \<longleftrightarrow> (let d = tolower c in isdigit c \<or> (d \<ge> 97 \<and> d \<le> 102))"

definition s_isoct :: "int \<Rightarrow> bool" where
  "s_isoct c \<longleftrightarrow> c \<ge> 48 \<and> c \<le> 55"

section \<open>Lemmas\<close>

lemmas ctype_defs = islower_def isupper_def isalpha_def isdigit_def isspace_def isxdigit_def
  s_isoct_def

text \<open>
  The letters are finitely many: a statement about all of them is checked letter by letter.
\<close>

lemma isupper_cases: "isupper c \<longleftrightarrow> c \<in> set [65..90]"
  by (simp only: isupper_def set_upto atLeastAtMost_iff)

lemma islower_cases: "islower c \<longleftrightarrow> c \<in> set [97..122]"
  by (simp only: islower_def set_upto atLeastAtMost_iff)

lemma all_upper: "\<forall>c \<in> set [65..90]. c OR 32 = c + 32 \<and> c AND NOT 32 = (c :: int)"
  by (simp add: upto.simps)

lemma all_lower: "\<forall>c \<in> set [97..122]. c OR 32 = c \<and> c AND NOT 32 = c - (32 :: int)"
  by (simp add: upto.simps)

lemma tolower_eq: "tolower c = (if isupper c then c + 32 else c)"
  using all_upper all_lower isupper_cases[of c] islower_cases[of c]
  by (auto simp: tolower_def isalpha_def isupper_def islower_def simp del: set_upto)

lemma toupper_eq: "toupper c = (if islower c then c - 32 else c)"
  using all_upper all_lower isupper_cases[of c] islower_cases[of c]
  by (auto simp: toupper_def isalpha_def isupper_def islower_def simp del: set_upto)

lemma tolower_idem: "tolower (tolower c) = tolower c"
  by (auto simp: tolower_eq isupper_def)

lemma isxdigit_eq:
  "isxdigit c \<longleftrightarrow> isdigit c \<or> (97 \<le> c \<and> c \<le> 102) \<or> (65 \<le> c \<and> c \<le> 70)"
  by (auto simp: isxdigit_def tolower_eq ctype_defs Let_def)

lemma ispunct_None: "ispunct c = None \<longleftrightarrow> c mod 256 = 255"
proof -
  have "unat (word_of_int c :: byte) = nat (c mod 256)"
    by (simp add: unat_eq_nat_uint uint_word_of_int)
  then show ?thesis by (auto simp: ispunct_def s_punct_def)
qed

section \<open>Properties\<close>

text \<open>
  case conversion is what the C standard asks for ASCII: \<open>tolower\<close> and \<open>toupper\<close>, written with
  bit operations, add or subtract 32 on letters of the other case, change nothing else, and undo
  each other on letters.
\<close>

theorem case_conversion:
  "tolower c = (if isupper c then c + 32 else c) \<and>
   toupper c = (if islower c then c - 32 else c) \<and>
   (isupper c \<longrightarrow> toupper (tolower c) = c) \<and> (islower c \<longrightarrow> tolower (toupper c) = c)"
  by (auto simp: tolower_eq toupper_eq isupper_def islower_def)

theorem case_conversion_witness:
  "isupper 81 \<and> islower 113 \<and> toupper (tolower 81) = 81 \<and> tolower (toupper 113) = 113"
  using case_conversion[of 81] case_conversion[of 113] by (simp add: isupper_def islower_def)

end
