(* ===== verification/Litc_Str.thy ===== *)
theory Litc_Str
  imports Litc_Ctype
begin

unbundle bit_operations_syntax

text \<open>
  The string routines of \<open>litc.c\<close>. A string argument is the list of bytes from the pointer to the
  end of its object. The result \<open>None\<close> means that the routine reads past that object. A pointer
  result is again such a list, and a null pointer is \<open>None\<close> inside the result.
\<close>

section \<open>Length, comparison, search\<close>

fun strlen :: "byte list \<Rightarrow> nat option" where
  "strlen [] = None"
| "strlen (c # msg) = (if c \<noteq> 0 then map_option Suc (strlen msg) else Some 0)"

fun strcmp :: "byte list \<Rightarrow> byte list \<Rightarrow> int option" where
  "strcmp (a # s1) (b # s2) =
     (if a \<noteq> 0 \<and> a = b then strcmp s1 s2 else Some (sint a - sint b))"
| "strcmp _ _ = None"

definition strcoll :: "byte list \<Rightarrow> byte list \<Rightarrow> int option" where
  "strcoll s1 s2 = strcmp s1 s2"

fun strncmp :: "byte list \<Rightarrow> byte list \<Rightarrow> nat \<Rightarrow> int option" where
  "strncmp s1 s2 0 = Some 0"
| "strncmp (a # s1) (b # s2) (Suc n) =
     (if a \<noteq> 0 \<and> a = b then strncmp s1 s2 n else Some (sint a - sint b))"
| "strncmp _ _ (Suc n) = None"

text \<open>The loop of \<open>strncasecmp\<close>: \<open>a\<close> and \<open>b\<close> are the \<open>uint\<close> values of the last characters read.\<close>

fun strncasecmp_loop :: "nat \<Rightarrow> cint \<Rightarrow> cint \<Rightarrow> byte list \<Rightarrow> byte list \<Rightarrow> (nat \<times> cint \<times> cint) option"
where
  "strncasecmp_loop 0 a b s1 s2 = Some (0, a, b)"
| "strncasecmp_loop (Suc n) a b s1 s2 =
     (if a \<noteq> 0 \<and> a = b then
        (case (s1, s2) of
           (x # s1', y # s2') \<Rightarrow>
             strncasecmp_loop n (word_of_int (tolower (sint x))) (word_of_int (tolower (sint y))) s1' s2'
         | _ \<Rightarrow> None)
      else Some (Suc n, a, b))"

definition strncasecmp :: "byte list \<Rightarrow> byte list \<Rightarrow> nat \<Rightarrow> int option" where
  "strncasecmp s1 s2 n =
     (case (s1, s2) of
        (x # s1', y # s2') \<Rightarrow>
          (case strncasecmp_loop n (word_of_int (tolower (sint x))) (word_of_int (tolower (sint y)))
                  s1' s2' of
             None \<Rightarrow> None
           | Some (n', a, b) \<Rightarrow> if n' = 0 then Some 0 else Some (sint (a - b)))
      | _ \<Rightarrow> None)"

definition strcasecmp :: "byte list \<Rightarrow> byte list \<Rightarrow> int option" where
  "strcasecmp s1 s2 = strncasecmp s1 s2 (2 ^ 64 - 1)"

fun strchr :: "byte list \<Rightarrow> int \<Rightarrow> byte list option option" where
  "strchr [] l = None"
| "strchr (c # big) l =
     (if c \<noteq> 0 then (if sint c = l then Some (Some (c # big)) else strchr big l)
      else if l = 0 then Some (Some (c # big))
      else Some None)"

text \<open>The inner loop of \<open>strstr\<close>: where it stops, and whether it returned \<open>guess\<close> directly.\<close>

fun strstr_inner :: "byte list \<Rightarrow> byte list \<Rightarrow> (byte list \<times> byte list \<times> bool) option" where
  "strstr_inner [] ls = None"
| "strstr_inner (b # bs) ls =
     (if b = 0 then Some (b # bs, ls, False)
      else (case ls of
              [] \<Rightarrow> None
            | l # ls' \<Rightarrow>
                if l = 0 then Some (b # bs, ls, True)
                else if b \<noteq> l then Some (b # bs, ls, False)
                else strstr_inner bs ls'))"

lemma strstr_inner_length:
  "strstr_inner big ls = Some (big', ls', f) \<Longrightarrow> length big' \<le> length big"
  by (induction big ls rule: strstr_inner.induct) (auto split: if_splits list.splits)

function strstr :: "byte list \<Rightarrow> byte list \<Rightarrow> byte list option option" where
  "strstr [] little = None"
| "strstr (b # bs) little =
     (if b = 0 then Some None
      else (case little of
              [] \<Rightarrow> None
            | l # ls \<Rightarrow>
                if b = l then
                  (case strstr_inner (b # bs) little of
                     None \<Rightarrow> None
                   | Some (big', l', found) \<Rightarrow>
                       if found then Some (Some (b # bs))
                       else (case big' of
                               [] \<Rightarrow> None
                             | c # _ \<Rightarrow>
                                 if c = 0 then
                                   (case l' of
                                      [] \<Rightarrow> None
                                    | x # _ \<Rightarrow> if x = 0 then Some (Some (b # bs))
                                               else strstr big' little)
                                 else strstr big' little))
                else strstr bs little))"
  by pat_completeness auto
termination
  by (relation "measure (\<lambda>(big, little). length big)")
    (auto dest!: strstr_inner_length)

text \<open>The inner loop of \<open>strpbrk\<close>: is the character among the bytes of the set?\<close>

fun strpbrk_inner :: "byte \<Rightarrow> byte list \<Rightarrow> bool option" where
  "strpbrk_inner c [] = None"
| "strpbrk_inner c (b # bs) =
     (if b = 0 then Some False else if c = b then Some True else strpbrk_inner c bs)"

fun strpbrk :: "byte list \<Rightarrow> byte list \<Rightarrow> byte list option option" where
  "strpbrk [] bb = None"
| "strpbrk (c # as) bb =
     (if c = 0 then Some None
      else (case strpbrk_inner c bb of
              None \<Rightarrow> None
            | Some True \<Rightarrow> Some (Some (c # as))
            | Some False \<Rightarrow> strpbrk as bb))"

section \<open>Numbers\<close>

fun skip_space :: "byte list \<Rightarrow> byte list option" where
  "skip_space [] = None"
| "skip_space (c # n) = (if isspace (sint c) then skip_space n else Some (c # n))"

text \<open>The digit loop of \<open>strtol\<close>; \<open>tot\<close> wraps at 64 bits.\<close>

fun strtol_digits :: "(int \<Rightarrow> bool) \<Rightarrow> long \<Rightarrow> byte list \<Rightarrow> long \<Rightarrow> (long \<times> byte list) option" where
  "strtol_digits matcher base [] tot = None"
| "strtol_digits matcher base (ch # n) tot =
     (if matcher (sint ch) then
        (let c = tolower (sint ch) in
         strtol_digits matcher base n
           (tot * base + word_of_int (if isalpha c then c - 97 + 10 else c - 48)))
      else Some (tot, ch # n))"

abbreviation EINVAL :: cint where "EINVAL \<equiv> 22"

text \<open>
  The result of \<open>strtol\<close>: the value, what is stored through \<open>endptr\<close> when it is not null
  (\<open>None\<close>: nothing is stored) and the new \<open>errno\<close> when it is set.
\<close>

type_synonym strtol_result = "long \<times> byte list option \<times> cint option"

definition strtol_sign :: "byte list \<Rightarrow> (long \<times> byte list) option" where
  "strtol_sign n =
     (case n of
        [] \<Rightarrow> None
      | c # n' \<Rightarrow>
          if c = 43 then Some (1, n') else if c = 45 then Some (-1, n') else Some (1, c # n'))"

definition strtol :: "byte list \<Rightarrow> int \<Rightarrow> strtol_result option" where
  "strtol str base =
     (case Option.bind (skip_space str) strtol_sign of
        None \<Rightarrow> None
      | Some (sign, n) \<Rightarrow>
          (case (strcmp n (lit ''0x''), n) of
             (Some r, c # _) \<Rightarrow>
               (let haspre = (r = 0);
                    run = (\<lambda>matcher b n0.
                      map_option (\<lambda>(tot, e). (tot * sign, Some e, None)) (strtol_digits matcher b n0 0))
                in
                if base = 16 \<or> (base = 0 \<and> haspre) then
                  run isxdigit 16 (if haspre then drop 2 n else n)
                else if base = 8 \<or> (base = 0 \<and> c = 48) then
                  run s_isoct 8 (if c = 48 then drop 1 n else n)
                else if base = 0 \<or> base = 10 then run isdigit 10 n
                else Some (0, None, Some EINVAL))
           | _ \<Rightarrow> None))"

definition atoi :: "byte list \<Rightarrow> cint option" where
  "atoi n = map_option (\<lambda>(v, _, _). ucast v) (strtol n 10)"

definition strtoll :: "byte list \<Rightarrow> int \<Rightarrow> strtol_result option" where
  "strtoll n base = strtol n base"

definition strtoul :: "byte list \<Rightarrow> int \<Rightarrow> strtol_result option" where
  "strtoul n base = strtol n base"

text \<open>\<open>strtoull\<close> calls itself with its own arguments.\<close>

partial_function (option) strtoull :: "byte list \<Rightarrow> int \<Rightarrow> strtol_result option" where
  "strtoull n base = strtoull n base"

section \<open>Lemmas\<close>

subsection \<open>Length and comparison\<close>

lemma strlen_cstr: "cstr p s \<Longrightarrow> strlen p = Some (length s)"
proof (induction p arbitrary: s)
  case (Cons c p)
  then show ?case by (cases s) auto
qed simp

lemma strlen_Some: "strlen p = Some n \<Longrightarrow> cstr p (take n p) \<and> n < length p"
proof (induction p arbitrary: n)
  case (Cons c p)
  then show ?case by (cases n) (auto split: if_splits)
qed simp

lemma strlen_None: "strlen p = None \<longleftrightarrow> 0 \<notin> set p"
  by (induction p) auto

lemma strcmp_Some: "0 \<in> set p \<Longrightarrow> 0 \<in> set q \<Longrightarrow> \<exists>r. strcmp p q = Some r"
  by (induction p q rule: strcmp.induct) auto

lemma cstr_zero: "cstr p s \<Longrightarrow> 0 \<in> set p"
  by (auto simp: cstr_def)

lemma strcmp_eq_zero:
  "cstr p s \<Longrightarrow> cstr q t \<Longrightarrow> strcmp p q = Some 0 \<longleftrightarrow> s = t"
proof (induction p q arbitrary: s t rule: strcmp.induct)
  case (1 a s1 b s2)
  then show ?case by (cases s; cases t) (auto simp: signed_word_eqI)
qed auto

text \<open>The position where two strings are decided: the first one where they differ.\<close>

definition str_below :: "byte list \<Rightarrow> byte list \<Rightarrow> bool" where
  "str_below s t \<longleftrightarrow> (\<exists>i. i \<le> length s \<and> i \<le> length t \<and> take i s = take i t \<and>
      sint ((s @ [0]) ! i) < sint ((t @ [0]) ! i))"

lemma str_below_Cons_same: "str_below (a # s) (a # t) \<longleftrightarrow> str_below s t"
  unfolding str_below_def by (subst ex_nat_cases) simp

lemma str_below_hd:
  assumes "(s @ [0]) ! 0 \<noteq> (t @ [0]) ! 0"
  shows "str_below s t \<longleftrightarrow> sint ((s @ [0]) ! 0) < sint ((t @ [0]) ! 0)"
proof -
  have "take (Suc i) s \<noteq> take (Suc i) t" if "Suc i \<le> length s" "Suc i \<le> length t" for i
    using assms that by (cases s; cases t; simp)
  then show ?thesis unfolding str_below_def by (subst ex_nat_cases) auto
qed

lemma strcmp_less:
  "cstr p s \<Longrightarrow> cstr q t \<Longrightarrow> strcmp p q = Some r \<Longrightarrow> r < 0 \<longleftrightarrow> str_below s t"
proof (induction p q arbitrary: s t rule: strcmp.induct)
  case (1 a s1 b s2)
  note hd = cstr_hd[OF "1.prems"(1)] cstr_hd[OF "1.prems"(2)]
  consider (same) "a \<noteq> 0" "a = b" | (nul) "a = 0" "b = 0" | (diff) "a \<noteq> b" by blast
  then show ?case
  proof cases
    case same
    obtain s' where s: "s = a # s'" "cstr s1 s'" by (rule cstr_nzE[OF "1.prems"(1) same(1)])
    have "b \<noteq> 0" using same by simp
    then obtain t' where t: "t = b # t'" "cstr s2 t'" by (rule cstr_nzE[OF "1.prems"(2)])
    show ?thesis
      using "1.IH"[of s' t'] "1.prems"(3) same s t by (simp add: str_below_Cons_same)
  next
    case nul
    then show ?thesis using "1.prems" by (simp add: str_below_def)
  next
    case diff
    then show ?thesis using str_below_hd[of s t] "1.prems"(3) unfolding hd by auto
  qed
qed simp_all

lemma strcmp_antisym: "strcmp p q = map_option uminus (strcmp q p)"
  by (induction p q rule: strcmp.induct) auto

lemma strncmp_eq_zero:
  "cstr p s \<Longrightarrow> cstr q t \<Longrightarrow> strncmp p q n = Some 0 \<longleftrightarrow> take n s = take n t"
proof (induction p q n arbitrary: s t rule: strncmp.induct)
  case (2 a s1 b s2 n)
  then show ?case by (cases s; cases t) (auto simp: signed_word_eqI)
qed auto

lemma tolower_bounds: "- 128 \<le> c \<Longrightarrow> c \<le> 127 \<Longrightarrow> - 128 \<le> tolower c \<and> tolower c \<le> 127"
  by (auto simp: tolower_eq isupper_def)

lemma sint_byte: "- 128 \<le> sint (b :: byte)" "sint (b :: byte) \<le> 127"
  using sint_ge[of b] sint_less[of b] by simp_all

lemma word_of_int_lower_inj:
  "word_of_int (tolower (sint x)) = (word_of_int (tolower (sint y)) :: cint) \<longleftrightarrow>
   tolower (sint (x :: byte)) = tolower (sint (y :: byte))"
proof -
  have "sint (word_of_int (tolower (sint z)) :: cint) = tolower (sint z)" for z :: byte
    using tolower_bounds[of "sint z"] sint_byte[of z]
    by (simp add: signed_of_int signed_take_bit_int_eq_self)
  then show ?thesis by metis
qed

abbreviation low :: "byte \<Rightarrow> int" where "low x \<equiv> tolower (sint x)"

lemma low_zero: "low x = 0 \<longleftrightarrow> x = 0"
  by (auto simp: tolower_eq isupper_def) (metis signed_0 signed_word_eqI)

lemma low_word_zero: "word_of_int (low x) = (0 :: cint) \<longleftrightarrow> x = 0"
  using word_of_int_lower_inj[of x 0] low_zero[of x] by (simp add: tolower_eq isupper_def)

lemma strncasecmp_loop_spec:
  "cstr (x # p) s \<Longrightarrow> cstr (y # q) t \<Longrightarrow>
   \<exists>n' a b. strncasecmp_loop n (word_of_int (low x)) (word_of_int (low y)) p q = Some (n', a, b) \<and>
     (n' = 0 \<or> a = b \<longleftrightarrow> take n (map low s) = take n (map low t))"
proof (induction n arbitrary: x y p q s t)
  case 0
  then show ?case by simp
next
  case (Suc n)
  consider (same) "x \<noteq> 0" "low x = low y" | (nul) "x = 0" "y = 0" | (diff) "low x \<noteq> low y"
    using low_zero[of x] low_zero[of y] by metis
  then show ?case
  proof cases
    case same
    then have y: "y \<noteq> 0" using low_zero[of x] low_zero[of y] by auto
    obtain s' where s: "s = x # s'" "cstr p s'" by (rule cstr_nzE[OF Suc.prems(1) same(1)])
    obtain t' where t: "t = y # t'" "cstr q t'" by (rule cstr_nzE[OF Suc.prems(2) y])
    obtain x' p' where p: "p = x' # p'" by (rule cstr_objE[OF s(2)])
    obtain y' q' where q: "q = y' # q'" by (rule cstr_objE[OF t(2)])
    show ?thesis
      using Suc.IH[of x' p' s' y' q' t'] s t p q same y
      by (simp add: low_word_zero word_of_int_lower_inj)
  next
    case nul
    then show ?thesis using Suc.prems by (simp add: tolower_eq isupper_def)
  next
    case diff
    then have "take (Suc n) (map low s) \<noteq> take (Suc n) (map low t)"
      using Suc.prems low_zero by (cases s; cases t) auto
    then show ?thesis using diff by (simp add: word_of_int_lower_inj)
  qed
qed

lemma strncasecmp_zero:
  assumes "cstr p s" "cstr q t"
  shows "\<exists>r. strncasecmp p q n = Some r \<and>
    (r = 0 \<longleftrightarrow> take n (map low s) = take n (map low t))"
proof -
  obtain x p' where p: "p = x # p'" by (rule cstr_objE[OF assms(1)])
  obtain y q' where q: "q = y # q'" by (rule cstr_objE[OF assms(2)])
  have "sint (a - b) = 0 \<longleftrightarrow> a = b" for a b :: cint
    by (metis right_minus_eq signed_0 signed_word_eqI)
  then show ?thesis
    using strncasecmp_loop_spec[of x p' s y q' t n] assms p q
    by (auto simp: strncasecmp_def)
qed

subsection \<open>Searching\<close>

text \<open>
  \<open>first_at P p s i\<close>: position \<open>i\<close> of the string \<open>s\<close> is the first one that satisfies \<open>P\<close>.
\<close>

definition first_at :: "('a \<Rightarrow> bool) \<Rightarrow> 'a list \<Rightarrow> nat \<Rightarrow> bool" where
  "first_at P s i \<longleftrightarrow> i < length s \<and> P (s ! i) \<and> (\<forall>j < i. \<not> P (s ! j))"

lemma first_at_Cons:
  "first_at P (x # s) i \<longleftrightarrow> (if P x then i = 0 else \<exists>k. i = Suc k \<and> first_at P s k)"
  by (cases i) (auto simp: first_at_def nth_Cons split: nat.splits)

lemma first_at_Nil [simp]: "\<not> first_at P [] i"
  by (simp add: first_at_def)

lemma strchr_nul: "cstr p s \<Longrightarrow> strchr p 0 = Some (Some (drop (length s) p))"
proof (induction p arbitrary: s)
  case (Cons c p)
  have "sint c = 0 \<longleftrightarrow> c = 0" by (metis signed_0 signed_word_eqI)
  with Cons show ?case by (cases s) auto
qed simp

lemma strchr_None: "cstr p s \<Longrightarrow> l \<noteq> 0 \<Longrightarrow> strchr p l = Some None \<longleftrightarrow> l \<notin> sint ` set s"
proof (induction p arbitrary: s)
  case (Cons c p)
  then show ?case by (cases s) auto
qed simp

lemma strchr_Some:
  "cstr p s \<Longrightarrow> l \<noteq> 0 \<Longrightarrow> strchr p l = Some (Some q) \<Longrightarrow>
   \<exists>i. first_at (\<lambda>c. sint c = l) s i \<and> q = drop i p"
proof (induction p arbitrary: s)
  case (Cons c p)
  show ?case
  proof (cases "c = 0")
    case True
    with Cons.prems show ?thesis by simp
  next
    case False
    obtain s' where s: "s = c # s'" "cstr p s'" by (rule cstr_nzE[OF Cons.prems(1) False])
    show ?thesis
      using Cons.IH[OF s(2) Cons.prems(2)] Cons.prems(3) False s
      by (auto simp: first_at_Cons split: if_splits)
  qed
qed simp

lemma strpbrk_inner_cstr: "cstr bb t \<Longrightarrow> strpbrk_inner c bb = Some (c \<in> set t)"
proof (induction bb arbitrary: t)
  case (Cons b bs)
  then show ?case by (cases t) auto
qed simp

lemma strpbrk_spec:
  "cstr p s \<Longrightarrow> cstr bb t \<Longrightarrow>
   strpbrk p bb = Some (if \<exists>c \<in> set s. c \<in> set t
      then Some (drop (length (takeWhile (\<lambda>c. c \<notin> set t) s)) p) else None)"
proof (induction p arbitrary: s)
  case (Cons c p)
  then show ?case by (cases s) (auto simp: strpbrk_inner_cstr)
qed simp

subsection \<open>strstr\<close>

text \<open>Length of the longest common prefix: how far the inner loop runs.\<close>

fun lcp :: "'a list \<Rightarrow> 'a list \<Rightarrow> nat" where
  "lcp (x # xs) (y # ys) = (if x = y then Suc (lcp xs ys) else 0)"
| "lcp _ _ = 0"

lemma lcp_le: "lcp xs ys \<le> length xs" "lcp xs ys \<le> length ys"
  by (induction xs ys rule: lcp.induct) auto

lemma lcp_take: "k \<le> lcp xs ys \<Longrightarrow> take k xs = take k ys"
proof (induction xs ys arbitrary: k rule: lcp.induct)
  case (1 x xs y ys)
  then show ?case by (cases k) (auto split: if_splits)
qed auto

lemma lcp_full: "lcp xs ys = length ys \<longleftrightarrow> take (length ys) xs = ys"
  by (induction xs ys rule: lcp.induct) auto

lemma strstr_inner_lcp:
  "cstr big s \<Longrightarrow> cstr ls t \<Longrightarrow>
   strstr_inner big ls =
     Some (drop (lcp s t) big, drop (lcp s t) ls, lcp s t = length t \<and> lcp s t < length s)"
proof (induction big arbitrary: s t ls)
  case (Cons b bs)
  obtain l ls' where ls: "ls = l # ls'" by (rule cstr_objE[OF Cons.prems(2)])
  show ?case
  proof (cases "b = 0")
    case True
    with Cons.prems show ?thesis by simp
  next
    case b: False
    obtain s' where s: "s = b # s'" "cstr bs s'" by (rule cstr_nzE[OF Cons.prems(1) b])
    show ?thesis
    proof (cases "l = 0")
      case True
      then show ?thesis using Cons.prems ls s b by simp
    next
      case l: False
      obtain t' where t: "t = l # t'" "cstr ls' t'"
        using Cons.prems(2) ls l by (metis cstr_nzE)
      then show ?thesis using Cons.IH[OF s(2) t(2)] ls s b l by simp
    qed
  qed
qed simp

lemma cstr_drop: "cstr p s \<Longrightarrow> k \<le> length s \<Longrightarrow> cstr (drop k p) (drop k s)"
  by (auto simp: cstr_def dest: in_set_dropD)

lemma cstr_drop_hd: "cstr p s \<Longrightarrow> k \<le> length s \<Longrightarrow> drop k p = c # cs \<Longrightarrow> c = 0 \<longleftrightarrow> k = length s"
  using cstr_drop[of p s k] by (cases "drop k s") (auto simp: cstr_def)

text \<open>One round of the outer loop.\<close>

lemma strstr_step:
  assumes "cstr (b # bs) s" "cstr little t" "b \<noteq> 0"
  shows "strstr (b # bs) little =
     (if t \<noteq> [] \<and> b = hd t then
        (if take (length t) s = t then Some (Some (b # bs))
         else strstr (drop (lcp s t) (b # bs)) little)
      else strstr bs little)"
proof -
  obtain l ls where little: "little = l # ls" by (rule cstr_objE[OF assms(2)])
  have l: "t \<noteq> [] \<and> b = hd t \<longleftrightarrow> b = l"
    using assms(2,3) little by (cases t) auto
  show ?thesis
  proof (cases "b = l")
    case False
    then show ?thesis using l assms(3) little by auto
  next
    case True
    let ?k = "lcp s t"
    have inner: "strstr_inner (b # bs) little =
        Some (drop ?k (b # bs), drop ?k little, ?k = length t \<and> ?k < length s)"
      by (rule strstr_inner_lcp[OF assms(1,2)])
    obtain c cs where c: "drop ?k (b # bs) = c # cs"
      by (rule cstr_objE[OF cstr_drop[OF assms(1) lcp_le(1)]])
    obtain x xs where x: "drop ?k little = x # xs"
      by (rule cstr_objE[OF cstr_drop[OF assms(2) lcp_le(2)]])
    note hd = cstr_drop_hd[OF assms(1) lcp_le(1) c] cstr_drop_hd[OF assms(2) lcp_le(2) x]
    show ?thesis
      using inner True little l assms(3) hd c x lcp_full[of s t] lcp_le[of s t]
      by (auto simp: strstr.simps(2)[of b bs little])
  qed
qed

definition occurs_at :: "'a list \<Rightarrow> 'a list \<Rightarrow> nat \<Rightarrow> bool" where
  "occurs_at s t i \<longleftrightarrow> i \<le> length s \<and> take (length t) (drop i s) = t"

lemma occurs_at_drop: "k \<le> length s \<Longrightarrow> occurs_at (drop k s) t i \<longleftrightarrow> occurs_at s t (k + i)"
  by (auto simp: occurs_at_def add.commute)

text \<open>Inside a partial match no later match can begin when the first character is not repeated.\<close>

lemma no_occurrence_in_partial:
  assumes "t \<noteq> []" "hd t \<notin> set (tl t)" "take (length t) s \<noteq> t" "j < lcp s t"
  shows "\<not> occurs_at s t j"
proof
  assume occ: "occurs_at s t j"
  then have "j \<noteq> 0" using assms(3) by (metis occurs_at_def drop0)
  have j: "j < length s" "j < length t" using assms(4) lcp_le[of s t] by auto
  then have "s ! j = t ! j"
    using lcp_take[of "Suc j" s t] assms(4) by (metis Suc_leI lessI nth_take)
  moreover have "s ! j = hd t"
    using occ assms(1) j by (auto simp: occurs_at_def hd_conv_nth) (metis add_0_right length_greater_0_conv less_imp_le_nat nth_drop nth_take)
  moreover have "t ! j \<in> set (tl t)"
    using \<open>j \<noteq> 0\<close> j(2) by (cases t; cases j) auto
  ultimately show False using assms(2) by simp
qed

text \<open>
  What a result of \<open>strstr\<close> is required to be: a pointer to an occurrence or null, and, for a
  needle whose first character does not come again in it, the first occurrence or null if there is
  none.
\<close>

definition nonrep :: "'a list \<Rightarrow> bool" where
  "nonrep t \<longleftrightarrow> t \<noteq> [] \<and> hd t \<notin> set (tl t)"

definition strstr_ok :: "byte list \<Rightarrow> byte list \<Rightarrow> byte list \<Rightarrow> byte list option option \<Rightarrow> bool" where
  "strstr_ok big s t r \<longleftrightarrow>
     (\<exists>i. r = Some (Some (drop i big)) \<and> occurs_at s t i \<and>
        (nonrep t \<longrightarrow> (\<forall>j < i. \<not> occurs_at s t j))) \<or>
     r = Some None \<and> (nonrep t \<longrightarrow> (\<forall>i. \<not> occurs_at s t i))"

lemma strstr_ok_skip:
  assumes "strstr_ok (drop k big) (drop k s) t r" "k \<le> length s"
    and none: "nonrep t \<longrightarrow> (\<forall>j < k. \<not> occurs_at s t j)"
  shows "strstr_ok big s t r"
proof -
  have shift: "occurs_at (drop k s) t i \<longleftrightarrow> occurs_at s t (k + i)" for i
    by (rule occurs_at_drop[OF assms(2)])
  consider i where "r = Some (Some (drop (k + i) big))" "occurs_at s t (k + i)"
      "nonrep t \<longrightarrow> (\<forall>j < i. \<not> occurs_at s t (k + j))"
    | "r = Some None" "nonrep t \<longrightarrow> (\<forall>i. \<not> occurs_at s t (k + i))"
    using assms(1) unfolding strstr_ok_def shift by (auto simp: add.commute)
  then show ?thesis
  proof cases
    case 1
    have "\<not> occurs_at s t j" if "nonrep t" "j < k + i" for j
      using 1(3) none that by (cases "j < k") (auto dest!: spec[of _ "j - k"])
    then show ?thesis using 1(1,2) unfolding strstr_ok_def by blast
  next
    case 2
    have "\<not> occurs_at s t j" if "nonrep t" for j
      using 2(2) none that by (cases "j < k") (auto dest!: spec[of _ "j - k"])
    then show ?thesis using 2(1) unfolding strstr_ok_def by blast
  qed
qed

lemma strstr_spec: "cstr big s \<Longrightarrow> cstr little t \<Longrightarrow> strstr_ok big s t (strstr big little)"
proof (induction big arbitrary: s rule: length_induct)
  case (1 big)
  obtain b bs where big: "big = b # bs" by (rule cstr_objE[OF "1.prems"(1)])
  show ?case
  proof (cases "b = 0")
    case True
    then show ?thesis using "1.prems" big by (auto simp: occurs_at_def strstr_ok_def nonrep_def)
  next
    case False
    obtain s' where s: "s = b # s'" using "1.prems"(1) False big by (metis cstr_nzE)
    note step = strstr_step[OF "1.prems"(1)[unfolded big] "1.prems"(2) False]
    have skip: ?thesis
      if "0 < k" "k \<le> length s" "strstr big little = strstr (drop k big) little"
        "nonrep t \<longrightarrow> (\<forall>j < k. \<not> occurs_at s t j)" for k
      using strstr_ok_skip[of k big s t] "1.IH" cstr_drop[OF "1.prems"(1) that(2)] "1.prems"(2) that big
      by simp
    consider (match) "t \<noteq> []" "b = hd t" "take (length t) s = t"
      | (part) "t \<noteq> []" "b = hd t" "take (length t) s \<noteq> t" | (other) "\<not> (t \<noteq> [] \<and> b = hd t)" by blast
    then show ?thesis
    proof cases
      case match
      then show ?thesis
        using step big unfolding strstr_ok_def
        by (intro disjI1 exI[of _ 0]) (auto simp: occurs_at_def)
    next
      case part
      then have "0 < lcp s t" using s by (cases t) auto
      then show ?thesis
        using skip[of "lcp s t"] step part big lcp_le no_occurrence_in_partial[of t s]
        by (auto simp: nonrep_def)
    next
      case other
      have "\<not> occurs_at s t 0" if "t \<noteq> []"
        using other that s by (cases t) (auto simp: occurs_at_def)
      then show ?thesis using skip[of 1] step other s big by (auto simp: nonrep_def)
    qed
  qed
qed

subsection \<open>Numbers\<close>

lemma skip_space_append:
  "\<forall>w \<in> set ws. isspace (sint w) \<Longrightarrow> \<not> isspace (sint c) \<Longrightarrow>
   skip_space (ws @ c # n) = Some (c # n)"
  by (induction ws) auto

text \<open>The value of a digit character, and of a digit string in base \<open>b\<close>.\<close>

definition digit_val :: "byte \<Rightarrow> int" where
  "digit_val ch = (let c = tolower (sint ch) in if isalpha c then c - 97 + 10 else c - 48)"

definition digits_val :: "int \<Rightarrow> byte list \<Rightarrow> int" where
  "digits_val b ds = foldl (\<lambda>a d. a * b + digit_val d) 0 ds"

lemma digits_val_snoc: "digits_val b (ds @ [d]) = digits_val b ds * b + digit_val d"
  by (simp add: digits_val_def)

lemma strtol_digits_foldl:
  "\<forall>d \<in> set ds. m (sint d) \<Longrightarrow> \<not> m (sint c) \<Longrightarrow>
   strtol_digits m (word_of_int b) (ds @ c # rest) (word_of_int tot) =
     Some (word_of_int (foldl (\<lambda>a d. a * b + digit_val d) tot ds), c # rest)"
proof (induction ds arbitrary: tot)
  case (Cons d ds)
  have "strtol_digits m (word_of_int b) (d # xs) t =
      strtol_digits m (word_of_int b) xs (t * word_of_int b + word_of_int (digit_val d))" for xs t
    using Cons.prems by (simp add: digit_val_def Let_def)
  then show ?case
    using Cons.IH[of "tot * b + digit_val d"] Cons.prems by (simp del: strtol_digits.simps)
qed simp

lemma strtol_digits_val:
  "\<forall>d \<in> set ds. m (sint d) \<Longrightarrow> \<not> m (sint c) \<Longrightarrow>
   strtol_digits m (word_of_int b) (ds @ c # rest) 0 =
     Some (word_of_int (digits_val b ds), c # rest)"
  using strtol_digits_foldl[of ds m c b rest 0] by (simp add: digits_val_def)

lemma strtoull_no_result: "strtoull n base \<noteq> Some r"
proof
  assume "strtoull n base = Some r"
  then show False
    by (rule strtoull.raw_induct[where P = "\<lambda>n b r. False", rotated]) blast
qed

text \<open>After blanks and a sign the digits begin; no blank or sign is a digit.\<close>

lemma strtol_prefix:
  assumes "\<forall>w \<in> set ws. isspace (sint w)" "sg = [] \<or> sg = [43] \<or> sg = [45]"
    and "isxdigit (sint d)"
  shows "Option.bind (skip_space (ws @ sg @ d # n)) strtol_sign =
     Some (if sg = [45] then -1 else 1, d # n)"
proof -
  have d: "\<not> isspace (sint d)" "d \<noteq> 43" "d \<noteq> 45"
    using assms(3) by (auto simp: isxdigit_eq isspace_def isdigit_def)
  have "\<not> isspace (sint (43 :: byte))" "\<not> isspace (sint (45 :: byte))" by (auto simp: isspace_def)
  then show ?thesis
    using assms(2) d skip_space_append[OF assms(1)] by (auto simp: strtol_sign_def)
qed

lemma strtol_num:
  assumes base: "b = 10 \<and> m = isdigit \<or> b = 16 \<and> m = isxdigit \<and> c \<noteq> 120"
    and ws: "\<forall>w \<in> set ws. isspace (sint w)" and sg: "sg = [] \<or> sg = [43] \<or> sg = [45]"
    and ds: "ds \<noteq> []" "\<forall>d \<in> set ds. m (sint d)" and c: "\<not> m (sint c)" "0 \<in> set (c # rest)"
  shows "strtol (ws @ sg @ ds @ c # rest) b =
     Some (word_of_int ((if sg = [45] then -1 else 1) * digits_val b ds), Some (c # rest), None)"
proof -
  obtain d ds' where d: "ds = d # ds'" using ds(1) by (cases ds) auto
  have "isxdigit (sint d)" using base ds(2) d by (auto simp: isxdigit_def)
  note pre = strtol_prefix[OF ws sg this, of "ds' @ c # rest"]
  let ?n = "d # ds' @ c # rest"
  obtain r where r: "strcmp ?n (lit ''0x'') = Some r"
    using strcmp_Some[of ?n "lit ''0x''"] c(2) by (auto simp: lit_def)
  have "r \<noteq> 0" if "b = 16"
  proof
    assume "r = 0"
    have "strlen ?n \<noteq> None" using c(2) strlen_None[of ?n] by auto
    then obtain s where s: "cstr ?n s" using strlen_Some[of ?n] by blast
    moreover have "cstr (lit ''0x'') [48, 120]" by (simp add: lit_def bytes_of_def)
    ultimately have "s = [48, 120]" using strcmp_eq_zero r \<open>r = 0\<close> by blast
    with s have "d = 48" "hd (ds' @ c # rest) = 120" by (cases "ds' @ c # rest"; simp)+
    moreover have "\<not> isxdigit (sint (120 :: byte))" by (simp add: isxdigit_eq isdigit_def)
    ultimately show False using base ds(2) d that by (cases ds') auto
  qed
  note r16 = this
  have run: "strtol_digits m (word_of_int b) ?n 0 = Some (word_of_int (digits_val b ds), c # rest)"
    using strtol_digits_val[of ds m c b rest] ds(2) c(1) d by simp
  have sgn: "word_of_int (digits_val b ds) * (if sg = [45] then - 1 else 1) =
      (word_of_int ((if sg = [45] then - 1 else 1) * digits_val b ds) :: long)" by simp
  have str: "ws @ sg @ ds @ c # rest = ws @ sg @ ?n" by (simp add: d)
  from base show ?thesis
  proof (elim disjE conjE)
    assume "b = 10" "m = isdigit"
    then show ?thesis unfolding strtol_def str pre using run r sgn by simp
  next
    assume "b = 16" "m = isxdigit"
    then show ?thesis unfolding strtol_def str pre using run r sgn r16 by simp
  qed
qed

section \<open>Properties\<close>

text \<open>
  \<open>strlen\<close> returns the length of every terminated string, and reads past the object exactly
  when the object holds no terminator.
\<close>

theorem strlen_correct:
  "(strlen p = Some n \<longleftrightarrow> (\<exists>s. cstr p s \<and> length s = n)) \<and> (strlen p = None \<longleftrightarrow> 0 \<notin> set p)"
proof -
  have "\<exists>s. cstr p s \<and> length s = n" if "strlen p = Some n"
    using strlen_Some[OF that] by (intro exI[of _ "take n p"]) simp
  then show ?thesis using strlen_cstr[of p] strlen_None[of p] by blast
qed

text \<open>
  on terminated strings \<open>strcmp\<close> always returns; the result is zero exactly for equal strings,
  negative exactly when the first string has the smaller character, read as a signed \<open>char\<close>, at the
  first difference, and exchanging the arguments negates it.
\<close>

theorem strcmp_correct:
  assumes "cstr p s" "cstr q t"
  shows "\<exists>r. strcmp p q = Some r \<and> (r = 0 \<longleftrightarrow> s = t) \<and> (r < 0 \<longleftrightarrow> str_below s t) \<and>
     (0 < r \<longleftrightarrow> str_below t s) \<and> strcmp q p = Some (- r)"
proof -
  obtain r where r: "strcmp p q = Some r" "strcmp q p = Some (- r)"
    using strcmp_Some[of p q] strcmp_antisym[of q p] cstr_zero[OF assms(1)] cstr_zero[OF assms(2)]
    by auto
  then show ?thesis
    using strcmp_eq_zero[OF assms] strcmp_less[OF assms r(1)] strcmp_less[OF assms(2,1) r(2)] by auto
qed

theorem strcmp_correct_witness:
  "\<exists>r. strcmp (lit ''ab'') (lit ''ac'') = Some r \<and> (r = 0 \<longleftrightarrow> bytes_of ''ab'' = bytes_of ''ac'') \<and>
     (r < 0 \<longleftrightarrow> str_below (bytes_of ''ab'') (bytes_of ''ac'')) \<and>
     (0 < r \<longleftrightarrow> str_below (bytes_of ''ac'') (bytes_of ''ab'')) \<and>
     strcmp (lit ''ac'') (lit ''ab'') = Some (- r)"
  by (rule strcmp_correct) (auto simp: lit_def bytes_of_def cstr_def)

text \<open>
  \<open>strncasecmp\<close> returns zero exactly when the first \<open>n\<close> characters agree up to the case of
  ASCII letters.
\<close>

theorem strncasecmp_correct:
  assumes "cstr p s" "cstr q t"
  shows "\<exists>r. strncasecmp p q n = Some r \<and>
    (r = 0 \<longleftrightarrow> take n (map (\<lambda>c. tolower (sint c)) s) = take n (map (\<lambda>c. tolower (sint c)) t))"
  using strncasecmp_zero[OF assms] .

theorem strncasecmp_correct_witness:
  "\<exists>r. strncasecmp (lit ''aBx'') (lit ''AbY'') 2 = Some r \<and>
    (r = 0 \<longleftrightarrow> take 2 (map (\<lambda>c. tolower (sint c)) (bytes_of ''aBx'')) =
       take 2 (map (\<lambda>c. tolower (sint c)) (bytes_of ''AbY'')))"
  by (rule strncasecmp_correct) (auto simp: lit_def bytes_of_def cstr_def)

text \<open>
  \<open>strchr\<close> returns a pointer to the first occurrence of the character, null when it does not
  occur, and a pointer to the terminator when asked for it.
\<close>

theorem strchr_correct:
  assumes "cstr p s"
  shows "strchr p 0 = Some (Some (drop (length s) p)) \<and>
    (l \<noteq> 0 \<longrightarrow> (strchr p l = Some None \<and> l \<notin> sint ` set s) \<or>
       (\<exists>i. strchr p l = Some (Some (drop i p)) \<and> first_at (\<lambda>c. sint c = l) s i))"
proof -
  have "strchr p l \<noteq> None"
    using cstr_zero[OF assms] by (induction p) auto
  then show ?thesis
    using strchr_nul[OF assms] strchr_None[OF assms, of l] strchr_Some[OF assms, of l]
    by (metis option.exhaust)
qed

theorem strchr_correct_witness:
  "strchr (lit ''a.b'') 0 = Some (Some (drop (length (bytes_of ''a.b'')) (lit ''a.b''))) \<and>
    ((strchr (lit ''a.b'') 46 = Some None \<and> 46 \<notin> sint ` set (bytes_of ''a.b'')) \<or>
       (\<exists>i. strchr (lit ''a.b'') 46 = Some (Some (drop i (lit ''a.b''))) \<and>
          first_at (\<lambda>c. sint c = 46) (bytes_of ''a.b'') i))"
proof -
  have "cstr (lit ''a.b'') (bytes_of ''a.b'')" by (auto simp: lit_def bytes_of_def cstr_def)
  from strchr_correct[OF this, of 46] show ?thesis by (simp only: simp_thms zero_neq_numeral[symmetric]) 
qed

text \<open>
  \<open>strstr\<close> always returns on terminated strings and never returns a pointer to anything but an
  occurrence; when the first character of the needle does not come again in the needle, it returns
  the first occurrence, and null only if there is none.
\<close>

theorem strstr_correct:
  assumes "cstr big s" "cstr little t"
  shows "strstr_ok big s t (strstr big little)"
  by (rule strstr_spec[OF assms])

theorem strstr_correct_witness:
  "strstr_ok (lit ''xab'') (bytes_of ''xab'') (bytes_of ''ab'') (strstr (lit ''xab'') (lit ''ab''))"
  by (rule strstr_correct) (auto simp: lit_def bytes_of_def cstr_def)

text \<open>
  without that condition \<open>strstr\<close> misses occurrences, because it goes on after a partial match
  from the mismatch and not from the next character: it does not find \<open>aab\<close> in \<open>aaab\<close>, and it
  never finds the empty string.
\<close>

theorem strstr_incomplete:
  "strstr (lit ''aaab'') (lit ''aab'') = Some None \<and>
   occurs_at (bytes_of ''aaab'') (bytes_of ''aab'') 1 \<and>
   strstr (lit ''a'') [0] = Some None"
  by (simp add: lit_def bytes_of_def occurs_at_def)

text \<open>
  \<open>strtol\<close> in base 10: after blanks and an optional sign it converts the longest run of digits,
  reduced to 64 bits, leaves \<open>endptr\<close> at the first other character and does not touch \<open>errno\<close>.
\<close>

theorem strtol_decimal:
  assumes "\<forall>w \<in> set ws. isspace (sint w)" "sg = [] \<or> sg = [43] \<or> sg = [45]"
    and "ds \<noteq> []" "\<forall>d \<in> set ds. isdigit (sint d)" "\<not> isdigit (sint c)" "0 \<in> set (c # rest)"
  shows "strtol (ws @ sg @ ds @ c # rest) 10 =
     Some (word_of_int ((if sg = [45] then -1 else 1) * digits_val 10 ds), Some (c # rest), None)"
  using strtol_num[of 10 isdigit c ws sg ds rest] assms by simp

theorem strtol_decimal_witness:
  "strtol ([32] @ [45] @ bytes_of ''42'' @ 0 # []) 10 =
     Some (word_of_int ((if [45 :: byte] = [45] then -1 else 1) * digits_val 10 (bytes_of ''42'')),
       Some [0], None)"
  by (rule strtol_decimal) (auto simp: isspace_def isdigit_def bytes_of_def)

text \<open>
  a hexadecimal prefix is recognised only when nothing follows it (the test is
  \<open>strcmp(n, "0x") == 0\<close>): for every longer string that begins with \<open>0x\<close>, both base 16 and base 0
  return 0 with \<open>endptr\<close> left at the \<open>x\<close>.
\<close>

theorem strtol_hex_prefix:
  assumes "h \<noteq> 0" "0 \<in> set rest"
  shows "strtol (48 # 120 # h # rest) 16 = Some (0, Some (120 # h # rest), None) \<and>
     strtol (48 # 120 # h # rest) 0 = Some (0, Some (120 # h # rest), None)"
proof -
  have "strcmp (48 # 120 # h # rest) (lit ''0x'') = Some (sint h)"
    using assms by (simp add: lit_def bytes_of_def)
  moreover have "sint h \<noteq> 0" using assms(1) by (metis signed_0 signed_word_eqI)
  ultimately show ?thesis
    by (simp add: strtol_def isspace_def strtol_sign_def isxdigit_eq isdigit_def s_isoct_def
        tolower_eq isupper_def isalpha_def islower_def)
qed

theorem strtol_hex_prefix_witness:
  "strtol (lit ''0x1f'') 16 = Some (0, Some (lit ''x1f''), None) \<and>
   strtol (lit ''0x1f'') 0 = Some (0, Some (lit ''x1f''), None)"
  using strtol_hex_prefix[of 49 "[102, 0]"] by (simp add: lit_def bytes_of_def)

text \<open>
  \<open>strtoull\<close> never returns: it calls itself with the arguments it was given.
\<close>

theorem strtoull_diverges: "strtoull n base = None"
  using strtoull_no_result[of n base] by (cases "strtoull n base") auto

end
