(* ===== verification/Litc_Printf.thy ===== *)
theory Litc_Printf
  imports Complex_Main "HOL-Library.Monad_Syntax" Litc_Str
begin

unbundle bit_operations_syntax

text \<open>
  The formatter of \<open>litc.c\<close>: \<open>wc\<close>, \<open>numtoch\<close>, \<open>putn\<close>, \<open>_vprintf\<close>, \<open>vsnprintf\<close> and \<open>snprintf\<close>.

  \<open>_vprintf\<close> changes its output only by \<open>dst += wc(dst, end, c)\<close> and
  \<open>dst += putn(dst, end, n, base)\<close> and looks at it only in \<open>dst < end\<close>. The format interpreter is
  therefore written over these three operations (a \<open>sink\<close>): \<open>buf_sink\<close> is the code's bounded buffer,
  and \<open>list_sink\<close>, which keeps everything, is the reference the buffer is compared with.

  A \<open>va_list\<close> is the list of the arguments still to be read; fetching an argument of another type
  is \<open>None\<close>. A \<open>double\<close> is a rational, an infinity or not-a-number, and the rounding of a product
  is the parameter \<open>rnd\<close>.
\<close>

section \<open>Characters and numbers\<close>

definition wc :: "nat \<Rightarrow> nat \<Rightarrow> byte \<Rightarrow> mem \<Rightarrow> (nat \<times> mem) option" where
  "wc p end c m =
     (if p < end then (if p < length m then Some (1, m[p := c]) else None) else Some (0, m))"

definition numtoch :: "byte \<Rightarrow> byte" where
  "numtoch n = (if n <s 10 then n + 48 else n + (97 - 10))"

text \<open>
  The digits \<open>putn\<close> stores in \<open>buf[21]\<close>, least significant first; \<open>None\<close> for a base with which the
  loop divides by zero or does not end, and when the buffer overflows.
\<close>

function putn_buf :: "long \<Rightarrow> long \<Rightarrow> nat \<Rightarrow> byte list option" where
  "putn_buf n base i =
     (if n = 0 then Some []
      else if base \<le> 1 \<or> 21 \<le> i then None
      else map_option (\<lambda>ds. numtoch (ucast (n mod base)) # ds) (putn_buf (n div base) base (Suc i)))"
  by pat_completeness auto
termination
  by (relation "measure (\<lambda>(n, base, i). 21 - i)") auto

declare putn_buf.simps [simp del]

text \<open>\<open>while (i--) p += wc(p, end, buf[i]);\<close>: the digits from the most significant one.\<close>

fun putn_out :: "nat \<Rightarrow> nat \<Rightarrow> byte list \<Rightarrow> mem \<Rightarrow> mem option" where
  "putn_out p end [] m = Some m"
| "putn_out p end (c # cs) m =
     (case wc p end c m of None \<Rightarrow> None | Some (k, m') \<Rightarrow> putn_out (p + k) end cs m')"

definition putn :: "nat \<Rightarrow> nat \<Rightarrow> long \<Rightarrow> long \<Rightarrow> mem \<Rightarrow> (nat \<times> mem) option" where
  "putn p end n base m =
     (if n = 0 then map_option (\<lambda>(_, m'). (1, m')) (wc p end 48 m)
      else (case putn_buf n base 0 of
              None \<Rightarrow> None
            | Some buf \<Rightarrow> map_option (\<lambda>m'. (length buf, m')) (putn_out p end (rev buf) m)))"

section \<open>The format interpreter\<close>

datatype cdouble = NaN | Inf | Fin rat

datatype varg = VInt cint | VLong long | VDouble cdouble | VStr "byte list option"

record 'o sink =
  sk_wc :: "byte \<Rightarrow> 'o \<Rightarrow> 'o option"
  sk_putn :: "long \<Rightarrow> long \<Rightarrow> 'o \<Rightarrow> 'o option"
  sk_room :: "'o \<Rightarrow> bool"

record pflags =
  prehex :: bool
  longmode :: bool
  sig :: bool
  precmode :: bool
  prec :: int

definition init_flags :: pflags where
  "init_flags = \<lparr>prehex = False, longmode = False, sig = True, precmode = False, prec = 6\<rparr>"

fun put_chars :: "'o sink \<Rightarrow> byte list \<Rightarrow> 'o \<Rightarrow> 'o option" where
  "put_chars K [] o1 = Some o1"
| "put_chars K (c # cs) o1 =
     (case sk_wc K c o1 of None \<Rightarrow> None | Some o2 \<Rightarrow> put_chars K cs o2)"

text \<open>\<open>case 'u'\<close> (with \<open>sig = 0\<close>) and \<open>case 'd'\<close>.\<close>

definition put_d :: "'o sink \<Rightarrow> pflags \<Rightarrow> varg list \<Rightarrow> 'o \<Rightarrow> (varg list \<times> 'o) option" where
  "put_d K fl ap o1 =
     (case (longmode fl, ap) of
        (True, VLong n # ap') \<Rightarrow> Some (n, ap')
      | (False, VInt n # ap') \<Rightarrow> Some (scast n, ap')
      | _ \<Rightarrow> None) \<bind>
     (\<lambda>(n, ap').
        (if sig fl \<and> n <s 0 then map_option (Pair (- n)) (sk_wc K 45 o1) else Some (n, o1)) \<bind>
        (\<lambda>(n', o2). map_option (Pair ap') (sk_putn K n' 10 o2)))"

text \<open>The digits after the point: \<open>for (; prec > 0; prec--) { n *= 10; putn; n -= (ulong)n; }\<close>.\<close>

fun put_frac :: "'o sink \<Rightarrow> (rat \<Rightarrow> rat) \<Rightarrow> nat \<Rightarrow> rat \<Rightarrow> 'o \<Rightarrow> 'o option" where
  "put_frac K rnd 0 n o1 = Some o1"
| "put_frac K rnd (Suc k) n o1 =
     (let n' = rnd (n * 10) in
      if n' < 0 \<or> 2 ^ 64 \<le> n' then None
      else (case sk_putn K (word_of_int \<lfloor>n'\<rfloor>) 10 o1 of
              None \<Rightarrow> None
            | Some o2 \<Rightarrow> put_frac K rnd k (n' - of_int \<lfloor>n'\<rfloor>) o2))"

definition put_f :: "'o sink \<Rightarrow> (rat \<Rightarrow> rat) \<Rightarrow> pflags \<Rightarrow> varg list \<Rightarrow> 'o \<Rightarrow> (varg list \<times> 'o) option"
where
  "put_f K rnd fl ap o1 =
     (case ap of
        VDouble NaN # ap' \<Rightarrow> map_option (Pair ap') (put_chars K [110, 97, 110] o1)
      | VDouble Inf # ap' \<Rightarrow> map_option (Pair ap') (put_chars K [105, 110, 102] o1)
      | VDouble (Fin q) # ap' \<Rightarrow>
          (if q < 0 then map_option (Pair (- q)) (sk_wc K 45 o1) else Some (q, o1)) \<bind>
          (\<lambda>(n, o2).
             if 2 ^ 64 \<le> n then None
             else sk_putn K (word_of_int \<lfloor>n\<rfloor>) 10 o2 \<bind>
               (\<lambda>o3. if prec fl = 0 then Some (ap', o3)
                  else sk_wc K 46 o3 \<bind>
                    (\<lambda>o4. map_option (Pair ap')
                       (put_frac K rnd (nat (prec fl)) (n - of_int \<lfloor>n\<rfloor>) o4))))
      | _ \<Rightarrow> None)"

text \<open>\<open>case 'p'\<close> (with \<open>longmode = prehex = 1\<close>) and \<open>case 'x'\<close>.\<close>

definition put_x :: "'o sink \<Rightarrow> pflags \<Rightarrow> varg list \<Rightarrow> 'o \<Rightarrow> (varg list \<times> 'o) option" where
  "put_x K fl ap o1 =
     (if prehex fl then put_chars K [48, 120] o1 else Some o1) \<bind>
     (\<lambda>o2.
        (case (longmode fl, ap) of
           (True, VLong n # ap') \<Rightarrow> Some (n, ap')
         | (False, VInt n # ap') \<Rightarrow> Some (ucast n, ap')
         | _ \<Rightarrow> None) \<bind>
        (\<lambda>(n, ap'). map_option (Pair ap') (sk_putn K n 16 o2)))"

definition put_c :: "'o sink \<Rightarrow> varg list \<Rightarrow> 'o \<Rightarrow> (varg list \<times> 'o) option" where
  "put_c K ap o1 =
     (case ap of VInt c # ap' \<Rightarrow> map_option (Pair ap') (sk_wc K (ucast c) o1) | _ \<Rightarrow> None)"

text \<open>\<open>while (*s && (!precmode || prec-- > 0)) dst += wc(dst, end, *s++);\<close>\<close>

fun put_s_loop :: "'o sink \<Rightarrow> bool \<Rightarrow> int \<Rightarrow> byte list \<Rightarrow> 'o \<Rightarrow> 'o option" where
  "put_s_loop K pm pr [] o1 = None"
| "put_s_loop K pm pr (c # s) o1 =
     (if c \<noteq> 0 \<and> (\<not> pm \<or> pr > 0) then
        (case sk_wc K c o1 of None \<Rightarrow> None | Some o2 \<Rightarrow> put_s_loop K pm (pr - 1) s o2)
      else Some o1)"

definition put_s :: "'o sink \<Rightarrow> pflags \<Rightarrow> varg list \<Rightarrow> 'o \<Rightarrow> (varg list \<times> 'o) option" where
  "put_s K fl ap o1 =
     (case ap of
        VStr None # ap' \<Rightarrow> map_option (Pair ap') (put_chars K [40, 110, 105, 108, 41] o1)
      | VStr (Some s) # ap' \<Rightarrow> map_option (Pair ap') (put_s_loop K (precmode fl) (prec fl) s o1)
      | _ \<Rightarrow> None)"

text \<open>
  The conversions that end a directive (\<open>done = 1\<close>); the outer \<open>None\<close> means that \<open>t\<close> is not one.
\<close>

definition put_conv ::
  "'o sink \<Rightarrow> (rat \<Rightarrow> rat) \<Rightarrow> pflags \<Rightarrow> byte \<Rightarrow> varg list \<Rightarrow> 'o \<Rightarrow> (varg list \<times> 'o) option option"
where
  "put_conv K rnd fl t ap o1 =
     (if t = 37 then Some (map_option (Pair ap) (sk_wc K 37 o1))
      else if t = 117 then Some (put_d K (fl\<lparr>sig := False\<rparr>) ap o1)
      else if t = 100 then Some (put_d K fl ap o1)
      else if t = 103 \<or> t = 102 then Some (put_f K rnd fl ap o1)
      else if t = 112 then Some (put_x K (fl\<lparr>longmode := True, prehex := True\<rparr>) ap o1)
      else if t = 120 then Some (put_x K fl ap o1)
      else if t = 99 then Some (put_c K ap o1)
      else if t = 115 then Some (put_s K fl ap o1)
      else None)"

text \<open>A precision is read with \<open>strtol(fmt - 1, &nend, 10)\<close>; it is taken if positive or if it begins with 0.\<close>

definition read_prec :: "pflags \<Rightarrow> byte list \<Rightarrow> (int \<times> byte list) option option" where
  "read_prec fl fmt =
     (case fmt of
        t # _ \<Rightarrow>
          if isdigit (sint t) \<and> precmode fl then
            (case strtol fmt 10 of
               Some (newprec, Some nend, _) \<Rightarrow>
                 if 0 <s newprec \<or> t = 48 then Some (Some (sint (ucast newprec :: cint), nend))
                 else Some None
             | _ \<Rightarrow> None)
          else Some None
      | [] \<Rightarrow> None)"

lemma strtol_digits_length:
  "strtol_digits m b n tot = Some (v, e) \<Longrightarrow> length e \<le> length n"
  by (induction m b n tot rule: strtol_digits.induct) (auto simp: Let_def split: if_splits)

lemma strtol10_shorter:
  assumes "isdigit (sint t)" "strtol (t # n) 10 = Some (v, Some e, er)"
  shows "length e < length (t # n)"
proof -
  have "isxdigit (sint t)" using assms(1) by (simp add: isxdigit_eq)
  from strtol_prefix[of "[]" "[]", OF _ _ this, of n]
  have pre: "Option.bind (skip_space (t # n)) strtol_sign = Some (1, t # n)" by simp
  obtain v' where "strtol_digits isdigit 10 (t # n) 0 = Some (v', e)"
    using assms(2) unfolding strtol_def pre by (auto split: option.splits)
  then show ?thesis using assms(1) by (auto simp: Let_def dest: strtol_digits_length)
qed

lemma read_prec_shorter: "read_prec fl fmt = Some (Some (p, nend)) \<Longrightarrow> length nend < length fmt"
  by (auto simp: read_prec_def dest!: strtol10_shorter split: list.splits if_splits option.splits)

text \<open>The inner loop: from after the \<open>%\<close> until the directive is done, a blank or the end.\<close>

function conv_loop ::
  "'o sink \<Rightarrow> (rat \<Rightarrow> rat) \<Rightarrow> pflags \<Rightarrow> byte list \<Rightarrow> varg list \<Rightarrow> 'o \<Rightarrow>
   (byte list \<times> varg list \<times> 'o) option"
where
  "conv_loop K rnd fl [] ap o1 = None"
| "conv_loop K rnd fl (t # fmt) ap o1 =
     (if t = 0 \<or> isspace (sint t) then Some (t # fmt, ap, o1)
      else (case read_prec fl (t # fmt) of
              None \<Rightarrow> None
            | Some (Some (p, nend)) \<Rightarrow> conv_loop K rnd (fl\<lparr>prec := p\<rparr>) nend ap o1
            | Some None \<Rightarrow>
                (case put_conv K rnd fl t ap o1 of
                   Some None \<Rightarrow> None
                 | Some (Some (ap', o2)) \<Rightarrow> Some (fmt, ap', o2)
                 | None \<Rightarrow>
                     if t = 35 then conv_loop K rnd (fl\<lparr>prehex := True\<rparr>) fmt ap o1
                     else if t = 46 then conv_loop K rnd (fl\<lparr>precmode := True\<rparr>) fmt ap o1
                     else if t = 122 \<or> t = 108 then
                       conv_loop K rnd (fl\<lparr>longmode := True\<rparr>) fmt ap o1
                     else (case sk_wc K 63 o1 of
                             None \<Rightarrow> None
                           | Some o2 \<Rightarrow> conv_loop K rnd fl fmt ap o2))))"
  by pat_completeness auto
termination
  by (relation "measure (\<lambda>(K, rnd, fl, fmt, ap, o1). length fmt)")
    (auto dest: read_prec_shorter)

lemma conv_loop_length:
  "conv_loop K rnd fl fmt ap o1 = Some (fmt', ap', o2) \<Longrightarrow> length fmt' \<le> length fmt"
proof (induction "length fmt" arbitrary: fmt fl o1 rule: less_induct)
  case less
  have IH: "length fmt' \<le> length g" if "conv_loop K rnd f g ap oo = Some (fmt', ap', o2)"
    "length g < length fmt" for f g oo
    using less.hyps[OF that(2,1)] .
  show ?case
  proof (cases fmt)
    case (Cons t r)
    then have IH': "length fmt' \<le> length r" if "conv_loop K rnd f r ap oo = Some (fmt', ap', o2)"
      for f oo using IH[OF that] by simp
    have IHp: "length fmt' \<le> length r" if "conv_loop K rnd f g ap oo = Some (fmt', ap', o2)"
      "read_prec fl (t # r) = Some (Some (p, g))" for f g p oo
      using IH[OF that(1)] read_prec_shorter[OF that(2)] Cons by simp
    show ?thesis
      using less.prems unfolding Cons
      by (auto split: if_splits option.splits dest!: IH' dest: IHp intro: le_SucI)
  qed (use less.prems in simp)
qed

text \<open>The outer loop.\<close>

function vprintf_loop ::
  "'o sink \<Rightarrow> (rat \<Rightarrow> rat) \<Rightarrow> byte list \<Rightarrow> varg list \<Rightarrow> 'o \<Rightarrow> 'o option"
where
  "vprintf_loop K rnd [] ap o1 = None"
| "vprintf_loop K rnd (c # fmt) ap o1 =
     (if c = 0 \<or> \<not> sk_room K o1 then Some o1
      else if c \<noteq> 37 then
        (case sk_wc K c o1 of None \<Rightarrow> None | Some o2 \<Rightarrow> vprintf_loop K rnd fmt ap o2)
      else (case conv_loop K rnd init_flags fmt ap o1 of
              None \<Rightarrow> None
            | Some (fmt', ap', o2) \<Rightarrow> vprintf_loop K rnd fmt' ap' o2))"
  by pat_completeness auto
termination
  by (relation "measure (\<lambda>(K, rnd, fmt, ap, o1). length fmt)") (auto dest!: conv_loop_length)

section \<open>The bounded buffer, vsnprintf and its callers\<close>

text \<open>The state of the output is the pointer \<open>dst\<close> and the memory.\<close>

definition buf_sink :: "nat \<Rightarrow> (nat \<times> mem) sink" where
  "buf_sink end =
     \<lparr>sk_wc = (\<lambda>c (dst, m). map_option (\<lambda>(k, m'). (dst + k, m')) (wc dst end c m)),
      sk_putn = (\<lambda>n base (dst, m). map_option (\<lambda>(k, m'). (dst + k, m')) (putn dst end n base m)),
      sk_room = (\<lambda>(dst, m). dst < end)\<rparr>"

definition s_vprintf ::
  "(rat \<Rightarrow> rat) \<Rightarrow> byte list \<Rightarrow> varg list \<Rightarrow> nat \<Rightarrow> nat \<Rightarrow> mem \<Rightarrow> (nat \<times> mem) option"
where
  "s_vprintf rnd fmt ap dst end m =
     (case vprintf_loop (buf_sink end) rnd fmt ap (dst, m) of
        None \<Rightarrow> None
      | Some (d, m') \<Rightarrow>
          (let d' = (if d > end then end - 1 else d) in
           if d' < length m' then Some (d' - dst, m'[d' := 0]) else None))"

definition vsnprintf ::
  "(rat \<Rightarrow> rat) \<Rightarrow> nat \<Rightarrow> nat \<Rightarrow> byte list \<Rightarrow> varg list \<Rightarrow> mem \<Rightarrow> (nat \<times> mem) option"
where
  "vsnprintf rnd dst sz fmt ap m = s_vprintf rnd fmt ap dst (dst + sz) m"

definition snprintf ::
  "(rat \<Rightarrow> rat) \<Rightarrow> nat \<Rightarrow> nat \<Rightarrow> byte list \<Rightarrow> varg list \<Rightarrow> mem \<Rightarrow> (nat \<times> mem) option"
where
  "snprintf rnd dst sz fmt ap m = vsnprintf rnd dst sz fmt ap m"

text \<open>\<open>sprintf\<close> passes \<open>(uintptr_t)-1 - (uintptr_t)dst\<close> as the size: everything up to the last address.\<close>

definition sprintf ::
  "(rat \<Rightarrow> rat) \<Rightarrow> nat \<Rightarrow> byte list \<Rightarrow> varg list \<Rightarrow> mem \<Rightarrow> (nat \<times> mem) option"
where
  "sprintf rnd dst fmt ap m = vsnprintf rnd dst (unat (- 1 - word_of_nat dst :: long)) fmt ap m"

text \<open>\<open>strncpy\<close> of \<open>litc.c\<close> is a call of \<open>snprintf\<close> with the format \<open>%s\<close>.\<close>

definition strncpy :: "nat \<Rightarrow> byte list \<Rightarrow> nat \<Rightarrow> mem \<Rightarrow> (nat \<times> mem) option" where
  "strncpy dst src sz m =
     map_option (\<lambda>(_, m'). (dst, m')) (snprintf id dst sz (lit ''%s'') [VStr (Some src)] m)"

section \<open>The reference output\<close>

definition num_bytes :: "long \<Rightarrow> long \<Rightarrow> byte list option" where
  "num_bytes n base = (if n = 0 then Some [48] else map_option rev (putn_buf n base 0))"

definition list_sink :: "byte list sink" where
  "list_sink =
     \<lparr>sk_wc = (\<lambda>c out. Some (out @ [c])),
      sk_putn = (\<lambda>n base out. map_option (\<lambda>ds. out @ ds) (num_bytes n base)),
      sk_room = (\<lambda>_. True)\<rparr>"

text \<open>What a format and its arguments denote: all the bytes that the directives produce.\<close>

definition format_ref :: "(rat \<Rightarrow> rat) \<Rightarrow> byte list \<Rightarrow> varg list \<Rightarrow> byte list option" where
  "format_ref rnd fmt ap = vprintf_loop list_sink rnd fmt ap []"

section \<open>Refinement of sinks\<close>

text \<open>If the first computation returns, so does the second, with a related result.\<close>

definition refines :: "('a \<Rightarrow> 'b \<Rightarrow> bool) \<Rightarrow> 'a option \<Rightarrow> 'b option \<Rightarrow> bool" where
  "refines R a b \<longleftrightarrow> (\<forall>x. a = Some x \<longrightarrow> (\<exists>y. b = Some y \<and> R x y))"

lemma refines_None [simp]: "refines R None b"
  by (simp add: refines_def)

lemma refines_Some [simp]: "refines R (Some x) (Some y) \<longleftrightarrow> R x y"
  by (simp add: refines_def)

lemma refines_bind:
  "refines S a b \<Longrightarrow> (\<And>x y. S x y \<Longrightarrow> refines R (f x) (g y)) \<Longrightarrow>
   refines R (Option.bind a f) (Option.bind b g)"
  by (cases a) (auto simp: refines_def)

lemma refines_map:
  "refines S a b \<Longrightarrow> (\<And>x y. S x y \<Longrightarrow> R (f x) (g y)) \<Longrightarrow>
   refines R (map_option f a) (map_option g b)"
  by (cases a) (auto simp: refines_def)

lemma refines_case:
  "refines S a b \<Longrightarrow> (\<And>x y. S x y \<Longrightarrow> refines R (f x) (g y)) \<Longrightarrow>
   refines R (case a of None \<Rightarrow> None | Some x \<Rightarrow> f x) (case b of None \<Rightarrow> None | Some y \<Rightarrow> g y)"
  by (cases a) (auto simp: refines_def)

lemma refines_same: "refines (=) a a"
  by (simp add: refines_def)

text \<open>
  The interface between the interpreter and its output: each output operation of the sink \<open>B\<close>
  simulates that of the sink \<open>A\<close> with respect to \<open>R\<close>. All directives then do.
\<close>

locale sink_sim =
  fixes A :: "'a sink" and B :: "'b sink" and R :: "'a \<Rightarrow> 'b \<Rightarrow> bool"
  assumes wc_sim: "R x y \<Longrightarrow> refines R (sk_wc A c x) (sk_wc B c y)"
    and putn_sim: "R x y \<Longrightarrow> refines R (sk_putn A n b x) (sk_putn B n b y)"
begin

lemma put_chars_sim: "R x y \<Longrightarrow> refines R (put_chars A cs x) (put_chars B cs y)"
  by (induction cs arbitrary: x y) (auto intro!: refines_case wc_sim)

lemma put_d_sim: "R x y \<Longrightarrow> refines (rel_prod (=) R) (put_d A fl ap x) (put_d B fl ap y)"
  unfolding put_d_def
  by (rule refines_bind[OF refines_same],
      auto intro!: refines_bind[where S = "rel_prod (=) R"] refines_map[where S = R] wc_sim putn_sim)

lemma put_frac_sim: "R x y \<Longrightarrow> refines R (put_frac A rnd k q x) (put_frac B rnd k q y)"
  by (induction k arbitrary: q x y) (auto simp: Let_def intro!: refines_case putn_sim)

lemma put_f_sim: "R x y \<Longrightarrow> refines (rel_prod (=) R) (put_f A rnd fl ap x) (put_f B rnd fl ap y)"
  unfolding put_f_def
  by (auto simp del: put_chars.simps split: list.split varg.split cdouble.split
      intro!: refines_bind[where S = "rel_prod (=) R"] refines_bind[where S = R]
        refines_map[where S = R] wc_sim putn_sim put_chars_sim put_frac_sim)

lemma put_x_sim: "R x y \<Longrightarrow> refines (rel_prod (=) R) (put_x A fl ap x) (put_x B fl ap y)"
  unfolding put_x_def
  by (rule refines_bind[where S = R])
    (auto simp del: put_chars.simps
      intro!: refines_bind[OF refines_same] refines_map[where S = R] putn_sim put_chars_sim)

lemma put_c_sim: "R x y \<Longrightarrow> refines (rel_prod (=) R) (put_c A ap x) (put_c B ap y)"
  unfolding put_c_def
  by (auto split: list.split varg.split intro!: refines_map[where S = R] wc_sim)

lemma put_s_loop_sim: "R x y \<Longrightarrow> refines R (put_s_loop A pm pr s x) (put_s_loop B pm pr s y)"
  by (induction s arbitrary: pr x y) (auto intro!: refines_case wc_sim)

lemma put_s_sim: "R x y \<Longrightarrow> refines (rel_prod (=) R) (put_s A fl ap x) (put_s B fl ap y)"
  unfolding put_s_def
  by (auto simp del: put_chars.simps split: list.split varg.split option.split
      intro!: refines_map[where S = R] put_chars_sim put_s_loop_sim)

text \<open>Both sinks agree on which characters end a directive.\<close>

lemma put_conv_sim:
  assumes "R x y"
  shows "(put_conv A rnd fl t ap x = None \<longleftrightarrow> put_conv B rnd fl t ap y = None) \<and>
     refines (refines (rel_prod (=) R)) (put_conv A rnd fl t ap x) (put_conv B rnd fl t ap y)"
  unfolding put_conv_def
  using put_d_sim[OF assms] put_f_sim[OF assms] put_x_sim[OF assms] put_c_sim[OF assms]
    put_s_sim[OF assms]
  by (auto intro!: refines_map[OF wc_sim[OF assms]])

end

context sink_sim
begin

lemma conv_loop_sim:
  "R x y \<Longrightarrow> refines (rel_prod (=) (rel_prod (=) R))
     (conv_loop A rnd fl fmt ap x) (conv_loop B rnd fl fmt ap y)"
proof (induction "length fmt" arbitrary: fmt fl x y rule: less_induct)
  case less
  let ?P = "rel_prod (=) (rel_prod (=) R)"
  show ?case
  proof (cases fmt)
    case (Cons t r)
    have IH: "refines ?P (conv_loop A rnd f g ap u) (conv_loop B rnd f g ap v)"
      if "length g \<le> length r" "R u v" for f g u v
      using less.hyps[of g u v f] that Cons by simp
    consider "t = 0 \<or> isspace (sint t)" | "\<not> (t = 0 \<or> isspace (sint t))" "read_prec fl (t # r) = None"
      | p g where "\<not> (t = 0 \<or> isspace (sint t))" "read_prec fl (t # r) = Some (Some (p, g))"
      | "\<not> (t = 0 \<or> isspace (sint t))" "read_prec fl (t # r) = Some None" "put_conv A rnd fl t ap x = None"
      | a where "\<not> (t = 0 \<or> isspace (sint t))" "read_prec fl (t # r) = Some None"
          "put_conv A rnd fl t ap x = Some a"
      by (cases "read_prec fl (t # r)"; cases "put_conv A rnd fl t ap x") force+
    then show ?thesis
    proof cases
      case 3
      then show ?thesis
        using IH[of g x y] read_prec_shorter[OF 3(2)] less.prems by (simp add: Cons)
    next
      case 4
      have "put_conv B rnd fl t ap y = None"
        using 4(3) put_conv_sim[OF less.prems] by blast
      moreover have "refines ?P (case sk_wc A 63 x of None \<Rightarrow> None | Some u \<Rightarrow> conv_loop A rnd fl r ap u)
          (case sk_wc B 63 y of None \<Rightarrow> None | Some v \<Rightarrow> conv_loop B rnd fl r ap v)"
        by (rule refines_case[OF wc_sim[OF less.prems]]) (simp add: IH)
      ultimately show ?thesis
        using 4 IH[of r x y] less.prems by (simp add: Cons)
    next
      case (5 a)
      then obtain b where b: "put_conv B rnd fl t ap y = Some b" "refines (rel_prod (=) R) a b"
        using put_conv_sim[OF less.prems, of rnd fl t ap] by (auto simp: refines_def)
      have "refines ?P (case a of None \<Rightarrow> None | Some (ap', o2) \<Rightarrow> Some (r, ap', o2))
          (case b of None \<Rightarrow> None | Some (ap', o2) \<Rightarrow> Some (r, ap', o2))"
        by (rule refines_case[OF b(2)]) auto
      then show ?thesis
        using 5 b(1) by (simp add: Cons)
    qed (simp_all add: Cons less.prems)
  qed simp
qed

end

text \<open>
  A sink \<open>A\<close> that never runs out of room, with the order \<open>ext\<close> of its outputs over time, and a sink
  \<open>B\<close> that, once it has no room, already agrees with all the later outputs of \<open>A\<close>.
\<close>

locale sink_refine = sink_sim A B R for A :: "'a sink" and B :: "'b sink" and R +
  fixes ext :: "'a \<Rightarrow> 'a \<Rightarrow> bool"
  assumes room_A: "sk_room A x"
    and ext_refl: "ext x x"
    and ext_trans: "ext x y' \<Longrightarrow> ext y' z \<Longrightarrow> ext x z"
    and ext_wc: "sk_wc A c x = Some x' \<Longrightarrow> ext x x'"
    and ext_putn: "sk_putn A n b x = Some x' \<Longrightarrow> ext x x'"
    and full: "R x y \<Longrightarrow> \<not> sk_room B y \<Longrightarrow> ext x x' \<Longrightarrow> R x' y"
begin

lemma conv_loop_ext:
  assumes "conv_loop A rnd fl fmt ap x = Some (fmt', ap', x')"
  shows "ext x x'"
proof -
  have "sink_sim A A (\<lambda>u v. u = v \<and> ext x u)"
    by unfold_locales (auto simp: refines_def intro: ext_trans ext_wc ext_putn)
  from sink_sim.conv_loop_sim[OF this, of x x rnd fl fmt ap] assms
  show ?thesis by (auto simp: refines_def ext_refl)
qed

lemma vprintf_loop_ext: "vprintf_loop A rnd fmt ap x = Some x' \<Longrightarrow> ext x x'"
proof (induction "length fmt" arbitrary: fmt ap x rule: less_induct)
  case less
  show ?case
  proof (cases fmt)
    case (Cons c r)
    have IH: "ext u x'" if "vprintf_loop A rnd g ap' u = Some x'" "length g \<le> length r" for g ap' u
      using less.hyps[OF _ that(1)] that(2) Cons by simp
    then have IHc: "ext u x'"
      if "conv_loop A rnd init_flags r ap x = Some (g, ap', u)" "vprintf_loop A rnd g ap' u = Some x'"
      for g ap' u using conv_loop_length[OF that(1)] that(2) by blast
    show ?thesis
      using less.prems unfolding Cons
      by (auto simp: room_A intro: ext_refl ext_trans[OF ext_wc IH] ext_trans[OF conv_loop_ext IHc]
          split: if_splits option.splits)
  qed (use less.prems in simp)
qed

lemma vprintf_loop_refines:
  "R x y \<Longrightarrow> refines R (vprintf_loop A rnd fmt ap x) (vprintf_loop B rnd fmt ap y)"
proof (induction "length fmt" arbitrary: fmt ap x y rule: less_induct)
  case less
  show ?case
  proof (cases fmt)
    case (Cons c r)
    have IH: "refines R (vprintf_loop A rnd g ap' u) (vprintf_loop B rnd g ap' v)"
      if "length g \<le> length r" "R u v" for g ap' u v
      using less.hyps[of g u v ap'] that Cons by simp
    consider "c = 0" | "c \<noteq> 0" "\<not> sk_room B y" | "c \<noteq> 0" "sk_room B y" "c \<noteq> 37"
      | "sk_room B y" "c = 37" by blast
    then show ?thesis
    proof cases
      case 2
      then show ?thesis
        using full[OF less.prems 2(2) vprintf_loop_ext[of rnd fmt ap]]
        unfolding refines_def by (simp add: Cons del: vprintf_loop.simps) simp
    next
      case 3
      then show ?thesis
        unfolding Cons by (auto simp: room_A intro!: refines_case[OF wc_sim] less.prems IH)
    next
      case 4
      have *: "refines (\<lambda>p q. rel_prod (=) (rel_prod (=) R) p q \<and> length (fst p) \<le> length r)
          (conv_loop A rnd init_flags r ap x) (conv_loop B rnd init_flags r ap y)"
        using conv_loop_sim[OF less.prems, of rnd init_flags r ap]
        by (force simp: refines_def intro: conv_loop_length)
      show ?thesis
        using 4 unfolding Cons by (auto simp: room_A intro!: refines_case[OF *] IH)
    qed (simp add: Cons less.prems)
  qed simp
qed

end

section \<open>The buffer refines the reference output\<close>

text \<open>The memory with the first \<open>sz\<close> bytes of the output at \<open>start\<close>.\<close>

definition buf_img :: "nat \<Rightarrow> nat \<Rightarrow> mem \<Rightarrow> byte list \<Rightarrow> mem" where
  "buf_img start sz m0 out = take start m0 @ take sz out @ drop (start + min sz (length out)) m0"

definition buf_rel :: "nat \<Rightarrow> nat \<Rightarrow> mem \<Rightarrow> byte list \<Rightarrow> nat \<times> mem \<Rightarrow> bool" where
  "buf_rel start sz m0 out = (\<lambda>(d, m).
     start + sz \<le> length m0 \<and> m = buf_img start sz m0 out \<and>
     (if length out < sz then d = start + length out else start + sz \<le> d))"

lemma length_buf_img [simp]: "start + sz \<le> length m0 \<Longrightarrow> length (buf_img start sz m0 out) = length m0"
  by (auto simp: buf_img_def min_def)

lemma buf_img_full: "sz \<le> length out \<Longrightarrow> buf_img start sz m0 (out @ zs) = buf_img start sz m0 out"
  by (simp add: buf_img_def)

lemma buf_img_update:
  assumes "start + sz \<le> length m0" "length out < sz"
  shows "(buf_img start sz m0 out)[start + length out := c] = buf_img start sz m0 (out @ [c])"
proof -
  have "drop (start + length out) m0 = m0 ! (start + length out) # drop (start + Suc (length out)) m0"
    using assms by (simp add: Cons_nth_drop_Suc)
  moreover have "min sz (Suc (length out)) = Suc (length out)" "min sz (length out) = length out"
    using assms by simp_all
  ultimately show ?thesis using assms by (simp add: buf_img_def list_update_append)
qed

lemma wc_rel:
  "buf_rel start sz m0 out (d, m) \<Longrightarrow>
   \<exists>k m'. wc d (start + sz) c m = Some (k, m') \<and> k \<le> 1 \<and> buf_rel start sz m0 (out @ [c]) (d + k, m') \<and>
     buf_rel start sz m0 (out @ [c]) (d + 1, m')"
  by (cases "length out < sz") (auto simp: buf_rel_def wc_def buf_img_update buf_img_full)

lemma putn_out_rel:
  "buf_rel start sz m0 out (p, m) \<Longrightarrow>
   \<exists>m'. putn_out p (start + sz) cs m = Some m' \<and> buf_rel start sz m0 (out @ cs) (p + length cs, m')"
proof (induction cs arbitrary: out p m)
  case (Cons c cs)
  from wc_rel[OF Cons.prems, of c] obtain k m1 where
    1: "wc p (start + sz) c m = Some (k, m1)" "k \<le> 1" "buf_rel start sz m0 (out @ [c]) (p + k, m1)"
    by blast
  from Cons.IH[OF 1(3)] obtain m' where
    "putn_out (p + k) (start + sz) cs m1 = Some m'"
    "buf_rel start sz m0 (out @ c # cs) (p + k + length cs, m')" by auto
  with 1 Cons.prems show ?case by (auto simp: buf_rel_def split: if_splits)
qed auto

interpretation bufref: sink_refine list_sink "buf_sink (start + sz)" "buf_rel start sz m0"
  "\<lambda>out out'. \<exists>zs. out' = out @ zs" for start sz m0
proof unfold_locales
  fix x y c n b
  assume R: "buf_rel start sz m0 x y"
  obtain d m where y: "y = (d, m)" by (cases y)
  show "refines (buf_rel start sz m0) (sk_wc list_sink c x) (sk_wc (buf_sink (start + sz)) c y)"
    using wc_rel[OF R[unfolded y], of c] by (auto simp: y list_sink_def buf_sink_def)
  show "refines (buf_rel start sz m0) (sk_putn list_sink n b x) (sk_putn (buf_sink (start + sz)) n b y)"
    using wc_rel[OF R[unfolded y], of 48] putn_out_rel[OF R[unfolded y], of "rev (the (putn_buf n b 0))"]
    by (auto simp: y list_sink_def buf_sink_def num_bytes_def putn_def refines_def)
next
  fix x y x'
  assume "buf_rel start sz m0 x y" "\<not> sk_room (buf_sink (start + sz)) y" "\<exists>zs. x' = x @ zs"
  then show "buf_rel start sz m0 x' y"
    by (auto simp: buf_rel_def buf_sink_def buf_img_full split: if_splits)
qed (auto simp: list_sink_def)

lemma vprintf_loop_buf:
  assumes "format_ref rnd fmt ap = Some out" "dst + sz \<le> length m"
  obtains d where "vprintf_loop (buf_sink (dst + sz)) rnd fmt ap (dst, m) = Some (d, buf_img dst sz m out)"
    "if length out < sz then d = dst + length out else dst + sz \<le> d"
proof -
  have "buf_rel dst sz m [] (dst, m)" using assms(2) by (simp add: buf_rel_def buf_img_def)
  from bufref.vprintf_loop_refines[OF this, of rnd fmt ap] assms(1)
  obtain y where "vprintf_loop (buf_sink (dst + sz)) rnd fmt ap (dst, m) = Some y" "buf_rel dst sz m out y"
    by (auto simp: refines_def format_ref_def)
  with that show thesis by (cases y) (auto simp: buf_rel_def)
qed

lemma buf_img_nul:
  assumes "k \<le> length out" "k \<le> sz" "dst + k < length m"
    "k = length out \<or> sz = k \<or> sz = Suc k" "dst + sz \<le> length m"
  shows "(buf_img dst sz m out)[dst + k := 0] = take dst m @ take k out @ 0 # drop (dst + k + 1) m"
proof (rule nth_equalityI)
  show "length ((buf_img dst sz m out)[dst + k := 0]) =
      length (take dst m @ take k out @ 0 # drop (dst + k + 1) m)"
    using assms by simp
  fix i assume "i < length ((buf_img dst sz m out)[dst + k := 0])"
  then show "(buf_img dst sz m out)[dst + k := 0] ! i = (take dst m @ take k out @ 0 # drop (dst + k + 1) m) ! i"
    using assms by (auto simp: buf_img_def nth_append nth_list_update nth_Cons' min_def)
qed

lemma vsnprintf_short:
  assumes "format_ref rnd fmt ap = Some out" "length out < sz" "dst + sz \<le> length m"
  shows "vsnprintf rnd dst sz fmt ap m =
    Some (length out, take dst m @ out @ 0 # drop (dst + length out + 1) m)"
proof -
  obtain d where d: "vprintf_loop (buf_sink (dst + sz)) rnd fmt ap (dst, m) = Some (d, buf_img dst sz m out)"
    "d = dst + length out"
    using vprintf_loop_buf[OF assms(1,3)] assms(2) by (metis (no_types))
  have "(buf_img dst sz m out)[dst + length out := 0] = take dst m @ out @ 0 # drop (dst + length out + 1) m"
    using buf_img_nul[of "length out" out sz dst m] assms(2,3) by simp
  with d assms(2,3) show ?thesis
    by (simp add: vsnprintf_def s_vprintf_def)
qed

text \<open>\<open>strncpy\<close>: the string is cut to \<open>sz\<close> bytes, and a terminator follows, outside the array if the string fills it.\<close>

lemma put_s_loop_end:
  assumes "put_s_loop (buf_sink e) False pr s (d, m) = Some (d', m')" "d \<le> e"
  shows "d' \<le> e"
  using assms
proof (induction s arbitrary: d m pr)
  case (Cons c s)
  show ?case
  proof (cases "c = 0")
    case False
    then obtain k m1 where w: "wc d e c m = Some (k, m1)" "put_s_loop (buf_sink e) False (pr - 1) s (d + k, m1) = Some (d', m')"
      using Cons.prems(1) by (auto simp: buf_sink_def split: option.splits)
    have "d + k \<le> e" using w(1) Cons.prems(2) by (auto simp: wc_def split: if_splits)
    then show ?thesis by (rule Cons.IH[OF w(2)])
  qed (use Cons.prems in simp)
qed simp

lemma put_s_loop_ref:
  "cstr s t \<Longrightarrow> put_s_loop list_sink False pr s out = Some (out @ t)"
proof (induction s arbitrary: t out pr)
  case (Cons c s)
  then show ?case by (cases t) (auto simp: list_sink_def)
qed simp

lemma strncpy_cstr:
  assumes "cstr src s" "0 < sz" "dst + sz < length m"
  shows "strncpy dst src sz m = Some (dst, take dst m @ take sz s @ 0 # drop (dst + min sz (length s) + 1) m)"
proof -
  have run: "vprintf_loop K id (lit ''%s'') [VStr (Some src)] o1 =
      (if sk_room K o1 then Option.bind (put_s_loop K False 6 src o1) (\<lambda>o2. Some o2) else Some o1)" for K :: "'o sink" and o1
    by (simp add: lit_def bytes_of_def read_prec_def put_conv_def put_s_def init_flags_def isspace_def split: option.split)
  have f: "format_ref id (lit ''%s'') [VStr (Some src)] = Some s"
    using put_s_loop_ref[OF assms(1), of 6 "[]"] unfolding format_ref_def run by (simp add: list_sink_def)
  obtain d where d: "vprintf_loop (buf_sink (dst + sz)) id (lit ''%s'') [VStr (Some src)] (dst, m) = Some (d, buf_img dst sz m s)"
    "if length s < sz then d = dst + length s else dst + sz \<le> d"
    using vprintf_loop_buf[OF f, of dst sz m] assms(3) by auto
  have "d \<le> dst + sz"
    using d(1) put_s_loop_end[of "dst + sz" 6 src dst m d "buf_img dst sz m s"] unfolding run
    by (auto simp: bind_eq_Some_conv split: if_splits)
  with d(2) have e: "d = dst + min sz (length s)" by (auto split: if_splits)
  have "(buf_img dst sz m s)[dst + min sz (length s) := 0] = take dst m @ take (min sz (length s)) s @ 0 # drop (dst + min sz (length s) + 1) m"
    using assms by (intro buf_img_nul) auto
  moreover have "take (min sz (length s)) s = take sz s" by (simp add: min_def)
  ultimately show ?thesis using d(1) e assms by (simp add: strncpy_def snprintf_def vsnprintf_def s_vprintf_def Let_def)
qed



text \<open>
  if the output is at least \<open>sz\<close> bytes long it is cut: the call returns \<open>sz\<close> or \<open>sz - 1\<close>, that
  many bytes of the output are stored, the NUL follows them, and no other byte changes. The NUL may
  thus land on \<open>dst[sz]\<close>, one byte after the buffer.
\<close>

theorem vsnprintf_truncates:
  assumes "format_ref rnd fmt ap = Some out" "sz \<le> length out" "0 < sz" "dst + sz < length m"
  shows "\<exists>r. (r = sz \<or> r = sz - 1) \<and>
    vsnprintf rnd dst sz fmt ap m = Some (r, take dst m @ take r out @ 0 # drop (dst + r + 1) m)"
proof -
  obtain d where d: "vprintf_loop (buf_sink (dst + sz)) rnd fmt ap (dst, m) = Some (d, buf_img dst sz m out)"
    "dst + sz \<le> d"
    using vprintf_loop_buf[of rnd fmt ap out dst sz m] assms by (auto split: if_splits)
  define r where "r = (if d > dst + sz then sz - 1 else sz)"
  have "(buf_img dst sz m out)[dst + r := 0] = take dst m @ take r out @ 0 # drop (dst + r + 1) m"
    using assms by (intro buf_img_nul) (auto simp: r_def)
  then have "vsnprintf rnd dst sz fmt ap m = Some (r, take dst m @ take r out @ 0 # drop (dst + r + 1) m)"
    using d assms(3,4) by (auto simp: vsnprintf_def s_vprintf_def r_def Let_def)
  then show ?thesis by (auto simp: r_def)
qed

theorem vsnprintf_truncates_witness:
  "\<exists>r. (r = 3 \<or> r = 3 - 1) \<and> vsnprintf id 0 3 (lit ''%d'') [VInt 12345] [9, 9, 9, 9] =
     Some (r, take 0 [9, 9, 9, 9] @ take r (bytes_of ''12345'') @ 0 # drop (0 + r + 1) [9, 9, 9, 9])"
proof -
  have "format_ref id (lit ''%d'') [VInt 12345] = Some (bytes_of ''12345'')" by code_simp
  from vsnprintf_truncates[OF this, of 3 0 "[9, 9, 9, 9]"] show ?thesis by (simp add: bytes_of_def)
qed

text \<open>A format without directives.\<close>

lemma format_ref_literal:
  "0 \<notin> set cs \<Longrightarrow> 37 \<notin> set cs \<Longrightarrow>
   vprintf_loop list_sink rnd (cs @ 0 # rest) ap out = Some (out @ cs)"
  by (induction cs arbitrary: out) (simp_all add: list_sink_def)

lemma vprintf_loop_fill:
  assumes "0 \<notin> set cs" "37 \<notin> set cs" "d \<le> e" "e \<le> d + length cs" "e \<le> length m"
  shows "\<exists>m'. vprintf_loop (buf_sink e) rnd (cs @ 0 # rest) ap (d, m) = Some (e, m') \<and> length m' = length m"
  using assms
proof (induction cs arbitrary: d m)
  case (Cons c cs)
  show ?case
  proof (cases "d < e")
    case True
    then show ?thesis using Cons.IH[of "Suc d" "m[d := c]"] Cons.prems
      by (simp add: buf_sink_def wc_def)
  next
    case False
    then show ?thesis using Cons.prems by (simp add: buf_sink_def)
  qed
qed simp

text \<open>
  the store past the buffer. A format without directives of at least \<open>sz\<close> characters makes
  \<open>vsnprintf\<close> write the terminating NUL to \<open>dst[sz]\<close>: with a buffer object of exactly \<open>sz\<close> bytes the
  call is an out-of-bounds store, and with a longer object it returns \<open>sz\<close> and has changed the byte.
\<close>

theorem vsnprintf_overflow:
  assumes "0 \<notin> set cs" "37 \<notin> set cs" "sz \<le> length cs" "dst + sz \<le> length m"
  shows "if length m = dst + sz then vsnprintf rnd dst sz (cs @ [0]) ap m = None
    else \<exists>m'. vsnprintf rnd dst sz (cs @ [0]) ap m = Some (sz, m') \<and> m' ! (dst + sz) = 0"
proof -
  obtain m' where "vprintf_loop (buf_sink (dst + sz)) rnd (cs @ 0 # []) ap (dst, m) = Some (dst + sz, m')"
    "length m' = length m"
    using vprintf_loop_fill[OF assms(1,2), of dst "dst + sz" m rnd "[]" ap] assms(3,4) by auto
  then show ?thesis using assms(4) by (simp add: vsnprintf_def s_vprintf_def)
qed

theorem vsnprintf_overflow_witness:
  "vsnprintf id 0 3 (bytes_of ''abc'' @ [0]) [] [9, 9, 9] = None"
  using vsnprintf_overflow[of "bytes_of ''abc''" 3 0 "[9, 9, 9]" id "[]"]
  by (simp add: bytes_of_def)

section \<open>Numbers\<close>

lemma numtoch_digit:
  assumes "k < 10"
  shows "isdigit (sint (numtoch (word_of_nat k))) \<and> digit_val (numtoch (word_of_nat k)) = int k"
proof -
  have "\<forall>k \<in> set [0..<10]. isdigit (sint (numtoch (word_of_nat k))) \<and>
      digit_val (numtoch (word_of_nat k)) = int k" by code_simp
  with assms show ?thesis by simp
qed

lemma unat_numeral_10: "unat (10 :: long) = 10"
  by simp

lemma putn_buf_decimal:
  "unat n < 10 ^ (21 - i) \<Longrightarrow> \<exists>ds. putn_buf n 10 i = Some ds \<and> (\<forall>d \<in> set ds. isdigit (sint d)) \<and>
     digits_val 10 (rev ds) = uint n \<and> (ds = [] \<longrightarrow> n = 0)"
proof (induction n "10 :: long" i rule: putn_buf.induct)
  case (1 n i)
  have ten: "\<not> (10 :: long) \<le> 1" by code_simp
  show ?case
  proof (cases "n = 0")
    case False
    then have i: "i < 21" using "1.prems" by (cases "21 \<le> i") (auto simp: unat_eq_0)
    then have "(10 :: nat) ^ (21 - i) = 10 * 10 ^ (21 - Suc i)"
      by (metis Suc_diff_Suc power_Suc)
    then have "unat (n div 10) < 10 ^ (21 - Suc i)"
      using "1.prems" by (simp add: unat_div_distrib less_mult_imp_div_less mult.commute)
    with "1.hyps"[OF False] ten i obtain ds where
      ds: "putn_buf (n div 10) 10 (Suc i) = Some ds" "\<forall>d \<in> set ds. isdigit (sint d)"
        "digits_val 10 (rev ds) = uint (n div 10)" by auto
    let ?d = "numtoch (ucast (n mod 10))"
    have k: "ucast (n mod 10) = (word_of_nat (unat n mod 10) :: byte)"
      by (metis of_nat_unat unat_mod_distrib unat_numeral_10)
    have "isdigit (sint ?d)" "digit_val ?d = int (unat n mod 10)"
      unfolding k using numtoch_digit[of "unat n mod 10"] by simp_all
    then have "digits_val 10 (rev (?d # ds)) = uint n"
      using ds(3) by (simp add: digits_val_snoc uint_div_distrib flip: uint_nat) (simp add: zmod_int)
    with ds \<open>isdigit (sint ?d)\<close> False i ten show ?thesis
      by (subst putn_buf.simps) simp
  qed (simp add: putn_buf.simps digits_val_def)
qed

lemma num_bytes_decimal:
  obtains ds where "num_bytes n 10 = Some ds" "ds \<noteq> []" "\<forall>d \<in> set ds. isdigit (sint d)"
    "digits_val 10 ds = uint n"
proof (cases "n = 0")
  case True
  then show thesis by (intro that[of "[48]"]) (simp_all add: num_bytes_def isdigit_def digits_val_def
        digit_val_def tolower_eq isalpha_def islower_def isupper_def)
next
  case False
  have "unat n < 2 ^ 64" using unsigned_less[of n] by simp
  then have "unat n < 10 ^ (21 - 0)" by simp
  from putn_buf_decimal[OF this] False obtain ds where "putn_buf n 10 0 = Some ds" "ds \<noteq> []"
    "\<forall>d \<in> set ds. isdigit (sint d)" "digits_val 10 (rev ds) = uint n" by auto
  with False show thesis by (intro that[of "rev ds"]) (simp_all add: num_bytes_def)
qed

text \<open>
  printing and reading back are inverse. For every \<open>long\<close>, the most negative one included, the
  directive \<open>%ld\<close> prints a string that \<open>strtol\<close> in base 10 reads back as the same number, stopping
  at the NUL.
\<close>

theorem printf_strtol_roundtrip:
  "\<exists>out. format_ref rnd (lit ''%ld'') [VLong n] = Some out \<and>
     strtol (out @ 0 # rest) 10 = Some (n, Some (0 # rest), None)"
proof -
  let ?k = "if n <s 0 then - n else n"
  let ?sg = "if n <s 0 then [45 :: byte] else []"
  obtain ds where ds: "num_bytes ?k 10 = Some ds" "ds \<noteq> []" "\<forall>d \<in> set ds. isdigit (sint d)"
    "digits_val 10 ds = uint ?k" by (rule num_bytes_decimal)
  have "format_ref rnd (lit ''%ld'') [VLong n] = Some (?sg @ ds)"
    using ds(1) by (cases "n <s 0") (simp_all add: format_ref_def lit_def bytes_of_def read_prec_def
        put_conv_def put_d_def list_sink_def init_flags_def isspace_def)
  moreover have "strtol ([] @ ?sg @ ds @ 0 # rest) 10 =
      Some (word_of_int ((if ?sg = [45] then - 1 else 1) * digits_val 10 ds), Some (0 # rest), None)"
    using ds by (intro strtol_num[of 10 isdigit]) (auto simp: isdigit_def)
  moreover have "word_of_int ((if ?sg = [45] then - 1 else 1) * digits_val 10 ds) = n"
    by (simp add: ds(4))
  ultimately show ?thesis by simp
qed

end
