(* ===== verification/Litc_Sys.thy ===== *)
theory Litc_Sys
  imports Litc_Str
begin

unbundle bit_operations_syntax

text \<open>
  The system call layer of \<open>litc.c\<close> (lines 4 to 860): \<open>syscall6\<close>, \<open>syscall\<close>, the macros
  \<open>ERRNO_NZ\<close> and \<open>ERRNO_NEG\<close>, and the wrappers built from them.

  The kernel is not part of this library and is a parameter: it takes the trap number and the
  arguments and returns a \<open>long\<close>, the arguments with the objects it has written to, and its own next
  state. An argument is a number (\<open>SA\<close>) or a pointer to an object, given by the object's bytes
  (\<open>SP\<close>); \<open>NULL\<close> is \<open>SA 0\<close>. The state of the process that the wrappers touch is the record \<open>proc\<close>:
  \<open>errno\<close>, the kernel, and the warnings printed so far.

  A wrapper returns its C result, the arguments after the call, and the state. \<open>int ret = syscall\<close>
  keeps the low 32 bits (\<open>ucast\<close>); passing an \<open>int\<close> to \<open>syscall\<close> sign-extends it (\<open>SAi\<close>).
\<close>

section \<open>Process state and kernel\<close>

datatype sysarg = SA long | SP "byte list"

text \<open>The two ports; on x86-64 the value of \<open>%rsp\<close> at the call is part of the choice.\<close>

datatype arch = X86_64 long | AArch64

type_synonym 'k kernel = "long \<Rightarrow> sysarg list \<Rightarrow> 'k \<Rightarrow> long \<times> sysarg list \<times> 'k"

record 'k proc =
  errno :: cint
  kern :: 'k
  diag :: "string list"
  arch :: arch

definition NULL :: sysarg where "NULL = SA 0"

abbreviation SAi :: "cint \<Rightarrow> sysarg" where "SAi i \<equiv> SA (scast i)"

fun obj :: "sysarg \<Rightarrow> byte list" where
  "obj (SP bs) = bs"
| "obj (SA _) = []"

definition warn :: "string \<Rightarrow> 'k proc \<Rightarrow> 'k proc" where
  "warn msg st = st\<lparr>diag := diag st @ [msg]\<rparr>"

section \<open>Constants\<close>

definition SYS_READ :: long where "SYS_READ = 0"
definition SYS_WRITE :: long where "SYS_WRITE = 1"
definition SYS_OPEN :: long where "SYS_OPEN = 2"
definition SYS_CLOSE :: long where "SYS_CLOSE = 3"
definition SYS_STAT :: long where "SYS_STAT = 4"
definition SYS_FSTAT :: long where "SYS_FSTAT = 5"
definition SYS_POLL :: long where "SYS_POLL = 7"
definition SYS_LSEEK :: long where "SYS_LSEEK = 8"
definition SYS_MMAP :: long where "SYS_MMAP = 9"
definition SYS_MUNMAP :: long where "SYS_MUNMAP = 11"
definition SYS_READV :: long where "SYS_READV = 19"
definition SYS_WRITEV :: long where "SYS_WRITEV = 20"
definition SYS_ACCESS :: long where "SYS_ACCESS = 21"
definition SYS_DUP2 :: long where "SYS_DUP2 = 33"
definition SYS_PAUSE :: long where "SYS_PAUSE = 34"
definition SYS_GETPID :: long where "SYS_GETPID = 39"
definition SYS_GETPPID :: long where "SYS_GETPPID = 40"
definition SYS_SOCKET :: long where "SYS_SOCKET = 41"
definition SYS_CONNECT :: long where "SYS_CONNECT = 42"
definition SYS_ACCEPT :: long where "SYS_ACCEPT = 43"
definition SYS_SENDTO :: long where "SYS_SENDTO = 44"
definition SYS_RECVFROM :: long where "SYS_RECVFROM = 45"
definition SYS_SOCKETPAIR :: long where "SYS_SOCKETPAIR = 46"
definition SYS_SHUTDOWN :: long where "SYS_SHUTDOWN = 48"
definition SYS_BIND :: long where "SYS_BIND = 49"
definition SYS_LISTEN :: long where "SYS_LISTEN = 50"
definition SYS_RECVMSG :: long where "SYS_RECVMSG = 51"
definition SYS_SENDMSG :: long where "SYS_SENDMSG = 52"
definition SYS_GETSOCKOPT :: long where "SYS_GETSOCKOPT = 55"
definition SYS_SETSOCKOPT :: long where "SYS_SETSOCKOPT = 56"
definition SYS_FORK :: long where "SYS_FORK = 57"
definition SYS_EXECV :: long where "SYS_EXECV = 59"
definition SYS_EXIT :: long where "SYS_EXIT = 60"
definition SYS_WAIT4 :: long where "SYS_WAIT4 = 61"
definition SYS_KILL :: long where "SYS_KILL = 62"
definition SYS_FCNTL :: long where "SYS_FCNTL = 72"
definition SYS_TRUNC :: long where "SYS_TRUNC = 76"
definition SYS_FTRUNC :: long where "SYS_FTRUNC = 77"
definition SYS_GETCWD :: long where "SYS_GETCWD = 79"
definition SYS_CHDIR :: long where "SYS_CHDIR = 80"
definition SYS_RENAME :: long where "SYS_RENAME = 82"
definition SYS_MKDIR :: long where "SYS_MKDIR = 83"
definition SYS_LINK :: long where "SYS_LINK = 86"
definition SYS_UNLINK :: long where "SYS_UNLINK = 87"
definition SYS_GETRLIMIT :: long where "SYS_GETRLIMIT = 97"
definition SYS_GETRUSAGE :: long where "SYS_GETRUSAGE = 98"
definition SYS_MKNOD :: long where "SYS_MKNOD = 133"
definition SYS_SETRLIMIT :: long where "SYS_SETRLIMIT = 160"
definition SYS_SYNC :: long where "SYS_SYNC = 162"
definition SYS_REBOOT :: long where "SYS_REBOOT = 169"
definition SYS_GETDENTS64 :: long where "SYS_GETDENTS64 = 217"
definition SYS_NANOSLEEP :: long where "SYS_NANOSLEEP = 230"
definition SYS_PIPE2 :: long where "SYS_PIPE2 = 293"
definition SYS_PROF :: long where "SYS_PROF = 31337"
definition SYS_THREXIT :: long where "SYS_THREXIT = 31338"
definition SYS_INFO :: long where "SYS_INFO = 31339"
definition SYS_PREAD :: long where "SYS_PREAD = 31340"
definition SYS_PWRITE :: long where "SYS_PWRITE = 31341"
definition SYS_FUTEX :: long where "SYS_FUTEX = 31342"
definition SYS_GETTID :: long where "SYS_GETTID = 31343"

definition ENOENT :: cint where "ENOENT = 2"
definition EAGAIN :: cint where "EAGAIN = 11"
definition ENOMEM :: cint where "ENOMEM = 12"
definition EINVAL :: cint where "EINVAL = 22"
definition ENOSYS :: cint where "ENOSYS = 38"
definition EOVERFLOW :: cint where "EOVERFLOW = 75"
definition ETIMEDOUT :: cint where "ETIMEDOUT = 110"
definition ERRNO_FIRST :: long where "ERRNO_FIRST = 1"
definition ERRNO_LAST :: long where "ERRNO_LAST = 115"
definition MAP_FAILED :: long where "MAP_FAILED = - 1"
definition MAP_PRIVATE :: cint where "MAP_PRIVATE = 0x02"
definition MAP_ANON :: cint where "MAP_ANON = 0x20"
definition PROT_READ :: cint where "PROT_READ = 0x1"
definition PROT_WRITE :: cint where "PROT_WRITE = 0x2"
definition FORK_PROCESS :: long where "FORK_PROCESS = 0x1"
definition FORK_THREAD :: long where "FORK_THREAD = 0x2"
definition SIGKILL :: cint where "SIGKILL = 9"
definition O_RDONLY :: cint where "O_RDONLY = 0"
definition O_WRONLY :: cint where "O_WRONLY = 1"
definition O_RDWR :: cint where "O_RDWR = 2"
definition O_CREAT :: cint where "O_CREAT = 0x40"
definition O_EXCL :: cint where "O_EXCL = 0x80"
definition O_TRUNC :: cint where "O_TRUNC = 0x200"
definition O_APPEND :: cint where "O_APPEND = 0x400"
definition O_DIRECTORY :: cint where "O_DIRECTORY = 0x10000"
definition O_CLOEXEC :: cint where "O_CLOEXEC = 0x80000"
definition SOL_SOCKET :: cint where "SOL_SOCKET = 1"
definition SO_NAME :: cint where "SO_NAME = 10"
definition SO_PEER :: cint where "SO_PEER = 11"
definition WAIT_ANY :: long where "WAIT_ANY = - 1"

text \<open>\<open>MAJOR\<close>, \<open>MINOR\<close> and \<open>MKDEV\<close>.\<close>

definition MAJOR :: "long \<Rightarrow> long" where "MAJOR x = drop_bit 40 x"
definition MINOR :: "long \<Rightarrow> long" where "MINOR x = drop_bit 32 x AND 0xff"
definition MKDEV :: "long \<Rightarrow> long \<Rightarrow> long" where "MKDEV x y = push_bit 40 x OR push_bit 32 y"

section \<open>The trap and the errno macros\<close>

text \<open>
  On x86-64 the first instruction of the inline assembly is \<open>movq %rsp, %r10\<close>, after \<open>r10\<close> has been
  loaded with \<open>a4\<close>: the kernel receives the stack pointer as its fourth argument.
\<close>

definition syscall6 ::
  "'k kernel \<Rightarrow> sysarg list \<Rightarrow> long \<Rightarrow> 'k proc \<Rightarrow> long \<times> sysarg list \<times> 'k proc"
where
  "syscall6 K as trap st =
     (let regs = (case arch st of X86_64 rsp \<Rightarrow> as[3 := SA rsp] | AArch64 \<Rightarrow> as)
      in case K trap regs (kern st) of (ret, as', k') \<Rightarrow> (ret, as', st\<lparr>kern := k'\<rparr>))"

definition syscall ::
  "'k kernel \<Rightarrow> sysarg list \<Rightarrow> long \<Rightarrow> 'k proc \<Rightarrow> long \<times> sysarg list \<times> 'k proc"
where
  "syscall K as trap st = syscall6 K (as @ [SA 0]) trap st"

definition ERRNO_NZ :: "cint \<Rightarrow> 'k proc \<Rightarrow> cint \<times> 'k proc" where
  "ERRNO_NZ x st = (if x \<noteq> 0 then (- 1, st\<lparr>errno := - x\<rparr>) else (x, st))"

definition ERRNO_NEG :: "cint \<Rightarrow> 'k proc \<Rightarrow> cint \<times> 'k proc" where
  "ERRNO_NEG x st = (if x <s 0 then (- 1, st\<lparr>errno := - x\<rparr>) else (x, st))"

text \<open>The same macros on a \<open>long\<close>: \<open>errno = -x\<close> keeps the low 32 bits.\<close>

definition ERRNO_NZ_l :: "long \<Rightarrow> 'k proc \<Rightarrow> long \<times> 'k proc" where
  "ERRNO_NZ_l x st = (if x \<noteq> 0 then (- 1, st\<lparr>errno := ucast (- x)\<rparr>) else (x, st))"

definition ERRNO_NEG_l :: "long \<Rightarrow> 'k proc \<Rightarrow> long \<times> 'k proc" where
  "ERRNO_NEG_l x st = (if x <s 0 then (- 1, st\<lparr>errno := ucast (- x)\<rparr>) else (x, st))"

text \<open>\<open>int ret = syscall(...); ERRNO_...(ret); return ret;\<close>, and with \<open>long ret\<close>.\<close>

type_synonym 'k icall = "cint \<times> sysarg list \<times> 'k proc"
type_synonym 'k lcall = "long \<times> sysarg list \<times> 'k proc"

definition sys_nz :: "'k kernel \<Rightarrow> sysarg list \<Rightarrow> long \<Rightarrow> 'k proc \<Rightarrow> 'k icall" where
  "sys_nz K as trap st =
     (case syscall K as trap st of (r, as', st1) \<Rightarrow>
      case ERRNO_NZ (ucast r) st1 of (x, st2) \<Rightarrow> (x, as', st2))"

definition sys_neg :: "'k kernel \<Rightarrow> sysarg list \<Rightarrow> long \<Rightarrow> 'k proc \<Rightarrow> 'k icall" where
  "sys_neg K as trap st =
     (case syscall K as trap st of (r, as', st1) \<Rightarrow>
      case ERRNO_NEG (ucast r) st1 of (x, st2) \<Rightarrow> (x, as', st2))"

definition sys_nz_l :: "'k kernel \<Rightarrow> sysarg list \<Rightarrow> long \<Rightarrow> 'k proc \<Rightarrow> 'k lcall" where
  "sys_nz_l K as trap st =
     (case syscall K as trap st of (r, as', st1) \<Rightarrow>
      case ERRNO_NZ_l r st1 of (x, st2) \<Rightarrow> (x, as', st2))"

definition sys_neg_l :: "'k kernel \<Rightarrow> sysarg list \<Rightarrow> long \<Rightarrow> 'k proc \<Rightarrow> 'k lcall" where
  "sys_neg_l K as trap st =
     (case syscall K as trap st of (r, as', st1) \<Rightarrow>
      case ERRNO_NEG_l r st1 of (x, st2) \<Rightarrow> (x, as', st2))"

text \<open>The wrappers that return a \<open>long\<close> from an \<open>int ret\<close>.\<close>

definition widen :: "'k icall \<Rightarrow> 'k lcall" where
  "widen c = (case c of (r, as, st) \<Rightarrow> (scast r, as, st))"

section \<open>The wrappers, in the order of the source\<close>

definition accept :: "'k kernel \<Rightarrow> cint \<Rightarrow> sysarg \<Rightarrow> sysarg \<Rightarrow> 'k proc \<Rightarrow> 'k icall" where
  "accept K fd s sl = sys_neg K [SAi fd, s, sl, SA 0, SA 0] SYS_ACCEPT"

definition access :: "'k kernel \<Rightarrow> byte list \<Rightarrow> cint \<Rightarrow> 'k proc \<Rightarrow> 'k icall" where
  "access K p mode = sys_nz K [SP p, SAi mode, SA 0, SA 0, SA 0] SYS_ACCESS"

definition bind_c :: "'k kernel \<Rightarrow> cint \<Rightarrow> sysarg \<Rightarrow> long \<Rightarrow> 'k proc \<Rightarrow> 'k icall" where
  "bind_c K sockfd s sl = sys_nz K [SAi sockfd, s, SA sl, SA 0, SA 0] SYS_BIND"

definition close :: "'k kernel \<Rightarrow> cint \<Rightarrow> 'k proc \<Rightarrow> 'k icall" where
  "close K fd = sys_nz K [SAi fd, SA 0, SA 0, SA 0, SA 0] SYS_CLOSE"

definition chdir :: "'k kernel \<Rightarrow> byte list \<Rightarrow> 'k proc \<Rightarrow> 'k icall" where
  "chdir K path = sys_nz K [SP path, SA 0, SA 0, SA 0, SA 0] SYS_CHDIR"

text \<open>\<open>mode\<close> is read from the argument list only if \<open>flags & O_CREAT\<close>.\<close>

definition open_c :: "'k kernel \<Rightarrow> byte list \<Rightarrow> cint \<Rightarrow> cint \<Rightarrow> 'k proc \<Rightarrow> 'k icall" where
  "open_c K path flags mode =
     sys_neg K [SP path, SAi flags, SA (if flags AND O_CREAT \<noteq> 0 then ucast mode else 0), SA 0, SA 0]
       SYS_OPEN"

definition dup2 :: "'k kernel \<Rightarrow> cint \<Rightarrow> cint \<Rightarrow> 'k proc \<Rightarrow> 'k icall" where
  "dup2 K old new = sys_neg K [SAi old, SAi new, SA 0, SA 0, SA 0] SYS_DUP2"

definition dup :: "'k kernel \<Rightarrow> cint \<Rightarrow> 'k proc \<Rightarrow> cint \<times> 'k proc" where
  "dup K o1 st =
     (case open_c K (lit ''/'') (O_RDONLY OR O_DIRECTORY) 0 st of (fd, _, st1) \<Rightarrow>
        if fd = - 1 then (- 1, st1)
        else case dup2 K o1 fd st1 of (r, _, st2) \<Rightarrow>
          if r = - 1 then (- 1, st2) else (fd, st2))"

definition connect :: "'k kernel \<Rightarrow> cint \<Rightarrow> sysarg \<Rightarrow> long \<Rightarrow> 'k proc \<Rightarrow> 'k icall" where
  "connect K fd sa salen = sys_nz K [SAi fd, sa, SA salen, SA 0, SA 0] SYS_CONNECT"

definition chmod :: "byte list \<Rightarrow> cint \<Rightarrow> 'k proc \<Rightarrow> cint \<times> 'k proc" where
  "chmod path mode st = (0, warn ''warning: chmod is a no-op'' st)"

text \<open>If the kernel returns from the exit call, \<open>errx\<close> is the way out.\<close>

definition s_exit :: "'k kernel \<Rightarrow> cint \<Rightarrow> 'k proc \<Rightarrow> unit outcome \<times> 'k proc" where
  "s_exit K status st =
     (case syscall K [SAi status, SA 0, SA 0, SA 0, SA 0] SYS_EXIT st of
        (_, _, st1) \<Rightarrow> (Errx (- 1) ''exit returned'', st1))"

text \<open>
  \<open>execve\<close> takes whether \<open>envp\<close> is the process's own \<open>environ\<close>; \<open>argv\<close> is the object of the argument
  pointers. The call returns only if it fails.
\<close>

definition execve ::
  "'k kernel \<Rightarrow> byte list \<Rightarrow> sysarg \<Rightarrow> bool \<Rightarrow> 'k proc \<Rightarrow> (cint \<times> 'k proc) outcome"
where
  "execve K path argv is_environ st =
     (if \<not> is_environ then Errx (- 1) ''envp not supported yet''
      else case syscall K [SP path, argv, SA 0, SA 0, SA 0] SYS_EXECV st of
        (r, _, st1) \<Rightarrow> Ret (- 1, st1\<lparr>errno := - ucast r\<rparr>))"

definition execv :: "'k kernel \<Rightarrow> byte list \<Rightarrow> sysarg \<Rightarrow> 'k proc \<Rightarrow> (cint \<times> 'k proc) outcome" where
  "execv K path argv st = execve K path argv True st"

definition stat :: "'k kernel \<Rightarrow> byte list \<Rightarrow> sysarg \<Rightarrow> 'k proc \<Rightarrow> 'k icall" where
  "stat K path sb = sys_nz K [SP path, sb, SA 0, SA 0, SA 0] SYS_STAT"

definition F_GETFL :: cint where "F_GETFL = 1"
definition F_SETFL :: cint where "F_SETFL = 2"
definition F_GETFD :: cint where "F_GETFD = 3"
definition F_SETFD :: cint where "F_SETFD = 4"
definition F_SETOWN :: cint where "F_SETOWN = 7"

definition fcntl :: "'k kernel \<Rightarrow> cint \<Rightarrow> cint \<Rightarrow> cint \<Rightarrow> 'k proc \<Rightarrow> (cint \<times> 'k proc) outcome" where
  "fcntl K fd cmd fl st =
     (if cmd \<in> {F_GETFD, F_SETFD, F_GETFL, F_SETFL} then
        (case sys_neg K [SAi fd, SAi cmd, SAi fl, SA 0, SA 0] SYS_FCNTL st of (r, _, st1) \<Rightarrow> Ret (r, st1))
      else if cmd = F_SETOWN then Ret (0, warn ''warning: F_SETOWN is no-op'' st)
      else Errx (- 1) ''no imp'')"

definition fork :: "'k kernel \<Rightarrow> 'k proc \<Rightarrow> 'k lcall" where
  "fork K st = widen (sys_neg K [SA 0, SA FORK_PROCESS, SA 0, SA 0, SA 0] SYS_FORK st)"

definition fstat :: "'k kernel \<Rightarrow> cint \<Rightarrow> sysarg \<Rightarrow> 'k proc \<Rightarrow> 'k icall" where
  "fstat K fd buf = sys_nz K [SAi fd, buf, SA 0, SA 0, SA 0] SYS_FSTAT"

text \<open>\<open>getcwd\<close> returns the buffer, or \<open>NULL\<close>.\<close>

definition getcwd :: "'k kernel \<Rightarrow> byte list \<Rightarrow> long \<Rightarrow> 'k proc \<Rightarrow> byte list option \<times> 'k proc" where
  "getcwd K buf sz st =
     (case sys_nz K [SP buf, SA sz, SA 0, SA 0, SA 0] SYS_GETCWD st of
        (r, as, st1) \<Rightarrow> (if r \<noteq> 0 then None else Some (obj (as ! 0)), st1))"

definition getpid :: "'k kernel \<Rightarrow> 'k proc \<Rightarrow> 'k lcall" where
  "getpid K = syscall K [SA 0, SA 0, SA 0, SA 0, SA 0] SYS_GETPID"

definition getppid :: "'k kernel \<Rightarrow> 'k proc \<Rightarrow> 'k lcall" where
  "getppid K = syscall K [SA 0, SA 0, SA 0, SA 0, SA 0] SYS_GETPPID"

definition getsockopt :: "'k kernel \<Rightarrow> cint \<Rightarrow> cint \<Rightarrow> cint \<Rightarrow> sysarg \<Rightarrow> sysarg \<Rightarrow> 'k proc \<Rightarrow> 'k icall" where
  "getsockopt K fd level opt optv optlen =
     sys_nz K [SAi fd, SAi level, SAi opt, optv, optlen] SYS_GETSOCKOPT"

definition getpeername :: "'k kernel \<Rightarrow> cint \<Rightarrow> sysarg \<Rightarrow> sysarg \<Rightarrow> 'k proc \<Rightarrow> 'k icall" where
  "getpeername K s sa sl = getsockopt K s SOL_SOCKET SO_PEER sa sl"

definition getsockname :: "'k kernel \<Rightarrow> cint \<Rightarrow> sysarg \<Rightarrow> sysarg \<Rightarrow> 'k proc \<Rightarrow> 'k icall" where
  "getsockname K s sa sl = getsockopt K s SOL_SOCKET SO_NAME sa sl"

text \<open>
  \<open>gettimeofday\<close> converts the cycle counter \<open>rdtsc()\<close> with \<open>kinfo->pspercycle\<close>; the product is a
  64-bit one. It returns 0 and the two fields of \<open>*tv\<close>.
\<close>

definition gettimeofday :: "long \<Rightarrow> long \<Rightarrow> bool \<Rightarrow> (cint \<times> long \<times> long) outcome" where
  "gettimeofday tsc pspercycle tz =
     (if tz then Errx (- 1) ''timezone not supported''
      else let us = tsc * pspercycle div 1000000 in Ret (0, us div 1000000, us mod 1000000))"

definition gettid :: "'k kernel \<Rightarrow> 'k proc \<Rightarrow> 'k lcall" where
  "gettid K = syscall K [SA 0, SA 0, SA 0, SA 0, SA 0] SYS_GETTID"

definition getrlimit :: "'k kernel \<Rightarrow> cint \<Rightarrow> sysarg \<Rightarrow> 'k proc \<Rightarrow> 'k icall" where
  "getrlimit K res rlp = sys_neg K [SAi res, rlp, SA 0, SA 0, SA 0] SYS_GETRLIMIT"

definition getrusage :: "'k kernel \<Rightarrow> cint \<Rightarrow> sysarg \<Rightarrow> 'k proc \<Rightarrow> 'k icall" where
  "getrusage K who r = sys_nz K [SAi who, r, SA 0, SA 0, SA 0] SYS_GETRUSAGE"

definition kill :: "'k kernel \<Rightarrow> cint \<Rightarrow> cint \<Rightarrow> 'k proc \<Rightarrow> cint \<times> 'k proc" where
  "kill K pid sg st =
     (if sg \<noteq> SIGKILL then (- 1, warn ''kill: only SIGKILL is supported'' st)
      else case sys_nz K [SAi pid, SAi sg, SA 0, SA 0, SA 0] SYS_KILL st of (r, _, st1) \<Rightarrow> (r, st1))"

definition link :: "'k kernel \<Rightarrow> byte list \<Rightarrow> byte list \<Rightarrow> 'k proc \<Rightarrow> 'k icall" where
  "link K old new = sys_nz K [SP old, SP new, SA 0, SA 0, SA 0] SYS_LINK"

definition listen :: "'k kernel \<Rightarrow> cint \<Rightarrow> cint \<Rightarrow> 'k proc \<Rightarrow> 'k icall" where
  "listen K fd backlog = sys_nz K [SAi fd, SAi backlog, SA 0, SA 0, SA 0] SYS_LISTEN"

definition lseek :: "'k kernel \<Rightarrow> cint \<Rightarrow> long \<Rightarrow> cint \<Rightarrow> 'k proc \<Rightarrow> 'k lcall" where
  "lseek K fd off whence st = widen (sys_neg K [SAi fd, SA off, SAi whence, SA 0, SA 0] SYS_LSEEK st)"

definition mkdir :: "'k kernel \<Rightarrow> byte list \<Rightarrow> long \<Rightarrow> 'k proc \<Rightarrow> 'k icall" where
  "mkdir K p mode = sys_nz K [SP p, SA mode, SA 0, SA 0, SA 0] SYS_MKDIR"

definition mknod :: "'k kernel \<Rightarrow> byte list \<Rightarrow> cint \<Rightarrow> long \<Rightarrow> 'k proc \<Rightarrow> (cint \<times> 'k proc) outcome" where
  "mknod K p m d st =
     (if MAJOR d = 0 then Errx (- 1) ''bad major: 0''
      else case sys_nz K [SP p, SA (ucast m), SA d, SA 0, SA 0] SYS_MKNOD st of (r, _, st1) \<Rightarrow> Ret (r, st1))"

definition mmap ::
  "'k kernel \<Rightarrow> long \<Rightarrow> long \<Rightarrow> cint \<Rightarrow> cint \<Rightarrow> cint \<Rightarrow> long \<Rightarrow> 'k proc \<Rightarrow> long \<times> 'k proc"
where
  "mmap K addr len prot flags fd off st =
     (case syscall6 K [SA addr, SA len, SAi prot, SAi flags, SAi fd, SA off] SYS_MMAP st of
        (ret, _, st1) \<Rightarrow>
          if ret <s 0 \<and> ERRNO_FIRST \<le>s - ret \<and> - ret \<le>s ERRNO_LAST
          then (MAP_FAILED, st1\<lparr>errno := ucast (- ret)\<rparr>)
          else (ret, st1))"

definition munmap :: "'k kernel \<Rightarrow> long \<Rightarrow> long \<Rightarrow> 'k proc \<Rightarrow> 'k icall" where
  "munmap K addr len = sys_nz K [SA addr, SA len, SA 0, SA 0, SA 0] SYS_MUNMAP"

definition nanosleep :: "'k kernel \<Rightarrow> sysarg \<Rightarrow> sysarg \<Rightarrow> 'k proc \<Rightarrow> 'k icall" where
  "nanosleep K timeout remainder = sys_nz K [timeout, remainder, SA 0, SA 0, SA 0] SYS_NANOSLEEP"

definition pause :: "'k kernel \<Rightarrow> 'k proc \<Rightarrow> cint \<times> 'k proc" where
  "pause K st =
     (case syscall K [SA 0, SA 0, SA 0, SA 0, SA 0] SYS_PAUSE st of
        (r, _, st1) \<Rightarrow> (- 1, st1\<lparr>errno := ucast r\<rparr>))"

definition pipe2 :: "'k kernel \<Rightarrow> byte list \<Rightarrow> cint \<Rightarrow> 'k proc \<Rightarrow> 'k icall" where
  "pipe2 K pfds flags = sys_nz K [SP pfds, SAi flags, SA 0, SA 0, SA 0] SYS_PIPE2"

text \<open>\<open>pipe\<close> applies \<open>ERRNO_NZ\<close> to the result of \<open>pipe2\<close>, which has applied it already.\<close>

definition pipe :: "'k kernel \<Rightarrow> byte list \<Rightarrow> 'k proc \<Rightarrow> 'k icall" where
  "pipe K pfds st =
     (case pipe2 K pfds 0 st of (r, as, st1) \<Rightarrow>
      case ERRNO_NZ r st1 of (x, st2) \<Rightarrow> (x, as, st2))"

text \<open>
  The loop of \<open>poll\<close>: a \<open>struct pollfd\<close> is 8 bytes, \<open>fd\<close> (4), \<open>events\<close> (2) and \<open>revents\<close> (2);
  each \<open>revents\<close> is cleared. \<open>None\<close> if the array has fewer than \<open>nfds\<close> entries.
\<close>

fun clear_revents :: "nat \<Rightarrow> byte list \<Rightarrow> byte list option" where
  "clear_revents 0 fds = Some fds"
| "clear_revents (Suc n) fds =
     (if length fds < 8 then None
      else map_option (\<lambda>r. take 6 fds @ [0, 0] @ r) (clear_revents n (drop 8 fds)))"

definition poll :: "'k kernel \<Rightarrow> byte list \<Rightarrow> long \<Rightarrow> cint \<Rightarrow> 'k proc \<Rightarrow> ('k icall) option" where
  "poll K fds nfds timeout st =
     map_option (\<lambda>fds'. sys_neg K [SP fds', SA nfds, SAi timeout, SA 0, SA 0] SYS_POLL st)
       (clear_revents (unat nfds) fds)"

definition pread :: "'k kernel \<Rightarrow> cint \<Rightarrow> sysarg \<Rightarrow> long \<Rightarrow> long \<Rightarrow> 'k proc \<Rightarrow> 'k lcall" where
  "pread K fd dst len off = sys_neg_l K [SAi fd, dst, SA len, SA off, SA 0] SYS_PREAD"

definition pwrite :: "'k kernel \<Rightarrow> cint \<Rightarrow> sysarg \<Rightarrow> long \<Rightarrow> long \<Rightarrow> 'k proc \<Rightarrow> 'k lcall" where
  "pwrite K fd src len off = sys_neg_l K [SAi fd, src, SA len, SA off, SA 0] SYS_PWRITE"

definition read_c :: "'k kernel \<Rightarrow> cint \<Rightarrow> sysarg \<Rightarrow> long \<Rightarrow> 'k proc \<Rightarrow> 'k lcall" where
  "read_c K fd buf c st = widen (sys_neg K [SAi fd, buf, SA c, SA 0, SA 0] SYS_READ st)"

definition reboot :: "'k kernel \<Rightarrow> 'k proc \<Rightarrow> 'k icall" where
  "reboot K = sys_nz K [SA 0, SA 0, SA 0, SA 0, SA 0] SYS_REBOOT"

definition getdents64 :: "'k kernel \<Rightarrow> cint \<Rightarrow> sysarg \<Rightarrow> long \<Rightarrow> 'k proc \<Rightarrow> 'k lcall" where
  "getdents64 K fd dirent cnt = sys_neg_l K [SAi fd, dirent, SA cnt, SA 0, SA 0] SYS_GETDENTS64"

text \<open>\<open>len << 32 | flags\<close>: the \<open>int\<close> flags are sign-extended before the disjunction.\<close>

definition flaglen :: "long \<Rightarrow> cint \<Rightarrow> long" where
  "flaglen len flags = push_bit 32 len OR scast flags"

definition recvfrom ::
  "'k kernel \<Rightarrow> cint \<Rightarrow> sysarg \<Rightarrow> long \<Rightarrow> cint \<Rightarrow> sysarg \<Rightarrow> sysarg \<Rightarrow> 'k proc \<Rightarrow> ('k lcall) outcome"
where
  "recvfrom K fd buf len flags sa salen st =
     (if 2 ^ 32 \<le> len then Errx (- 1) ''len too big''
      else Ret (widen (sys_neg K [SAi fd, buf, SA (flaglen len flags), sa, salen] SYS_RECVFROM st)))"

text \<open>\<open>recv\<close> applies \<open>ERRNO_NEG\<close> to a result to which \<open>recvfrom\<close> has applied it already.\<close>

definition recv ::
  "'k kernel \<Rightarrow> cint \<Rightarrow> sysarg \<Rightarrow> long \<Rightarrow> cint \<Rightarrow> 'k proc \<Rightarrow> ('k lcall) outcome"
where
  "recv K fd buf len flags st =
     bind_out (recvfrom K fd buf len flags NULL NULL st)
       (\<lambda>(r, as, st1). case ERRNO_NEG (ucast r) st1 of (x, st2) \<Rightarrow> Ret (scast x, as, st2))"

definition recvmsg :: "'k kernel \<Rightarrow> cint \<Rightarrow> sysarg \<Rightarrow> cint \<Rightarrow> 'k proc \<Rightarrow> 'k lcall" where
  "recvmsg K fd msg flags = sys_neg_l K [SAi fd, msg, SAi flags, SA 0, SA 0] SYS_RECVMSG"

definition rename :: "'k kernel \<Rightarrow> byte list \<Rightarrow> byte list \<Rightarrow> 'k proc \<Rightarrow> 'k icall" where
  "rename K old new = sys_nz K [SP old, SP new, SA 0, SA 0, SA 0] SYS_RENAME"

definition sendto ::
  "'k kernel \<Rightarrow> cint \<Rightarrow> sysarg \<Rightarrow> long \<Rightarrow> cint \<Rightarrow> sysarg \<Rightarrow> long \<Rightarrow> 'k proc \<Rightarrow> ('k lcall) outcome"
where
  "sendto K fd buf len flags sa slen st =
     (if 2 ^ 32 \<le> len then Errx (- 1) ''len too big''
      else Ret (widen (sys_neg K [SAi fd, buf, SA (flaglen len flags), sa, SA slen] SYS_SENDTO st)))"

definition send ::
  "'k kernel \<Rightarrow> cint \<Rightarrow> sysarg \<Rightarrow> long \<Rightarrow> cint \<Rightarrow> 'k proc \<Rightarrow> ('k lcall) outcome"
where
  "send K fd buf len flags st = sendto K fd buf len flags NULL 0 st"

definition sendmsg :: "'k kernel \<Rightarrow> cint \<Rightarrow> sysarg \<Rightarrow> cint \<Rightarrow> 'k proc \<Rightarrow> 'k lcall" where
  "sendmsg K fd msg flags = sys_neg_l K [SAi fd, msg, SAi flags, SA 0, SA 0] SYS_SENDMSG"

definition setrlimit :: "'k kernel \<Rightarrow> cint \<Rightarrow> sysarg \<Rightarrow> 'k proc \<Rightarrow> 'k icall" where
  "setrlimit K res rlp = sys_neg K [SAi res, rlp, SA 0, SA 0, SA 0] SYS_SETRLIMIT"

definition setsid :: "'k kernel \<Rightarrow> 'k proc \<Rightarrow> 'k lcall" where
  "setsid K st = getpid K (warn ''warning: no sessions or process groups yet'' st)"

text \<open>
  The table \<open>on[]\<close> of option names that \<open>setsockopt\<close> ignores; its last designator is
  \<open>TCP_NODELAY = 20\<close>, so the array has 21 entries, and an index outside it is \<open>None\<close>.
\<close>

definition setsockopt_on :: "cint \<Rightarrow> string option option" where
  "setsockopt_on c =
     (if c <s 0 \<or> 20 <s c then None
      else Some (map_of [(2, ''SO_SNDTIMEO''), (3, ''SO_ERROR''), (4, ''SO_TYPE''), (6, ''SO_REUSEADDR''),
        (7, ''SO_KEEPALIVE''), (8, ''SO_LINGER''), (9, ''SO_SNDLOWAT''), (20, ''TCP_NODELAY'')] c))"

definition setsockopt ::
  "'k kernel \<Rightarrow> cint \<Rightarrow> cint \<Rightarrow> cint \<Rightarrow> sysarg \<Rightarrow> long \<Rightarrow> 'k proc \<Rightarrow> (cint \<times> 'k proc) outcome"
where
  "setsockopt K a b c d e st =
     (case setsockopt_on c of
        None \<Rightarrow> Fault
      | Some (Some name) \<Rightarrow> Ret (0, warn (''warning: setsockopt no-op for '' @ name) (st\<lparr>errno := 0\<rparr>))
      | Some None \<Rightarrow>
          (case sys_neg_l K [SAi a, SAi b, SAi c, d, SA e] SYS_SETSOCKOPT st of
             (r, _, st1) \<Rightarrow> Ret (ucast r, st1)))"

definition sigaction :: "cint \<Rightarrow> sysarg \<Rightarrow> sysarg \<Rightarrow> 'k proc \<Rightarrow> cint \<times> 'k proc" where
  "sigaction sg act oact st = (0, warn ''warning: no signals yet'' st)"

definition readv :: "'k kernel \<Rightarrow> cint \<Rightarrow> sysarg \<Rightarrow> cint \<Rightarrow> 'k proc \<Rightarrow> 'k lcall" where
  "readv K fd iovs niovs = sys_neg_l K [SAi fd, iovs, SAi niovs, SA 0, SA 0] SYS_READV"

definition shutdown :: "'k kernel \<Rightarrow> cint \<Rightarrow> cint \<Rightarrow> 'k proc \<Rightarrow> 'k icall" where
  "shutdown K fd how = sys_nz K [SAi fd, SAi how, SA 0, SA 0, SA 0] SYS_SHUTDOWN"

definition socket :: "'k kernel \<Rightarrow> cint \<Rightarrow> cint \<Rightarrow> cint \<Rightarrow> 'k proc \<Rightarrow> 'k icall" where
  "socket K d type proto = sys_neg K [SAi d, SAi type, SAi proto, SA 0, SA 0] SYS_SOCKET"

definition socketpair :: "'k kernel \<Rightarrow> cint \<Rightarrow> cint \<Rightarrow> cint \<Rightarrow> byte list \<Rightarrow> 'k proc \<Rightarrow> 'k icall" where
  "socketpair K d type proto p = sys_nz K [SAi d, SAi type, SAi proto, SP p, SA 0] SYS_SOCKETPAIR"

definition sync :: "'k kernel \<Rightarrow> 'k proc \<Rightarrow> 'k icall" where
  "sync K = sys_nz K [SA 0, SA 0, SA 0, SA 0, SA 0] SYS_SYNC"

definition sys_prof :: "'k kernel \<Rightarrow> long \<Rightarrow> long \<Rightarrow> long \<Rightarrow> long \<Rightarrow> 'k proc \<Rightarrow> 'k lcall" where
  "sys_prof K ptype events flags intperiod =
     sys_nz_l K [SA ptype, SA events, SA flags, SA intperiod, SA 0] SYS_PROF"

definition sys_info :: "'k kernel \<Rightarrow> long \<Rightarrow> 'k proc \<Rightarrow> 'k lcall" where
  "sys_info K n = sys_neg_l K [SA n, SA 0, SA 0, SA 0, SA 0] SYS_INFO"

definition truncate_c :: "'k kernel \<Rightarrow> byte list \<Rightarrow> long \<Rightarrow> 'k proc \<Rightarrow> 'k icall" where
  "truncate_c K p newlen = sys_nz K [SP p, SA newlen, SA 0, SA 0, SA 0] SYS_TRUNC"

definition s_unlink :: "'k kernel \<Rightarrow> byte list \<Rightarrow> cint \<Rightarrow> 'k proc \<Rightarrow> 'k icall" where
  "s_unlink K path wantdir = sys_nz K [SP path, SAi wantdir, SA 0, SA 0, SA 0] SYS_UNLINK"

definition unlink :: "'k kernel \<Rightarrow> byte list \<Rightarrow> 'k proc \<Rightarrow> 'k icall" where
  "unlink K path = s_unlink K path 0"

definition rmdir :: "'k kernel \<Rightarrow> byte list \<Rightarrow> 'k proc \<Rightarrow> 'k icall" where
  "rmdir K path = s_unlink K path 1"

definition wait :: "'k kernel \<Rightarrow> sysarg \<Rightarrow> 'k proc \<Rightarrow> 'k lcall" where
  "wait K status = sys_neg_l K [SA WAIT_ANY, status, SA 0, SA 0, SA 0] SYS_WAIT4"

definition wait4 :: "'k kernel \<Rightarrow> long \<Rightarrow> sysarg \<Rightarrow> cint \<Rightarrow> sysarg \<Rightarrow> 'k proc \<Rightarrow> 'k lcall" where
  "wait4 K pid status options r = sys_neg_l K [SA pid, status, SAi options, r, SA 0] SYS_WAIT4"

definition waitpid :: "'k kernel \<Rightarrow> long \<Rightarrow> sysarg \<Rightarrow> cint \<Rightarrow> 'k proc \<Rightarrow> 'k lcall" where
  "waitpid K pid status options = wait4 K pid status options NULL"

definition wait3 :: "'k kernel \<Rightarrow> sysarg \<Rightarrow> cint \<Rightarrow> sysarg \<Rightarrow> 'k proc \<Rightarrow> 'k lcall" where
  "wait3 K status options r = sys_neg_l K [SA WAIT_ANY, status, SAi options, r, SA 0] SYS_WAIT4"

definition write_c :: "'k kernel \<Rightarrow> cint \<Rightarrow> sysarg \<Rightarrow> long \<Rightarrow> 'k proc \<Rightarrow> 'k lcall" where
  "write_c K fd buf c st = widen (sys_neg K [SAi fd, buf, SA c, SA 0, SA 0] SYS_WRITE st)"

definition writev :: "'k kernel \<Rightarrow> cint \<Rightarrow> sysarg \<Rightarrow> cint \<Rightarrow> 'k proc \<Rightarrow> 'k lcall" where
  "writev K fd iovs niovs = sys_neg_l K [SAi fd, iovs, SAi niovs, SA 0, SA 0] SYS_WRITEV"

section \<open>The errno discipline\<close>

text \<open>
  The POSIX convention of a call: success is a result other than -1 and leaves \<open>errno\<close> alone,
  failure is -1 and the negated result of the kernel in \<open>errno\<close>.
\<close>

definition errno_ok :: "cint \<Rightarrow> 'k proc \<Rightarrow> 'k proc \<Rightarrow> bool" where
  "errno_ok r st st' \<longleftrightarrow>
     (r \<noteq> - 1 \<and> errno st' = errno st) \<or> (r = - 1 \<and> errno st' \<noteq> 0)"

locale errno_call =
  fixes call :: "'k proc \<Rightarrow> cint \<times> 'b \<times> 'k proc"
  assumes contract: "call st = (r, b, st') \<Longrightarrow> errno_ok r st st'"
    and quiet: "call st = (r, b, st') \<Longrightarrow> diag st' = diag st \<and> arch st' = arch st"
begin

lemma failure_iff: "call st = (r, b, st') \<Longrightarrow> r = - 1 \<Longrightarrow> errno st' \<noteq> 0"
  using contract[of st r b st'] by (auto simp: errno_ok_def)

lemma success_errno: "call st = (r, b, st') \<Longrightarrow> r \<noteq> - 1 \<Longrightarrow> errno st' = errno st"
  using contract[of st r b st'] by (auto simp: errno_ok_def)

end

text \<open>Two such calls in sequence that stop at the first failure form one.\<close>

definition seq_calls ::
  "('k proc \<Rightarrow> cint \<times> 'b \<times> 'k proc) \<Rightarrow> (cint \<Rightarrow> 'k proc \<Rightarrow> cint \<times> 'c \<times> 'k proc) \<Rightarrow> 'k proc \<Rightarrow> cint \<times> 'k proc"
where
  "seq_calls f g st =
     (case f st of (r, _, st1) \<Rightarrow> if r = - 1 then (- 1, st1)
      else case g r st1 of (q, _, st2) \<Rightarrow> if q = - 1 then (- 1, st2) else (r, st2))"

lemma seq_calls_contract:
  assumes "errno_call f" "\<And>r. errno_call (g r)" "seq_calls f g st = (r, st')"
  shows "errno_ok r st st'"
proof -
  obtain r1 b st1 where f: "f st = (r1, b, st1)" by (cases "f st")
  obtain q c st2 where g: "g r1 st1 = (q, c, st2)" by (cases "g r1 st1")
  from errno_call.contract[OF assms(1) f] errno_call.contract[OF assms(2) g] assms(3) show ?thesis
    by (auto simp: seq_calls_def errno_ok_def f g split: if_splits)
qed

lemma syscall_keeps: "syscall K as trap st = (r, as', st') \<Longrightarrow>
  errno st' = errno st \<and> diag st' = diag st \<and> arch st' = arch st"
  by (auto simp: syscall_def syscall6_def Let_def split: prod.splits)

lemma errno_call_sys_nz: "errno_call (sys_nz K as trap)"
  by unfold_locales
    (auto simp: sys_nz_def ERRNO_NZ_def errno_ok_def dest!: syscall_keeps split: prod.splits if_splits)

lemma errno_call_sys_neg: "errno_call (sys_neg K as trap)"
  by unfold_locales
    (auto simp: sys_neg_def ERRNO_NEG_def errno_ok_def dest!: syscall_keeps split: prod.splits if_splits)

interpretation nz: errno_call "sys_nz K as trap" for K as trap
  by (rule errno_call_sys_nz)

interpretation neg: errno_call "sys_neg K as trap" for K as trap
  by (rule errno_call_sys_neg)

text \<open>\<open>errno_of call st\<close>: the call keeps to the convention when it is made in the state \<open>st\<close>.\<close>

definition errno_conv :: "'k proc \<Rightarrow> ('k proc \<Rightarrow> 'k icall) \<Rightarrow> bool" where
  "errno_conv st call = (case call st of (r, _, st') \<Rightarrow> errno_ok r st st')"

lemma errno_conv_nz: "errno_conv st (sys_nz K as trap)"
  unfolding errno_conv_def using nz.contract by (auto split: prod.split)

lemma errno_conv_neg: "errno_conv st (sys_neg K as trap)"
  unfolding errno_conv_def using neg.contract by (auto split: prod.split)

lemma dup_seq:
  "dup K o1 = seq_calls (open_c K (lit ''/'') (O_RDONLY OR O_DIRECTORY) 0) (\<lambda>fd. dup2 K o1 fd)"
  by (rule ext) (simp add: dup_def seq_calls_def)

section \<open>Properties\<close>


text \<open>
  \<open>pipe\<close> and \<open>recv\<close> lose the error code. When the call they delegate to fails, they apply the
  errno macro once more to its -1: the caller sees \<open>errno = 1\<close> whatever the kernel reported.
\<close>

theorem pipe_recv_lose_errno:
  assumes "pipe2 K pfds 0 st = (r, as, st1)" "r \<noteq> 0"
    and "recvfrom K fd buf len flags NULL NULL st = Ret (q, as', st2)" "q <s 0"
  shows "pipe K pfds st = (- 1, as, st1\<lparr>errno := 1\<rparr>) \<and>
    recv K fd buf len flags st = Ret (- 1, as', st2\<lparr>errno := 1\<rparr>)"
proof -
  have "r = - 1" using assms(1,2)
    by (auto simp: pipe2_def sys_nz_def ERRNO_NZ_def split: prod.splits if_splits)
  moreover have "q = - 1" using assms(3,4)
    by (auto simp: recvfrom_def widen_def sys_neg_def ERRNO_NEG_def split: prod.splits if_splits)
  ultimately show ?thesis using assms(1,3)
    by (simp add: pipe_def recv_def ERRNO_NZ_def ERRNO_NEG_def)
qed

text \<open>A kernel that answers every call with \<open>-EMFILE\<close>, and a fresh process.\<close>

definition emfile_kernel :: "unit kernel" where
  "emfile_kernel trap as k = (- 24, as, k)"

definition proc0 :: "arch \<Rightarrow> unit proc" where
  "proc0 a = \<lparr>errno = 0, kern = (), diag = [], arch = a\<rparr>"

theorem pipe_recv_lose_errno_witness:
  "pipe emfile_kernel [0, 0, 0, 0] (proc0 AArch64) =
     (- 1, [SP [0, 0, 0, 0], SA 0, SA 0, SA 0, SA 0, SA 0], (proc0 AArch64)\<lparr>errno := 24\<rparr>\<lparr>errno := 1\<rparr>) \<and>
   recv emfile_kernel 3 (SP [0]) 1 0 (proc0 AArch64) =
     Ret (- 1, [SA 3, SP [0], SA 0x100000000, SA 0, SA 0, SA 0], (proc0 AArch64)\<lparr>errno := 24\<rparr>\<lparr>errno := 1\<rparr>)"
  by (rule pipe_recv_lose_errno[of _ _ _ "- 1" _ _ _ _ _ _ "- 1"]; code_simp)

text \<open>
  on x86-64 no call passes its fourth argument: the kernel is given the stack pointer in its
  place. So the result of \<open>mmap\<close> does not depend on the flags it is asked for, that of \<open>wait4\<close> not on
  its \<open>rusage\<close> pointer, and that of \<open>pread\<close> not on the offset.
\<close>

theorem x86_fourth_argument:
  assumes "arch st = X86_64 rsp"
  shows "mmap K addr len prot flags fd off st = mmap K addr len prot flags' fd off st \<and>
    wait4 K pid status options r st = wait4 K pid status options r' st \<and>
    pread K fd dst len off st = pread K fd dst len off' st"
  using assms
  by (simp add: mmap_def wait4_def pread_def sys_neg_l_def syscall_def syscall6_def)

theorem x86_fourth_argument_witness:
  "mmap emfile_kernel 0 4096 3 (MAP_ANON OR MAP_PRIVATE) (- 1) 0 (proc0 (X86_64 7)) =
   mmap emfile_kernel 0 4096 3 0 (- 1) 0 (proc0 (X86_64 7))"
  using x86_fourth_argument[of "proc0 (X86_64 7)" 7 emfile_kernel] by (simp add: proc0_def)

text \<open>
  \<open>lseek\<close> keeps 32 bits of the offset. For every offset that the kernel returns, the caller sees
  the signed low half of it, and -1 with a meaningless \<open>errno\<close> when that half is negative; offsets
  below 2 GiB are returned exactly.
\<close>

theorem lseek_truncates:
  assumes "syscall K [SAi fd, SA off, SAi whence, SA 0, SA 0] SYS_LSEEK st = (r, as, st1)"
  shows "lseek K fd off whence st =
    (if (ucast r :: cint) <s 0 then (- 1, as, st1\<lparr>errno := - ucast r\<rparr>)
     else (ucast (ucast r :: cint), as, st1)) \<and>
    (unat r < 2 ^ 31 \<longrightarrow> lseek K fd off whence st = (r, as, st1))"
  using assms scast_nonneg ucast_small_nonneg[of r] scast_ucast_small[of r]
  by (auto simp: lseek_def widen_def sys_neg_def ERRNO_NEG_def)

text \<open>A kernel that answers every call with the same number.\<close>

definition const_kernel :: "long \<Rightarrow> unit kernel" where
  "const_kernel r trap as k = (r, as, k)"

theorem lseek_truncates_witness:
  "lseek (const_kernel 0x80000000) 3 0 1 (proc0 AArch64) =
     (- 1, [SA 3, SA 0, SA 1, SA 0, SA 0, SA 0], (proc0 AArch64)\<lparr>errno := 0x80000000\<rparr>)"
proof -
  have "syscall (const_kernel 0x80000000) [SAi 3, SA 0, SAi 1, SA 0, SA 0] SYS_LSEEK (proc0 AArch64) =
      (0x80000000, [SA 3, SA 0, SA 1, SA 0, SA 0, SA 0], proc0 AArch64)" by code_simp
  moreover have "(ucast (0x80000000 :: long) :: cint) <s 0" by code_simp
  ultimately show ?thesis using lseek_truncates[of "const_kernel 0x80000000" 3 0 1] by simp
qed

text \<open>
  device numbers. \<open>MAJOR\<close> and \<open>MINOR\<close> recover the parts that \<open>MKDEV\<close> packs, for majors of 24 bits
  and minors of 8 bits.
\<close>

theorem mkdev_roundtrip:
  assumes "x < 2 ^ 24" "y < 2 ^ 8"
  shows "MAJOR (MKDEV x y) = x \<and> MINOR (MKDEV x y) = y"
proof -
  have x: "take_bit 24 x = x" and y: "take_bit 8 y = y"
    using assms by (simp_all add: take_bit_eq_mod mod_word_less)
  have bx: "bit x n \<Longrightarrow> n < 24" and "bit y n \<Longrightarrow> n < 8" for n
    using x y by (metis bit_take_bit_iff)+
  have "bit (MAJOR (MKDEV x y)) n = bit x n" for n
    using bx[of n] \<open>\<And>n. bit y n \<Longrightarrow> n < 8\<close>[of "8 + n"]
    by (auto simp: MAJOR_def MKDEV_def bit_simps)
  moreover have m: "(0xff :: long) = mask 8" by (simp add: mask_eq_exp_minus_1)
  have "bit (MINOR (MKDEV x y)) n = bit y n" for n
    using \<open>\<And>n. bit y n \<Longrightarrow> n < 8\<close>[of n]
    unfolding MINOR_def MKDEV_def m by (auto simp: bit_simps)
  ultimately show ?thesis by (simp add: bit_eq_iff)
qed

theorem mkdev_roundtrip_witness: "MAJOR (MKDEV 5 3) = 5 \<and> MINOR (MKDEV 5 3) = 3"
  by (rule mkdev_roundtrip) simp_all

end
