(* ===== verification/Litc_Malloc.thy ===== *)
theory Litc_Malloc
  imports Litc_Sys Litc_Mem
begin

unbundle bit_operations_syntax

text \<open>
  The allocator of \<open>litc.c\<close> (lines 3440 to 3625): segments obtained from \<open>mmap\<close>, each with a
  \<open>struct header_t\<close> at its start, kept on a doubly linked list from \<open>allh\<close>; blocks are cut from the
  current segment \<open>curh\<close> by advancing \<open>bump\<close>, and a segment is returned with \<open>munmap\<close> when its last
  block is freed.

  Addresses are 64-bit words. The headers are a store from addresses to records, so that the
  pointers \<open>next\<close> and \<open>prev\<close> are followed and updated as in the code; a header that is not in the
  store is a fault. The bytes of the blocks are the function \<open>ram\<close>.
\<close>

section \<open>State\<close>

record header_t =
  h_start :: long
  h_end :: long
  objs :: long
  maxsz :: long
  h_next :: long
  h_prev :: long

type_synonym hstore = "long \<Rightarrow> header_t option"

record 'k mstate =
  mproc :: "'k proc"
  hdrs :: hstore
  allh :: long
  curh :: long
  bump :: long
  biglock :: long
  dolock :: bool
  ram :: "long \<Rightarrow> byte"

definition set_errno :: "cint \<Rightarrow> 'k mstate \<Rightarrow> 'k mstate" where
  "set_errno e st = st\<lparr>mproc := (mproc st)\<lparr>errno := e\<rparr>\<rparr>"

text \<open>Read and write a header through a pointer.\<close>

definition hdr :: "long \<Rightarrow> 'k mstate \<Rightarrow> header_t outcome" where
  "hdr p st = (case hdrs st p of None \<Rightarrow> Fault | Some x \<Rightarrow> Ret x)"

definition upd_hdr :: "long \<Rightarrow> (header_t \<Rightarrow> header_t) \<Rightarrow> 'k mstate \<Rightarrow> ('k mstate) outcome" where
  "upd_hdr p f st =
     (case hdrs st p of None \<Rightarrow> Fault | Some x \<Rightarrow> Ret (st\<lparr>hdrs := (hdrs st)(p \<mapsto> f x)\<rparr>))"

text \<open>What \<open>memset\<close> and \<open>memmove\<close> do to the flat memory.\<close>

definition ram_fill :: "long \<Rightarrow> nat \<Rightarrow> byte \<Rightarrow> (long \<Rightarrow> byte) \<Rightarrow> long \<Rightarrow> byte" where
  "ram_fill a n v r = (\<lambda>x. if unat (x - a) < n then v else r x)"

definition ram_move :: "long \<Rightarrow> long \<Rightarrow> nat \<Rightarrow> (long \<Rightarrow> byte) \<Rightarrow> long \<Rightarrow> byte" where
  "ram_move d s n r = (\<lambda>x. if unat (x - d) < n then r (s + (x - d)) else r x)"

section \<open>The lock\<close>

text \<open>\<open>acquire\<close> spins while another thread holds the lock.\<close>

definition acquire :: "'k mstate \<Rightarrow> ('k mstate) outcome" where
  "acquire st =
     (if \<not> dolock st then Ret st
      else if biglock st \<noteq> 0 then Block
      else Ret (st\<lparr>biglock := 1\<rparr>))"

definition release :: "'k mstate \<Rightarrow> 'k mstate" where
  "release st = st\<lparr>biglock := 0\<rparr>"

section \<open>The operations\<close>

definition s_free_header :: "'k kernel \<Rightarrow> long \<Rightarrow> 'k mstate \<Rightarrow> ('k mstate) outcome" where
  "s_free_header K ch st =
     bind_out (hdr ch st) (\<lambda>x.
     bind_out (if h_prev x \<noteq> 0 then upd_hdr (h_prev x) (\<lambda>y. y\<lparr>h_next := h_next x\<rparr>) st
               else Ret (st\<lparr>allh := h_next x\<rparr>)) (\<lambda>st1.
     bind_out (hdr ch st1) (\<lambda>x1.
     bind_out (if h_next x1 \<noteq> 0 then upd_hdr (h_next x1) (\<lambda>y. y\<lparr>h_prev := h_prev x1\<rparr>) st1
               else Ret st1) (\<lambda>st2.
     bind_out (hdr ch st2) (\<lambda>x2.
       case munmap K (h_start x2) (h_end x2 - h_start x2) (mproc st2) of (r, _, p') \<Rightarrow>
         if r <s 0 then Errx r ''munmap''
         else Ret (st2\<lparr>mproc := p', hdrs := (hdrs st2)(ch := None)\<rparr>))))))"

definition HDRSZ :: long where "HDRSZ = 48"

text \<open>The segment size for a block of \<open>sz\<close> bytes, \<open>pgsize\<close> being 4096.\<close>

definition mmap_size :: "long \<Rightarrow> long" where
  "mmap_size sz = (sz + HDRSZ + 4096 - 1) AND NOT (4096 - 1)"

definition new_segment :: "'k kernel \<Rightarrow> long \<Rightarrow> 'k mstate \<Rightarrow> (bool \<times> 'k mstate) outcome" where
  "new_segment K sz st =
     bind_out (if curh st \<noteq> 0 then
                 bind_out (hdr (curh st) st) (\<lambda>c.
                   if objs c = 0
                   then bind_out (s_free_header K (curh st) st) (\<lambda>s. Ret (s\<lparr>curh := 0\<rparr>))
                   else Ret st)
               else Ret st) (\<lambda>st1.
       if mmap_size sz < sz then Ret (False, set_errno EOVERFLOW st1)
       else case mmap K 0 (mmap_size sz) (PROT_READ OR PROT_WRITE) (MAP_ANON OR MAP_PRIVATE) (- 1) 0
              (mproc st1) of (nh, p') \<Rightarrow>
         (let st2 = st1\<lparr>mproc := p'\<rparr> in
          if nh = MAP_FAILED then Ret (False, set_errno ENOMEM st2)
          else
            (let h = \<lparr>h_start = nh, h_end = nh + mmap_size sz, objs = 0, maxsz = 0,
                      h_next = allh st2, h_prev = 0\<rparr>;
                 st3 = st2\<lparr>hdrs := (hdrs st2)(nh \<mapsto> h)\<rparr>
             in bind_out (if h_next h \<noteq> 0 then upd_hdr (h_next h) (\<lambda>y. y\<lparr>h_prev := nh\<rparr>) st3 else Ret st3)
                  (\<lambda>st4. Ret (True, st4\<lparr>allh := nh, curh := nh, bump := nh + HDRSZ\<rparr>)))))"

definition need_segment :: "long \<Rightarrow> 'k mstate \<Rightarrow> bool outcome" where
  "need_segment sz st =
     (if curh st \<noteq> 0 then bind_out (hdr (curh st) st) (\<lambda>c. Ret (sz > h_end c - bump st)) else Ret True)"

definition round8 :: "long \<Rightarrow> long" where
  "round8 sz = (sz + 7) AND NOT 7"

text \<open>The result is the address, 0 for \<open>NULL\<close>.\<close>

definition s_malloc :: "'k kernel \<Rightarrow> long \<Rightarrow> 'k mstate \<Rightarrow> (long \<times> 'k mstate) outcome" where
  "s_malloc K sz0 st =
     (let sz = round8 sz0 in
      bind_out (need_segment sz st) (\<lambda>newhdr.
      bind_out (if newhdr then new_segment K sz st else Ret (True, st)) (\<lambda>(ok, st1).
        if \<not> ok then Ret (0, st1)
        else bind_out (upd_hdr (curh st1) (\<lambda>c. c\<lparr>objs := objs c + 1, maxsz := max (maxsz c) sz\<rparr>) st1)
          (\<lambda>st2. Ret (bump st2, st2\<lparr>bump := bump st2 + sz\<rparr>)))))"

definition ZEROPTR :: long where "ZEROPTR = 1"

definition malloc :: "'k kernel \<Rightarrow> long \<Rightarrow> 'k mstate \<Rightarrow> (long \<times> 'k mstate) outcome" where
  "malloc K sz st =
     (if sz = 0 then Ret (ZEROPTR, st)
      else bind_out (acquire st) (\<lambda>st1.
           bind_out (s_malloc K sz st1) (\<lambda>(r, st2). Ret (r, release st2))))"

definition calloc :: "'k kernel \<Rightarrow> long \<Rightarrow> long \<Rightarrow> 'k mstate \<Rightarrow> (long \<times> 'k mstate) outcome" where
  "calloc K n sz st =
     (if n = 0 \<or> sz = 0 then Ret (ZEROPTR, st)
      else if n > (- 1) div sz then Ret (0, set_errno EOVERFLOW st)
      else bind_out (malloc K (sz * n) st) (\<lambda>(r, st1).
        if r = 0 then Ret (0, st1)
        else Ret (r, st1\<lparr>ram := ram_fill r (unat (sz * n)) 0 (ram st1)\<rparr>)))"

text \<open>
  \<open>_findseg\<close> walks the list. \<open>None\<close> is a pointer to no header or a list that never ends;
  \<open>Some 0\<close> is \<open>NULL\<close>.
\<close>

partial_function (option) s_findseg :: "hstore \<Rightarrow> long \<Rightarrow> long \<Rightarrow> long option" where
  "s_findseg h p ch =
     (if ch = 0 then Some 0
      else case h ch of
        None \<Rightarrow> None
      | Some x \<Rightarrow> if h_start x \<le> p \<and> h_end x > p then Some ch else s_findseg h p (h_next x))"

definition findseg :: "long \<Rightarrow> 'k mstate \<Rightarrow> long outcome" where
  "findseg p st = (case s_findseg (hdrs st) p (allh st) of None \<Rightarrow> Fault | Some ch \<Rightarrow> Ret ch)"

definition s_free :: "'k kernel \<Rightarrow> long \<Rightarrow> 'k mstate \<Rightarrow> ('k mstate) outcome" where
  "s_free K pp st =
     bind_out (findseg pp st) (\<lambda>ch.
       if ch = 0 then Errx (- 1) ''free: bad pointer''
       else bind_out (upd_hdr ch (\<lambda>x. x\<lparr>objs := objs x - 1\<rparr>) st) (\<lambda>st1.
            bind_out (hdr ch st1) (\<lambda>x.
              if objs x = 0 \<and> ch \<noteq> curh st1 then s_free_header K ch st1 else Ret st1)))"

definition free :: "'k kernel \<Rightarrow> long \<Rightarrow> 'k mstate \<Rightarrow> ('k mstate) outcome" where
  "free K pp st =
     bind_out (acquire st) (\<lambda>st1. bind_out (s_free K pp st1) (\<lambda>st2. Ret (release st2)))"

definition realloc :: "'k kernel \<Rightarrow> long \<Rightarrow> long \<Rightarrow> 'k mstate \<Rightarrow> (long \<times> 'k mstate) outcome" where
  "realloc K old nsz st =
     (if old = 0 then malloc K nsz st
      else bind_out (acquire st) (\<lambda>st1.
           bind_out (findseg old st1) (\<lambda>ch.
           bind_out (hdr ch st1) (\<lambda>x.
             let oldsz = min (maxsz x) (h_end x - old) in
             bind_out (s_malloc K nsz st1) (\<lambda>(r, st2).
               if r = 0 then Ret (0, release st2)
               else bind_out (s_free K old (st2\<lparr>ram := ram_move r old (unat (min oldsz nsz)) (ram st2)\<rparr>))
                 (\<lambda>st3. Ret (r, release st3)))))))"

section \<open>The kernel's promise\<close>

text \<open>
  What the allocator relies on. \<open>maps\<close> reads off a state of the kernel the address ranges that are
  mapped: an anonymous \<open>mmap\<close> fails with an error number, or returns a range that does not wrap and
  overlaps none of the mapped ones; \<open>munmap\<close> of a mapped range succeeds and removes it.
\<close>

definition is_err :: "long \<Rightarrow> bool" where
  "is_err r \<longleftrightarrow> r <s 0 \<and> ERRNO_FIRST \<le>s - r \<and> - r \<le>s ERRNO_LAST"

definition fresh_range :: "(long \<times> long) set \<Rightarrow> long \<Rightarrow> long \<Rightarrow> bool" where
  "fresh_range M r len \<longleftrightarrow> r \<noteq> 0 \<and> unat r + unat len < 2 ^ 64 \<and>
     (\<forall>(a, l) \<in> M. unat r + unat len \<le> unat a \<or> unat a + unat l \<le> unat r)"

definition mm_kernel :: "'k kernel \<Rightarrow> ('k \<Rightarrow> (long \<times> long) set) \<Rightarrow> bool" where
  "mm_kernel K maps \<longleftrightarrow>
     (\<forall>len pr fl fd off k r as k'.
        K SYS_MMAP [SA 0, SA len, pr, fl, fd, off] k = (r, as, k') \<longrightarrow>
          (if is_err r then maps k' = maps k
           else fresh_range (maps k) r len \<and> maps k' = insert (r, len) (maps k))) \<and>
     (\<forall>a len w k r as k'.
        K SYS_MUNMAP [SA a, SA len, SA 0, w, SA 0, SA 0] k = (r, as, k') \<longrightarrow> (a, len) \<in> maps k \<longrightarrow>
          r = 0 \<and> maps k' = maps k - {(a, len)})"

lemma mmap_spec:
  assumes "mm_kernel K maps" "mmap K 0 len prot fl fd off p = (a, p')"
  shows "if a = MAP_FAILED then maps (kern p') = maps (kern p)
    else fresh_range (maps (kern p)) a len \<and> maps (kern p') = insert (a, len) (maps (kern p))"
proof -
  define w where "w = (case arch p of X86_64 rsp \<Rightarrow> SA rsp | AArch64 \<Rightarrow> SAi fl)"
  obtain r as k' where K: "K SYS_MMAP [SA 0, SA len, SAi prot, w, SAi fd, SA off] (kern p) = (r, as, k')"
    by (metis prod_cases3)
  have s: "syscall6 K [SA 0, SA len, SAi prot, SAi fl, SAi fd, SA off] SYS_MMAP p = (r, as, p\<lparr>kern := k'\<rparr>)"
    using K by (cases "arch p") (simp_all add: syscall6_def w_def)
  have "a = (if is_err r then MAP_FAILED else r)" "kern p' = k'"
    using assms(2) unfolding mmap_def s by (auto simp: is_err_def split: if_splits)
  moreover have "is_err MAP_FAILED" by code_simp
  moreover from assms(1) K
  have "if is_err r then maps k' = maps (kern p)
    else fresh_range (maps (kern p)) r len \<and> maps k' = insert (r, len) (maps (kern p))"
    unfolding mm_kernel_def by blast
  ultimately show ?thesis by (auto split: if_splits)
qed

lemma munmap_spec:
  assumes "mm_kernel K maps" "munmap K a len p = (r, as, p')" "(a, len) \<in> maps (kern p)"
  shows "r = 0 \<and> maps (kern p') = maps (kern p) - {(a, len)}"
proof -
  define w where "w = (case arch p of X86_64 rsp \<Rightarrow> SA rsp | AArch64 \<Rightarrow> SA 0)"
  obtain q bs k' where K: "K SYS_MUNMAP [SA a, SA len, SA 0, w, SA 0, SA 0] (kern p) = (q, bs, k')"
    by (metis prod_cases3)
  have s: "syscall K [SA a, SA len, SA 0, SA 0, SA 0] SYS_MUNMAP p = (q, bs, p\<lparr>kern := k'\<rparr>)"
    using K by (cases "arch p") (simp_all add: syscall_def syscall6_def w_def)
  from assms(1) K assms(3) have "q = 0" "maps k' = maps (kern p) - {(a, len)}"
    unfolding mm_kernel_def by blast+
  moreover have "r = 0" "p' = p\<lparr>kern := k'\<rparr>"
    using assms(2) \<open>q = 0\<close> unfolding munmap_def sys_nz_def s by (simp_all add: ERRNO_NZ_def)
  ultimately show ?thesis by simp
qed

section \<open>The list of segments\<close>

text \<open>A doubly linked path from \<open>p\<close> to \<open>q\<close> through the headers \<open>as\<close>, entered from \<open>pr\<close>.\<close>

fun dls :: "hstore \<Rightarrow> long \<Rightarrow> long \<Rightarrow> long list \<Rightarrow> long \<Rightarrow> bool" where
  "dls h pr p [] q \<longleftrightarrow> p = q"
| "dls h pr p (a # as) q \<longleftrightarrow> p = a \<and> a \<noteq> 0 \<and>
     (case h a of None \<Rightarrow> False | Some x \<Rightarrow> h_prev x = pr \<and> dls h a (h_next x) as q)"

lemma dls_frame: "b \<notin> set as \<Longrightarrow> dls (h(b := y)) pr p as q = dls h pr p as q"
  by (induction as arbitrary: pr p) (auto split: option.split)

lemma dls_append:
  "dls h pr p (xs @ ys) q \<longleftrightarrow> (\<exists>m. dls h pr p xs m \<and> dls h (last (pr # xs)) m ys q)"
  by (induction xs arbitrary: pr p) (auto split: option.split)

lemma dls_nonzero: "dls h pr p as q \<Longrightarrow> 0 \<notin> set as"
  by (induction as arbitrary: pr p) (auto split: option.splits)

lemma dls_set_last:
  assumes "dls h pr p (zs @ [b]) q" "b \<notin> set zs" "h b = Some y"
  shows "dls (h(b \<mapsto> y\<lparr>h_next := n\<rparr>)) pr p (zs @ [b]) n"
  using assms by (auto simp: dls_append dls_frame)

lemma dls_set_first:
  assumes "dls h pr p (c # ws) q" "c \<notin> set ws" "h c = Some y"
  shows "dls (h(c \<mapsto> y\<lparr>h_prev := pr'\<rparr>)) pr' p (c # ws) q"
  using assms by (simp add: dls_frame)

text \<open>The well-formed store: the list, its addresses, and \<open>start\<close> naming the header itself.\<close>

definition links :: "'k mstate \<Rightarrow> long list \<Rightarrow> bool" where
  "links st hs \<longleftrightarrow> dls (hdrs st) 0 (allh st) hs 0 \<and> distinct hs \<and> dom (hdrs st) = set hs \<and>
     (\<forall>a x. hdrs st a = Some x \<longrightarrow> h_start x = a)"

text \<open>What a header says apart from its links.\<close>

definition pay :: "'k mstate \<Rightarrow> long \<Rightarrow> (long \<times> long \<times> long) option" where
  "pay st a = map_option (\<lambda>x. (h_end x, objs x, maxsz x)) (hdrs st a)"

text \<open>The two pointer updates that take a header out of the list.\<close>

lemma unlink_dls:
  assumes "dls h 0 p (xs @ a # ys) 0" "distinct (xs @ a # ys)" "h a = Some x"
  defines "h1 \<equiv> if h_prev x \<noteq> 0 then h(h_prev x \<mapsto> (the (h (h_prev x)))\<lparr>h_next := h_next x\<rparr>) else h"
  defines "h2 \<equiv> if h_next x \<noteq> 0 then h1(h_next x \<mapsto> (the (h1 (h_next x)))\<lparr>h_prev := h_prev x\<rparr>) else h1"
  defines "p' \<equiv> if h_prev x \<noteq> 0 then p else h_next x"
  shows "(h_prev x \<noteq> 0 \<longrightarrow> h_prev x \<in> set xs \<and> h (h_prev x) \<noteq> None) \<and> h1 a = Some x \<and>
    (h_next x \<noteq> 0 \<longrightarrow> h_next x \<in> set ys \<and> h1 (h_next x) \<noteq> None) \<and> h2 a = Some x \<and>
    dls h2 0 p' (xs @ ys) 0"
proof -
  have nz: "0 \<notin> set (xs @ a # ys)" using dls_nonzero[OF assms(1)] .
  from assms(1,3) have pre: "dls h 0 p xs a" and pv: "h_prev x = last (0 # xs)"
    and post: "dls h a (h_next x) ys 0" by (auto simp: dls_append)
  have "dls h1 0 p' xs (h_next x) \<and> dls h1 a (h_next x) ys 0 \<and>
    h1 a = Some x \<and> (h_prev x \<noteq> 0 \<longrightarrow> h_prev x \<in> set xs \<and> h (h_prev x) \<noteq> None)"
  proof (cases xs rule: rev_cases)
    case Nil
    then show ?thesis using pre pv post assms(3) by (simp add: h1_def p'_def)
  next
    case (snoc zs b)
    then obtain y where y: "h b = Some y" using pre by (auto simp: dls_append split: option.splits)
    have "b \<noteq> 0" "h_prev x = b" "b \<notin> set ys" "b \<noteq> a" using snoc nz pv assms(2) by auto
    with y snoc show ?thesis
      using pre post assms(2,3) dls_set_last[of h 0 p zs b a y "h_next x"]
      by (simp add: h1_def p'_def dls_frame)
  qed
  then have h1: "dls h1 0 p' xs (h_next x)" "dls h1 a (h_next x) ys 0" "h1 a = Some x"
    "h_prev x \<noteq> 0 \<longrightarrow> h_prev x \<in> set xs \<and> h (h_prev x) \<noteq> None" by blast+
  show ?thesis
  proof (cases ys)
    case Nil
    with h1 post show ?thesis by (simp add: h2_def)
  next
    case (Cons c ws)
    with h1(2) obtain y where y: "h1 c = Some y" "h_next x = c" by (auto split: option.splits)
    have c: "c \<noteq> 0" "c \<noteq> a" "c \<notin> set xs" "c \<notin> set ws" using Cons nz assms(2) by auto
    then have h2: "h2 = h1(c \<mapsto> y\<lparr>h_prev := h_prev x\<rparr>)" using y by (simp add: h2_def)
    have "dls h2 (h_prev x) c ys 0"
      using dls_set_first[of h1 a c c ws 0 y "h_prev x"] h1(2) y Cons c by (simp add: h2)
    moreover have "dls h2 0 p' xs c"
      using h1(1) y c by (simp add: dls_frame h2)
    ultimately have "dls h2 0 p' (xs @ ys) 0" by (auto simp: dls_append pv)
    then show ?thesis using h1(3,4) y c Cons by (simp add: h2)
  qed
qed

lemma links_remove:
  assumes "links st hs" "hdrs st ch = Some x"
  defines "st1 \<equiv> (if h_prev x \<noteq> 0 then st\<lparr>hdrs := (hdrs st)(h_prev x \<mapsto> (the (hdrs st (h_prev x)))\<lparr>h_next := h_next x\<rparr>)\<rparr>
    else st\<lparr>allh := h_next x\<rparr>)"
  defines "st2 \<equiv> (if h_next x \<noteq> 0 then st1\<lparr>hdrs := (hdrs st1)(h_next x \<mapsto> (the (hdrs st1 (h_next x)))\<lparr>h_prev := h_prev x\<rparr>)\<rparr>
    else st1)"
  shows "(h_prev x \<noteq> 0 \<longrightarrow> hdrs st (h_prev x) \<noteq> None) \<and> hdrs st1 ch = Some x \<and>
    (h_next x \<noteq> 0 \<longrightarrow> hdrs st1 (h_next x) \<noteq> None) \<and> hdrs st2 ch = Some x \<and>
    links (st2\<lparr>mproc := p', hdrs := (hdrs st2)(ch := None)\<rparr>) (remove1 ch hs) \<and>
    pay (st2\<lparr>mproc := p', hdrs := (hdrs st2)(ch := None)\<rparr>) = (pay st)(ch := None) \<and>
    mproc st2 = mproc st \<and> h_start x = ch"
proof -
  from assms(1,2) have "ch \<in> set hs" and start: "h_start x = ch" by (auto simp: links_def)
  then obtain xs ys where hs: "hs = xs @ ch # ys" by (meson split_list)
  with assms(1) have d: "dls (hdrs st) 0 (allh st) (xs @ ch # ys) 0" "distinct (xs @ ch # ys)"
    by (simp_all add: links_def)
  have h1: "hdrs st1 = (if h_prev x \<noteq> 0 then (hdrs st)(h_prev x \<mapsto> (the (hdrs st (h_prev x)))\<lparr>h_next := h_next x\<rparr>) else hdrs st)"
    and a1: "allh st1 = (if h_prev x \<noteq> 0 then allh st else h_next x)" by (simp_all add: st1_def)
  have h2: "hdrs st2 = (if h_next x \<noteq> 0 then (hdrs st1)(h_next x \<mapsto> (the (hdrs st1 (h_next x)))\<lparr>h_prev := h_prev x\<rparr>) else hdrs st1)"
    and a2: "allh st2 = allh st1" by (simp_all add: st2_def)
  note u = unlink_dls[OF d assms(2), folded h1, folded h2, folded a1]
  have dls2: "dls ((hdrs st2)(ch := None)) 0 (allh st2) (xs @ ys) 0"
    using u a2 d(2) by (simp add: dls_frame)
  have rem: "remove1 ch hs = xs @ ys" using hs d(2) by (simp add: remove1_append)
  have dom2: "dom (hdrs st2) = dom (hdrs st)"
    using u by (auto simp: h2 h1 dom_def split: if_splits)
  have pay2: "pay st2 = pay st"
    using u by (auto simp: pay_def h2 h1 fun_eq_iff split: if_splits)
  have st2: "h_start y = a" if "hdrs st2 a = Some y" for a y
    using that assms(1) u start d(2) by (auto simp: h2 h1 links_def split: if_splits)
  have "links (st2\<lparr>mproc := p', hdrs := (hdrs st2)(ch := None)\<rparr>) (xs @ ys)"
    using dls2 dom2 st2 assms(1) hs d(2) by (auto simp: links_def split: if_splits)
  moreover have "pay (st2\<lparr>mproc := p', hdrs := (hdrs st2)(ch := None)\<rparr>) = (pay st)(ch := None)"
    using pay2 by (auto simp: pay_def fun_eq_iff)
  ultimately show ?thesis using u start rem by (simp add: st2_def st1_def)
qed

lemma s_free_header_spec:
  assumes "mm_kernel K maps" "links st hs" "pay st ch = Some (e, ob, m)"
    and "(ch, e - ch) \<in> maps (kern (mproc st))"
  obtains st' where "s_free_header K ch st = Ret st'" "links st' (remove1 ch hs)"
    "pay st' = (pay st)(ch := None)"
    "maps (kern (mproc st')) = maps (kern (mproc st)) - {(ch, e - ch)}"
    "curh st' = curh st" "bump st' = bump st" "biglock st' = biglock st" "dolock st' = dolock st"
    "ram st' = ram st"
proof -
  from assms(3) obtain x where x: "hdrs st ch = Some x" "h_end x = e" by (auto simp: pay_def)
  define st1 where "st1 = (if h_prev x \<noteq> 0 then st\<lparr>hdrs := (hdrs st)(h_prev x \<mapsto> (the (hdrs st (h_prev x)))\<lparr>h_next := h_next x\<rparr>)\<rparr>
    else st\<lparr>allh := h_next x\<rparr>)"
  define st2 where "st2 = (if h_next x \<noteq> 0 then st1\<lparr>hdrs := (hdrs st1)(h_next x \<mapsto> (the (hdrs st1 (h_next x)))\<lparr>h_prev := h_prev x\<rparr>)\<rparr>
    else st1)"
  obtain r as p' where mu: "munmap K ch (e - ch) (mproc st) = (r, as, p')" by (metis prod_cases3)
  from munmap_spec[OF assms(1) mu assms(4)] have r: "r = 0"
    "maps (kern p') = maps (kern (mproc st)) - {(ch, e - ch)}" by auto
  note L = links_remove[OF assms(2) x(1), folded st1_def, folded st2_def, of p']
  let ?st = "st2\<lparr>mproc := p', hdrs := (hdrs st2)(ch := None)\<rparr>"
  have 1: "(if h_prev x \<noteq> 0 then upd_hdr (h_prev x) (\<lambda>y. y\<lparr>h_next := h_next x\<rparr>) st
      else Ret (st\<lparr>allh := h_next x\<rparr>)) = Ret st1"
    using L by (auto simp: upd_hdr_def st1_def)
  have 2: "(if h_next x \<noteq> 0 then upd_hdr (h_next x) (\<lambda>y. y\<lparr>h_prev := h_prev x\<rparr>) st1 else Ret st1) = Ret st2"
    using L by (auto simp: upd_hdr_def st2_def)
  have "s_free_header K ch st = Ret ?st"
    unfolding s_free_header_def hdr_def using L x mu r(1) by (simp add: 1 2)
  then show thesis
    using L r(2) by (intro that[of ?st]) (simp_all add: st2_def st1_def)
qed

section \<open>The allocator's invariant\<close>

text \<open>
  Over the segments (end, number of objects, largest block), the mapped ranges, the current segment
  and its \<open>bump\<close> pointer, and the blocks in use (\<open>live\<close>: address to size). \<open>lim\<close> is the end of the
  used part of a segment.
\<close>

type_synonym segs = "long \<Rightarrow> (long \<times> long \<times> long) option"
type_synonym blocks = "long \<Rightarrow> nat option"

definition lim :: "long \<Rightarrow> long \<Rightarrow> long \<Rightarrow> long \<Rightarrow> nat" where
  "lim c b a e = (if a = c then unat b else unat e)"

definition in_seg :: "blocks \<Rightarrow> long \<Rightarrow> long \<Rightarrow> long set" where
  "in_seg live a e = {p. live p \<noteq> None \<and> unat a \<le> unat p \<and> unat p < unat e}"

definition seg_inv :: "(long \<times> long) set \<Rightarrow> long \<Rightarrow> long \<Rightarrow> blocks \<Rightarrow> long \<Rightarrow> long \<Rightarrow> long \<Rightarrow> bool" where
  "seg_inv M c b live a e ob \<longleftrightarrow>
     a \<noteq> 0 \<and> (a, e - a) \<in> M \<and> unat a + 48 \<le> lim c b a e \<and> lim c b a e \<le> unat e \<and>
     ob = of_nat (card (in_seg live a e)) \<and> 8 * card (in_seg live a e) \<le> lim c b a e - (unat a + 48)"

definition blk_inv :: "segs \<Rightarrow> long \<Rightarrow> long \<Rightarrow> long \<Rightarrow> nat \<Rightarrow> bool" where
  "blk_inv P c b p n \<longleftrightarrow>
     (\<exists>a e ob m. P a = Some (e, ob, m) \<and> unat a + 48 \<le> unat p \<and> unat p + n \<le> lim c b a e \<and>
        8 \<le> n \<and> n \<le> unat m)"

definition seg_disj :: "segs \<Rightarrow> bool" where
  "seg_disj P \<longleftrightarrow> (\<forall>a e ob m a' e' ob' m'. P a = Some (e, ob, m) \<longrightarrow> P a' = Some (e', ob', m') \<longrightarrow>
     a \<noteq> a' \<longrightarrow> unat e \<le> unat a' \<or> unat e' \<le> unat a)"

definition blk_disj :: "blocks \<Rightarrow> bool" where
  "blk_disj live \<longleftrightarrow> (\<forall>p n q k. live p = Some n \<longrightarrow> live q = Some k \<longrightarrow> p \<noteq> q \<longrightarrow>
     unat p + n \<le> unat q \<or> unat q + k \<le> unat p)"

definition hinv :: "segs \<Rightarrow> (long \<times> long) set \<Rightarrow> long \<Rightarrow> long \<Rightarrow> blocks \<Rightarrow> bool" where
  "hinv P M c b live \<longleftrightarrow>
     (\<forall>a e ob m. P a = Some (e, ob, m) \<longrightarrow> seg_inv M c b live a e ob) \<and> seg_disj P \<and>
     (c = 0 \<or> P c \<noteq> None) \<and> (\<forall>p n. live p = Some n \<longrightarrow> blk_inv P c b p n) \<and> blk_disj live"

lemma hinvD:
  assumes "hinv P M c b live"
  shows "P a = Some (e, ob, m) \<Longrightarrow> seg_inv M c b live a e ob"
    and "seg_disj P" and "c = 0 \<or> P c \<noteq> None"
    and "live p = Some n \<Longrightarrow> blk_inv P c b p n" and "blk_disj live"
  using assms unfolding hinv_def by blast+

text \<open>The word counter is exact, because a segment holds fewer than \<open>2^64\<close> blocks.\<close>

lemma seg_inv_count:
  assumes "seg_inv M c b live a e ob"
  shows "unat ob = card (in_seg live a e)"
proof -
  have "8 * card (in_seg live a e) \<le> unat e" using assms by (auto simp: seg_inv_def)
  moreover have "unat e < 2 ^ 64" using unsigned_less[of e] by simp
  ultimately show ?thesis using assms by (simp add: seg_inv_def unat_of_nat)
qed

lemma seg_inv_empty:
  assumes "seg_inv M c b live a e 0" "live p = Some n" "unat a \<le> unat p"
  shows "unat e \<le> unat p"
proof -
  have "card (in_seg live a e) = 0" using seg_inv_count[OF assms(1)] by simp
  then have "p \<notin> in_seg live a e" by simp
  then show ?thesis using assms(2,3) by (simp add: in_seg_def)
qed

lemma lim_le: "seg_inv M c b live a e ob \<Longrightarrow> lim c b a e \<le> unat e"
  by (simp add: seg_inv_def)

text \<open>A segment without blocks can be given back.\<close>

lemma hinv_remove:
  assumes inv: "hinv P M c b live" and a: "P a = Some (e, 0, m)"
  shows "hinv (P(a := None)) (M - {(a, e - a)}) (if a = c then 0 else c) b live"
proof -
  let ?c = "if a = c then 0 else c"
  note s = hinvD(1)[OF inv]
  have lim: "lim ?c b a' e' = lim c b a' e'" if "P a' = Some (e', ob', m')" "a' \<noteq> a" for a' e' ob' m'
    using s[OF that(1)] that(2) by (auto simp: lim_def seg_inv_def)
  have "seg_inv (M - {(a, e - a)}) ?c b live a' e' ob'" if "P a' = Some (e', ob', m')" "a' \<noteq> a" for a' e' ob' m'
    using s[OF that(1)] that(2) lim[OF that] by (auto simp: seg_inv_def)
  moreover have "blk_inv (P(a := None)) ?c b p n" if p: "live p = Some n" for p n
  proof -
    from hinvD(4)[OF inv p] obtain a' e' ob' m' where a': "P a' = Some (e', ob', m')"
      "unat a' + 48 \<le> unat p" "unat p + n \<le> lim c b a' e'" "8 \<le> n" "n \<le> unat m'"
      by (auto simp: blk_inv_def)
    have "a' \<noteq> a" using a' seg_inv_empty[OF s[OF a] p] lim_le[OF s[OF a]] a by force
    then show ?thesis using a' lim[OF a'(1)] by (auto simp: blk_inv_def)
  qed
  moreover have "seg_disj (P(a := None))" using hinvD(2)[OF inv] by (auto simp: seg_disj_def)
  ultimately show ?thesis using inv by (auto simp: hinv_def)
qed

lemma unat_plus_small: "unat (x :: long) + unat y < 2 ^ 64 \<Longrightarrow> unat (x + y) = unat x + unat y"
  by (simp add: unat_word_ariths)

lemma seg_inv_range: "seg_inv M c b live a e ob \<Longrightarrow> (a, e - a) \<in> M \<and> unat a + unat (e - a) = unat e \<and> unat a + 48 \<le> unat e"
  by (auto simp: seg_inv_def unat_sub_if')

text \<open>A new segment becomes the current one.\<close>

lemma hinv_new:
  assumes inv: "hinv P M c b live" and fr: "fresh_range M nh len" and len: "48 \<le> unat len"
  shows "P nh = None \<and> hinv (P(nh \<mapsto> (nh + len, 0, 0))) (insert (nh, len) M) nh (nh + 48) live"
proof -
  have e: "unat (nh + len) = unat nh + unat len" and b: "unat (nh + 48) = unat nh + 48"
    using fr len by (simp_all add: fresh_range_def unat_plus_small)
  have apart: "unat nh + unat len \<le> unat a \<or> unat e' \<le> unat nh" if "P a = Some (e', ob, m)" for a e' ob m
    using seg_inv_range[OF hinvD(1)[OF inv that]] fr by (auto simp: fresh_range_def)
  have None: "P nh = None"
    using apart[of nh] seg_inv_range[OF hinvD(1)[OF inv]] len by (cases "P nh") fastforce+
  have lim: "lim c b a e' \<le> lim nh (nh + 48) a e'" "lim nh (nh + 48) a e' = unat e'"
    if "P a = Some (e', ob, m)" for a e' ob m
  proof -
    have "a \<noteq> nh" using that None by auto
    then show "lim nh (nh + 48) a e' = unat e'" "lim c b a e' \<le> lim nh (nh + 48) a e'"
      using lim_le[OF hinvD(1)[OF inv that]] by (simp_all add: lim_def)
  qed
  have "in_seg live nh (nh + len) = {}"
  proof -
    have "unat p < unat nh \<or> unat nh + unat len \<le> unat p" if p: "live p = Some n" for p n
    proof -
      from hinvD(4)[OF inv p] obtain a e' ob m where a: "P a = Some (e', ob, m)" "unat a \<le> unat p"
        "unat p + n \<le> lim c b a e'" "8 \<le> n" by (auto simp: blk_inv_def)
      then show ?thesis using apart[OF a(1)] lim_le[OF hinvD(1)[OF inv a(1)]] by linarith
    qed
    then show ?thesis by (fastforce simp: in_seg_def e)
  qed
  then have new: "seg_inv (insert (nh, len) M) nh (nh + 48) live nh (nh + len) 0"
    using fr len e b by (simp add: seg_inv_def lim_def fresh_range_def)
  have old: "seg_inv (insert (nh, len) M) nh (nh + 48) live a e' ob" if "P a = Some (e', ob, m)" for a e' ob m
    using hinvD(1)[OF inv that] lim[OF that] by (auto simp: seg_inv_def)
  have "blk_inv (P(nh \<mapsto> (nh + len, 0, 0))) nh (nh + 48) p n" if p: "live p = Some n" for p n
  proof -
    from hinvD(4)[OF inv p] obtain a e' ob m where a: "P a = Some (e', ob, m)" "unat a + 48 \<le> unat p"
      "unat p + n \<le> lim c b a e'" "8 \<le> n" "n \<le> unat m" by (auto simp: blk_inv_def)
    moreover have "a \<noteq> nh" using a None by auto
    ultimately show ?thesis using lim(1)[OF a(1)] unfolding blk_inv_def
      by (intro exI[of _ a] exI[of _ e'] exI[of _ ob] exI[of _ m]) auto
  qed
  moreover have "seg_disj (P(nh \<mapsto> (nh + len, 0, 0)))"
    using hinvD(2)[OF inv] e by (auto simp: seg_disj_def dest: apart)
  ultimately show ?thesis using None new old hinvD(5)[OF inv] by (auto simp: hinv_def)
qed

text \<open>A block is cut off the current segment.\<close>

lemma hinv_alloc:
  assumes inv: "hinv P M c b live" and c: "P c = Some (e, ob, m)" and sz: "sz \<le> e - b" "8 \<le> unat sz"
  shows "live b = None \<and> b \<noteq> 0 \<and> unat b + unat sz < 2 ^ 64 \<and>
    hinv (P(c \<mapsto> (e, ob + 1, max m sz))) M c (b + sz) (live(b \<mapsto> unat sz))"
proof -
  let ?live = "live(b \<mapsto> unat sz)"
  note sc = hinvD(1)[OF inv c]
  have bc: "unat c + 48 \<le> unat b" "unat b \<le> unat e" using sc by (simp_all add: seg_inv_def lim_def)
  have be: "unat b + unat sz \<le> unat e"
    using sz(1) bc by (simp add: word_le_nat_alt unat_sub_if')
  have le: "unat e < 2 ^ 64" using unsigned_less[of e] by simp
  have bsz: "unat (b + sz) = unat b + unat sz" using be le by (intro unat_plus_small) simp
  have below: "unat p + n \<le> unat b \<or> unat e \<le> unat p \<or> unat p + n \<le> unat c" if p: "live p = Some n" for p n
  proof -
    from hinvD(4)[OF inv p] obtain a e' ob' m' where a: "P a = Some (e', ob', m')" "unat a + 48 \<le> unat p"
      "unat p + n \<le> lim c b a e'" by (auto simp: blk_inv_def)
    show ?thesis
    proof (cases "a = c")
      case True
      then show ?thesis using a by (simp add: lim_def)
    next
      case False
      then have "unat e' \<le> unat c \<or> unat e \<le> unat a"
        using hinvD(2)[OF inv] a(1) c unfolding seg_disj_def by blast
      then show ?thesis using a lim_le[OF hinvD(1)[OF inv a(1)]] by linarith
    qed
  qed
  have eight: "8 \<le> n" if "live p = Some n" for p n
    using hinvD(4)[OF inv that] by (auto simp: blk_inv_def)
  have None: "live b = None"
    using below[of b] eight[of b] bc be sz(2) by (cases "live b") auto
  have lim': "lim c b a e' = lim c (b + sz) a e'" if "a \<noteq> c" for a e' using that by (simp add: lim_def)
  have ins: "in_seg ?live c e = insert b (in_seg live c e)" using bc be sz(2) by (auto simp: in_seg_def)
  have "b \<notin> in_seg live c e" using None by (simp add: in_seg_def)
  then have card: "card (in_seg ?live c e) = Suc (card (in_seg live c e))" using ins by simp
  have segc: "seg_inv M c (b + sz) ?live c e (ob + 1)"
    using sc card bsz be bc sz(2) by (simp add: seg_inv_def lim_def) arith
  have sego: "seg_inv M c (b + sz) ?live a e' ob'" if a: "P a = Some (e', ob', m')" "a \<noteq> c" for a e' ob' m'
  proof -
    have "unat e' \<le> unat c \<or> unat e \<le> unat a" using hinvD(2)[OF inv] a c unfolding seg_disj_def by blast
    then have "in_seg ?live a e' = in_seg live a e'" using bc be sz(2) by (auto simp: in_seg_def)
    then show ?thesis using hinvD(1)[OF inv a(1)] lim'[OF a(2)] by (simp add: seg_inv_def)
  qed
  have blk: "blk_inv (P(c \<mapsto> (e, ob + 1, max m sz))) c (b + sz) p n" if p: "live p = Some n" for p n
  proof -
    from hinvD(4)[OF inv p] obtain a e' ob' m' where a: "P a = Some (e', ob', m')" "unat a + 48 \<le> unat p"
      "unat p + n \<le> lim c b a e'" "8 \<le> n" "n \<le> unat m'" by (auto simp: blk_inv_def)
    have "n \<le> unat (max m' sz)" using a(5) by (auto simp: max_def word_le_nat_alt)
    then show ?thesis using a c bsz unfolding blk_inv_def
      by (cases "a = c") (auto simp: lim_def)
  qed
  have new: "blk_inv (P(c \<mapsto> (e, ob + 1, max m sz))) c (b + sz) b (unat sz)"
    using bc bsz sz(2) by (auto simp: blk_inv_def lim_def max_def word_le_nat_alt)
  have "blk_disj ?live"
    using hinvD(5)[OF inv] below be bc by (fastforce simp: blk_disj_def)
  moreover have "seg_disj (P(c \<mapsto> (e, ob + 1, max m sz)))"
    using hinvD(2)[OF inv] c unfolding seg_disj_def by (auto split: if_splits)
  ultimately show ?thesis
    using None segc sego blk new bc be le sz(2) unfolding hinv_def by (auto split: if_splits)
qed

text \<open>A block is returned.\<close>

lemma hinv_free:
  assumes inv: "hinv P M c b live" and p: "live p = Some n"
    and a: "P a = Some (e, ob, m)" "unat a \<le> unat p" "unat p < unat e"
  shows "hinv (P(a \<mapsto> (e, ob - 1, m))) M c b (live(p := None)) \<and> 0 < unat ob"
proof -
  let ?live = "live(p := None)"
  note sa = hinvD(1)[OF inv a(1)]
  have mem: "p \<in> in_seg live a e" using p a by (simp add: in_seg_def)
  have rem: "in_seg ?live a e = in_seg live a e - {p}" by (auto simp: in_seg_def)
  have card: "card (in_seg live a e) = Suc (card (in_seg ?live a e))"
    using mem card_Suc_Diff1[of "in_seg live a e" p] by (simp add: rem)
  have pos: "0 < unat ob" using seg_inv_count[OF sa] card by simp
  have sega: "seg_inv M c b ?live a e (ob - 1)"
    using sa card by (simp add: seg_inv_def)
  have sego: "seg_inv M c b ?live a' e' ob'" if a': "P a' = Some (e', ob', m')" "a' \<noteq> a" for a' e' ob' m'
  proof -
    have "unat e' \<le> unat a \<or> unat e \<le> unat a'"
      using hinvD(2)[OF inv] a' a(1) unfolding seg_disj_def by blast
    then have "in_seg ?live a' e' = in_seg live a' e'" using a(2,3) by (auto simp: in_seg_def)
    then show ?thesis using hinvD(1)[OF inv a'(1)] by (simp add: seg_inv_def)
  qed
  have blk: "blk_inv (P(a \<mapsto> (e, ob - 1, m))) c b q k" if q: "live q = Some k" for q k
  proof -
    from hinvD(4)[OF inv q] obtain a' e' ob' m' where "P a' = Some (e', ob', m')" "unat a' + 48 \<le> unat q"
      "unat q + k \<le> lim c b a' e'" "8 \<le> k" "k \<le> unat m'" by (auto simp: blk_inv_def)
    then show ?thesis using a(1) unfolding blk_inv_def by (cases "a' = a") auto
  qed
  have "seg_disj (P(a \<mapsto> (e, ob - 1, m)))"
    using hinvD(2)[OF inv] a(1) unfolding seg_disj_def by (auto split: if_splits)
  moreover have "blk_disj ?live" using hinvD(5)[OF inv] unfolding blk_disj_def by auto
  ultimately show ?thesis
    using pos sega sego blk hinvD(3)[OF inv] unfolding hinv_def by (auto split: if_splits)
qed

text \<open>The segment of a block.\<close>

lemma hinv_seg_of:
  assumes "hinv P M c b live" "live p = Some n"
  obtains a e ob m where "P a = Some (e, ob, m)" "unat a + 48 \<le> unat p" "unat p + n \<le> unat e"
    "8 \<le> n" "n \<le> unat m"
proof -
  from hinvD(4)[OF assms] obtain a e ob m where "P a = Some (e, ob, m)" "unat a + 48 \<le> unat p"
    "unat p + n \<le> lim c b a e" "8 \<le> n" "n \<le> unat m" by (auto simp: blk_inv_def)
  moreover from this have "lim c b a e \<le> unat e" using lim_le[OF hinvD(1)[OF assms(1)]] by blast
  ultimately show thesis using that by (meson order_trans)
qed

section \<open>Rounding\<close>

lemma align_down: "unat ((x :: long) AND NOT (mask n)) = unat x - unat x mod 2 ^ n"
proof -
  have "x AND NOT (mask n) = push_bit n (drop_bit n x)"
    by (rule bit_word_eqI) (auto simp: bit_simps)
  also have "\<dots> = x - take_bit n x"
    using bits_ident[of n x] by (simp add: eq_diff_eq)
  finally have "x AND NOT (mask n) = x - take_bit n x" .
  moreover have t: "unat (take_bit n x) = unat x mod 2 ^ n"
    by (simp add: unsigned_take_bit_eq flip: take_bit_eq_mod)
  ultimately show ?thesis using mod_less_eq_dividend[of "unat x" "2 ^ n"]
    by (simp add: unat_sub_if')
qed

lemma unat_less64: "unat (x :: long) < 18446744073709551616"
proof -
  have "unat x < 2 ^ 64" using unsigned_less[of x] by simp
  then show ?thesis by simp
qed

lemma mask_7: "(7 :: long) = mask 3" and mask_4095: "(4096 - 1 :: long) = mask 12"
  by (simp_all add: mask_eq_exp_minus_1)

lemma unat_round8:
  assumes "unat sz + 7 < 2 ^ 64"
  shows "unat (round8 sz) = (unat sz + 7) div 8 * 8"
proof -
  have "unat (sz + 7) = unat sz + 7" using assms unat_plus_small[of sz 7] by simp
  then show ?thesis
    unfolding round8_def mask_7 align_down by (simp add: mask_eq_exp_minus_1 minus_mod_eq_div_mult)
qed

lemma round8_bounds:
  assumes "unat sz + 7 < 2 ^ 64" "sz \<noteq> 0"
  shows "8 \<le> unat (round8 sz)" "unat sz \<le> unat (round8 sz)"
proof -
  have "0 < unat sz" using assms(2) by (simp add: unat_gt_0)
  then show "8 \<le> unat (round8 sz)" "unat sz \<le> unat (round8 sz)"
    unfolding unat_round8[OF assms(1)] by presburger+
qed

lemma mmap_size_bounds:
  assumes "\<not> mmap_size sz < sz"
  shows "unat sz + 48 \<le> unat (mmap_size sz)"
proof -
  have m: "mmap_size sz = (sz + 4143) AND NOT (mask 12)"
    by (simp add: mmap_size_def HDRSZ_def mask_eq_exp_minus_1 add.commute)
  show ?thesis
  proof (cases "unat sz + 4143 < 2 ^ 64")
    case True
    then have u: "unat (sz + 4143) = unat sz + 4143" using unat_plus_small[of sz 4143] by simp
    have "unat (mmap_size sz) = unat sz + 4143 - (unat sz + 4143) mod 4096"
      unfolding m align_down u by simp
    moreover have "(unat sz + 4143) mod 4096 \<le> 4095"
      using mod_less_divisor[of 4096 "unat sz + 4143"] by linarith
    ultimately show ?thesis by linarith
  next
    case False
    have "unat (sz + 4143) = (unat sz + 4143) mod 2 ^ 64" by (simp add: unat_word_ariths)
    also have "\<dots> = unat sz + 4143 - 2 ^ 64"
      using False unat_less64[of sz] by (simp add: le_mod_geq)
    finally have "unat (mmap_size sz) < 4143"
      using unat_less64[of sz] unfolding m align_down by simp
    moreover have "4143 \<le> unat sz" using False by simp
    ultimately show ?thesis using assms by (simp add: word_less_nat_alt)
  qed
qed

section \<open>Specifications of the operations\<close>

definition heap_ok :: "'k kernel \<Rightarrow> ('k \<Rightarrow> (long \<times> long) set) \<Rightarrow> 'k mstate \<Rightarrow> blocks \<Rightarrow> bool" where
  "heap_ok K maps st live \<longleftrightarrow> mm_kernel K maps \<and> (\<exists>hs. links st hs) \<and>
     hinv (pay st) (maps (kern (mproc st))) (curh st) (bump st) live"

lemma links_zero: "links st hs \<Longrightarrow> hdrs st 0 = None"
  unfolding links_def using dls_nonzero by (metis domIff)

lemma findseg_dls:
  assumes "dls h pr q hs 0" "\<forall>b x. h b = Some x \<longrightarrow> h_start x = b"
    and "\<forall>b x. b \<in> set hs \<longrightarrow> h b = Some x \<longrightarrow> (b \<le> p \<and> p < h_end x \<longleftrightarrow> b = a)" "a \<in> set hs"
  shows "s_findseg h p q = Some a"
  using assms
proof (induction hs arbitrary: pr q)
  case (Cons b bs)
  then obtain x where x: "h b = Some x" "q = b" "b \<noteq> 0" "dls h b (h_next x) bs 0" "h_start x = b"
    by (auto split: option.splits)
  show ?case
  proof (cases "b = a")
    case True
    then have "b \<le> p \<and> p < h_end x" using Cons.prems(3) x(1) by simp
    then show ?thesis using x True by (subst s_findseg.simps) simp
  next
    case False
    then have "\<not> (b \<le> p \<and> p < h_end x)" using Cons.prems(3) x(1) by auto
    moreover have "s_findseg h p (h_next x) = Some a"
      using Cons.IH[OF x(4) Cons.prems(2)] Cons.prems(3,4) False by auto
    ultimately show ?thesis using x by (subst s_findseg.simps) auto
  qed
qed simp

lemma findseg_spec:
  assumes "links st hs" "seg_disj (pay st)" "pay st a = Some (e, ob, m)" "unat a \<le> unat p" "unat p < unat e"
  shows "findseg p st = Ret a"
proof -
  have "s_findseg (hdrs st) p (allh st) = Some a"
  proof (rule findseg_dls)
    show "dls (hdrs st) 0 (allh st) hs 0" "\<forall>b x. hdrs st b = Some x \<longrightarrow> h_start x = b" "a \<in> set hs"
      using assms(1,3) by (auto simp: links_def pay_def)
    show "\<forall>b x. b \<in> set hs \<longrightarrow> hdrs st b = Some x \<longrightarrow> (b \<le> p \<and> p < h_end x \<longleftrightarrow> b = a)"
    proof (intro allI impI)
      fix b x assume "hdrs st b = Some x"
      then have b: "pay st b = Some (h_end x, objs x, maxsz x)" by (simp add: pay_def)
      show "b \<le> p \<and> p < h_end x \<longleftrightarrow> b = a"
      proof (cases "b = a")
        case False
        then have "unat (h_end x) \<le> unat a \<or> unat e \<le> unat b"
          using assms(2,3) b unfolding seg_disj_def by blast
        then show ?thesis using assms(4,5) False by (auto simp: word_le_nat_alt word_less_nat_alt)
      qed (use b assms in \<open>auto simp: word_le_nat_alt word_less_nat_alt\<close>)
    qed
  qed
  then show ?thesis by (simp add: findseg_def)
qed

lemma pay_upd: "pay (st\<lparr>hdrs := (hdrs st)(a \<mapsto> x)\<rparr>) = (pay st)(a \<mapsto> (h_end x, objs x, maxsz x))"
  by (auto simp: pay_def fun_eq_iff)

text \<open>Updates of a header that leave its links alone.\<close>

lemma links_upd:
  assumes "links st hs" "hdrs st a = Some x" "h_next y = h_next x" "h_prev y = h_prev x" "h_start y = h_start x"
  shows "links (st\<lparr>hdrs := (hdrs st)(a \<mapsto> y)\<rparr>) hs"
proof -
  have "dls ((hdrs st)(a \<mapsto> y)) pr p as q = dls (hdrs st) pr p as q" for pr p as q
    using assms(2-4) by (induction as arbitrary: pr p) (auto split: option.split)
  then show ?thesis using assms by (auto simp: links_def)
qed

text \<open>A new header at the front of the list.\<close>

lemma links_push:
  assumes "links st hs" "hdrs st nh = None" "nh \<noteq> 0"
    "h_start h = nh" "h_next h = allh st" "h_prev h = 0"
  obtains st' where
    "(if h_next h \<noteq> 0 then upd_hdr (h_next h) (\<lambda>y. y\<lparr>h_prev := nh\<rparr>) (st\<lparr>hdrs := (hdrs st)(nh \<mapsto> h)\<rparr>)
      else Ret (st\<lparr>hdrs := (hdrs st)(nh \<mapsto> h)\<rparr>)) = Ret st'"
    "links (st'\<lparr>allh := nh, curh := cu, bump := bu\<rparr>) (nh # hs)"
    "pay st' = (pay st)(nh \<mapsto> (h_end h, objs h, maxsz h))"
    "mproc st' = mproc st" "biglock st' = biglock st" "dolock st' = dolock st" "ram st' = ram st"
proof -
  let ?s = "st\<lparr>hdrs := (hdrs st)(nh \<mapsto> h)\<rparr>"
  have nin: "nh \<notin> set hs" using assms(1,2) by (auto simp: links_def)
  have d: "dls (hdrs st) 0 (allh st) hs 0" using assms(1) by (simp add: links_def)
  show thesis
  proof (cases hs)
    case Nil
    then have "allh st = 0" using d by simp
    then show thesis using Nil assms pay_upd[of st nh h] by (intro that[of ?s]) (auto simp: links_def)
  next
    case (Cons c ws)
    with d obtain y where y: "hdrs st c = Some y" "allh st = c" "c \<noteq> 0" "dls (hdrs st) c (h_next y) ws 0"
      "h_prev y = 0" by (auto split: option.splits)
    let ?h = "(hdrs st)(nh \<mapsto> h, c \<mapsto> y\<lparr>h_prev := nh\<rparr>)"
    have c: "c \<noteq> nh" "c \<notin> set ws" "nh \<notin> set ws" using nin Cons assms(1) by (auto simp: links_def)
    have "dls ?h 0 nh (nh # hs) 0"
      using y Cons c assms(3-6) by (simp add: dls_frame)
    moreover have "dom ?h = set (nh # hs)" "distinct (nh # hs)"
      using assms(1) nin Cons by (auto simp: links_def)
    moreover have "\<forall>a x. ?h a = Some x \<longrightarrow> h_start x = a"
      using assms(1,4) y by (auto simp: links_def)
    moreover have "pay (st\<lparr>hdrs := ?h\<rparr>) = (pay st)(nh \<mapsto> (h_end h, objs h, maxsz h))"
      using y c by (auto simp: pay_def fun_eq_iff)
    ultimately show thesis
      using y c assms(5) by (intro that[of "st\<lparr>hdrs := ?h\<rparr>"]) (auto simp: upd_hdr_def links_def)
  qed
qed

text \<open>What no operation of the allocator but the wrappers changes.\<close>

definition same_rest :: "'k mstate \<Rightarrow> 'k mstate \<Rightarrow> bool" where
  "same_rest st st' \<longleftrightarrow> biglock st' = biglock st \<and> dolock st' = dolock st \<and> ram st' = ram st"

lemma pay_mproc [simp]:
  "pay (st\<lparr>mproc := p\<rparr>) = pay st" "pay (st\<lparr>curh := c\<rparr>) = pay st" "pay (set_errno e st) = pay st"
  "pay (st\<lparr>bump := b\<rparr>) = pay st" "pay (st\<lparr>allh := c\<rparr>) = pay st"
  "pay (st\<lparr>biglock := b\<rparr>) = pay st" "pay (st\<lparr>ram := r\<rparr>) = pay st"
  by (auto simp: pay_def fun_eq_iff set_errno_def)

lemma links_mproc [simp]:
  "links (st\<lparr>mproc := p\<rparr>) hs = links st hs" "links (st\<lparr>curh := c\<rparr>) hs = links st hs"
  "links (st\<lparr>bump := b\<rparr>) hs = links st hs" "links (set_errno e st) hs = links st hs"
  "links (st\<lparr>biglock := b\<rparr>) hs = links st hs" "links (st\<lparr>ram := r\<rparr>) hs = links st hs"
  by (simp_all add: links_def set_errno_def)

text \<open>The current segment is dropped first if nothing is left in it.\<close>

lemma drop_current_spec:
  assumes ok: "heap_ok K maps st live"
  obtains st1 where
    "(if curh st \<noteq> 0 then
        bind_out (hdr (curh st) st) (\<lambda>c.
          if objs c = 0
          then bind_out (s_free_header K (curh st) st) (\<lambda>s. Ret (s\<lparr>curh := 0\<rparr>))
          else Ret st)
      else Ret st) = Ret st1"
    "heap_ok K maps st1 live" "same_rest st st1"
proof -
  from ok obtain hs where mm: "mm_kernel K maps" and L: "links st hs"
    and I: "hinv (pay st) (maps (kern (mproc st))) (curh st) (bump st) live"
    by (auto simp: heap_ok_def)
  show thesis
  proof (cases "curh st = 0")
    case True
    then show thesis using ok by (intro that[of st]) (simp_all add: same_rest_def)
  next
    case False
    with hinvD(3)[OF I] obtain x where x: "hdrs st (curh st) = Some x" by (auto simp: pay_def)
    show thesis
    proof (cases "objs x = 0")
      case True
      then have P: "pay st (curh st) = Some (h_end x, 0, maxsz x)" using x by (simp add: pay_def)
      have "(curh st, h_end x - curh st) \<in> maps (kern (mproc st))"
        using hinvD(1)[OF I P] by (simp add: seg_inv_def)
      from s_free_header_spec[OF mm L P this] obtain st' where
        st': "s_free_header K (curh st) st = Ret st'" "links st' (remove1 (curh st) hs)"
        "pay st' = (pay st)(curh st := None)"
        "maps (kern (mproc st')) = maps (kern (mproc st)) - {(curh st, h_end x - curh st)}"
        "curh st' = curh st" "bump st' = bump st" "biglock st' = biglock st" "dolock st' = dolock st"
        "ram st' = ram st" .
      have "heap_ok K maps (st'\<lparr>curh := 0\<rparr>) live"
        unfolding heap_ok_def using mm st' hinv_remove[OF I P] by auto
      then show thesis
        using False x True st' by (intro that[of "st'\<lparr>curh := 0\<rparr>"]) (simp_all add: hdr_def same_rest_def)
    next
      case nz: False
      then show thesis using x False ok by (intro that[of st]) (simp_all add: hdr_def same_rest_def)
    qed
  qed
qed

lemma new_segment_spec:
  assumes ok: "heap_ok K maps st live" and sz: "8 \<le> unat sz"
  obtains b st' where "new_segment K sz st = Ret (b, st')" "heap_ok K maps st' live" "same_rest st st'"
    "b \<longrightarrow> (\<exists>e ob m. pay st' (curh st') = Some (e, ob, m) \<and> sz \<le> e - bump st')"
    "\<not> b \<longrightarrow> errno (mproc st') \<in> {ENOMEM, EOVERFLOW}"
proof -
  note ns = new_segment_def[of K sz st]
  from drop_current_spec[OF ok] obtain st1 where
    st1: "(if curh st \<noteq> 0 then
        bind_out (hdr (curh st) st) (\<lambda>c.
          if objs c = 0
          then bind_out (s_free_header K (curh st) st) (\<lambda>s. Ret (s\<lparr>curh := 0\<rparr>))
          else Ret st)
      else Ret st) = Ret st1" and ok1: "heap_ok K maps st1 live" and same: "same_rest st st1" .
  from ok1 obtain hs where mm: "mm_kernel K maps" and L: "links st1 hs"
    and I: "hinv (pay st1) (maps (kern (mproc st1))) (curh st1) (bump st1) live"
    by (auto simp: heap_ok_def)
  note ns1 = ns[unfolded st1, simplified]
  show thesis
  proof (cases "mmap_size sz < sz")
    case True
    moreover have "heap_ok K maps (set_errno EOVERFLOW st1) live"
      using ok1 unfolding heap_ok_def by (auto simp: set_errno_def)
    ultimately show thesis using same ns1
      by (intro that[of False "set_errno EOVERFLOW st1"]) (simp_all add: same_rest_def set_errno_def)
  next
    case fits: False
    obtain nh p' where mmap: "mmap K 0 (mmap_size sz) (PROT_READ OR PROT_WRITE) (MAP_ANON OR MAP_PRIVATE)
        (- 1) 0 (mproc st1) = (nh, p')" by fastforce
    note ms = mmap_spec[OF mm mmap]
    show thesis
    proof (cases "nh = MAP_FAILED")
      case True
      have "heap_ok K maps (set_errno ENOMEM (st1\<lparr>mproc := p'\<rparr>)) live"
        using ms True mm L I unfolding heap_ok_def by (auto simp: set_errno_def)
      then show thesis using same ns1 fits mmap True
        by (intro that[of False "set_errno ENOMEM (st1\<lparr>mproc := p'\<rparr>)"])
          (simp_all add: same_rest_def set_errno_def)
    next
      case False
      with ms have fr: "fresh_range (maps (kern (mproc st1))) nh (mmap_size sz)"
        and mp: "maps (kern p') = insert (nh, mmap_size sz) (maps (kern (mproc st1)))" by auto
      have len: "unat sz + 48 \<le> unat (mmap_size sz)" by (rule mmap_size_bounds[OF fits])
      from hinv_new[OF I fr] len have free: "pay st1 nh = None"
        and I2: "hinv ((pay st1)(nh \<mapsto> (nh + mmap_size sz, 0, 0))) (insert (nh, mmap_size sz) (maps (kern (mproc st1))))
          nh (nh + 48) live" by auto
      let ?h = "\<lparr>h_start = nh, h_end = nh + mmap_size sz, objs = 0, maxsz = 0, h_next = allh st1, h_prev = 0\<rparr>"
      let ?s = "st1\<lparr>mproc := p'\<rparr>"
      have new: "links ?s hs" "hdrs ?s nh = None" "nh \<noteq> 0" "h_start ?h = nh" "h_next ?h = allh ?s" "h_prev ?h = 0"
        using free fr L by (auto simp: pay_def fresh_range_def)
      from links_push[OF new] obtain st4 where
        st4: "(if h_next ?h \<noteq> 0 then upd_hdr (h_next ?h) (\<lambda>y. y\<lparr>h_prev := nh\<rparr>) (?s\<lparr>hdrs := (hdrs ?s)(nh \<mapsto> ?h)\<rparr>)
          else Ret (?s\<lparr>hdrs := (hdrs ?s)(nh \<mapsto> ?h)\<rparr>)) = Ret st4"
        "links (st4\<lparr>allh := nh, curh := nh, bump := nh + HDRSZ\<rparr>) (nh # hs)"
        "pay st4 = (pay ?s)(nh \<mapsto> (h_end ?h, objs ?h, maxsz ?h))" "mproc st4 = mproc ?s"
        "biglock st4 = biglock ?s" "dolock st4 = dolock ?s" "ram st4 = ram ?s" by blast
      let ?st = "st4\<lparr>allh := nh, curh := nh, bump := nh + HDRSZ\<rparr>"
      have "heap_ok K maps ?st live"
        unfolding heap_ok_def using mm st4 I2 mp by (auto simp: HDRSZ_def)
      moreover have "new_segment K sz st = Ret (True, ?st)"
        unfolding ns1 using fits mmap False st4(1) by (cases "allh st1 = 0") (simp_all add: Let_def)
      moreover have "sz \<le> nh + mmap_size sz - (nh + HDRSZ)"
        using len by (simp add: HDRSZ_def word_le_nat_alt unat_sub_if')
      ultimately show thesis using same st4 by (intro that[of True ?st]) (simp_all add: same_rest_def)
    qed
  qed
qed

lemma need_segment_spec:
  assumes "heap_ok K maps st live"
  obtains b where "need_segment sz st = Ret b"
    "\<not> b \<longrightarrow> (\<exists>e ob m. pay st (curh st) = Some (e, ob, m) \<and> sz \<le> e - bump st)"
proof (cases "curh st = 0")
  case True
  then show thesis by (intro that[of True]) (simp_all add: need_segment_def)
next
  case False
  from assms have "hinv (pay st) (maps (kern (mproc st))) (curh st) (bump st) live"
    by (simp add: heap_ok_def)
  from hinvD(3)[OF this] False obtain x where "hdrs st (curh st) = Some x" by (auto simp: pay_def)
  with False show thesis
    by (intro that[of "sz > h_end x - bump st"]) (auto simp: need_segment_def hdr_def pay_def)
qed

lemma s_malloc_spec:
  assumes ok: "heap_ok K maps st live" and sz: "sz \<noteq> 0" "unat sz + 7 < 2 ^ 64"
  obtains r st' where "s_malloc K sz st = Ret (r, st')" "same_rest st st'"
    "r = 0 \<longrightarrow> heap_ok K maps st' live \<and> errno (mproc st') \<in> {ENOMEM, EOVERFLOW}"
    "r \<noteq> 0 \<longrightarrow> live r = None \<and> unat r + unat (round8 sz) < 2 ^ 64 \<and>
       heap_ok K maps st' (live(r \<mapsto> unat (round8 sz)))"
proof -
  let ?sz = "round8 sz"
  have sz8: "8 \<le> unat ?sz" by (rule round8_bounds(1)[OF sz(2,1)])
  obtain b where b: "need_segment ?sz st = Ret b"
    "\<not> b \<longrightarrow> (\<exists>e ob m. pay st (curh st) = Some (e, ob, m) \<and> ?sz \<le> e - bump st)"
    using need_segment_spec[OF ok] by metis
  obtain g st1 where g: "(if b then new_segment K ?sz st else Ret (True, st)) = Ret (g, st1)"
    and ok1: "heap_ok K maps st1 live" and same: "same_rest st st1"
    and room: "g \<longrightarrow> (\<exists>e ob m. pay st1 (curh st1) = Some (e, ob, m) \<and> ?sz \<le> e - bump st1)"
    and err: "\<not> g \<longrightarrow> errno (mproc st1) \<in> {ENOMEM, EOVERFLOW}"
  proof (cases b)
    case True
    with new_segment_spec[OF ok sz8] show thesis using that by (metis (full_types))
  next
    case False
    with b ok show thesis by (intro that[of True st]) (simp_all add: same_rest_def)
  qed
  show thesis
  proof (cases g)
    case False
    then show thesis using b(1) g ok1 same err
      by (intro that[of 0 st1]) (simp_all add: s_malloc_def)
  next
    case True
    with room obtain e ob m where P: "pay st1 (curh st1) = Some (e, ob, m)" "?sz \<le> e - bump st1" by auto
    then obtain x where x: "hdrs st1 (curh st1) = Some x" "h_end x = e" "objs x = ob" "maxsz x = m"
      by (auto simp: pay_def)
    from ok1 obtain hs where mm: "mm_kernel K maps" and L: "links st1 hs"
      and I: "hinv (pay st1) (maps (kern (mproc st1))) (curh st1) (bump st1) live"
      by (auto simp: heap_ok_def)
    let ?x = "x\<lparr>objs := objs x + 1, maxsz := max (maxsz x) ?sz\<rparr>"
    let ?s2 = "st1\<lparr>hdrs := (hdrs st1)(curh st1 \<mapsto> ?x)\<rparr>"
    let ?st = "?s2\<lparr>bump := bump st1 + ?sz\<rparr>"
    note A = hinv_alloc[OF I P sz8]
    have "links ?st hs" using links_upd[OF L x(1), of ?x] by simp
    moreover have "pay ?st = (pay st1)(curh st1 \<mapsto> (e, ob + 1, max m ?sz))"
      using x by (auto simp: pay_def fun_eq_iff)
    ultimately have "heap_ok K maps ?st (live(bump st1 \<mapsto> unat ?sz))"
      unfolding heap_ok_def using mm A by auto
    moreover have "s_malloc K sz st = Ret (bump st1, ?st)"
      using b(1) g True x(1) by (simp add: s_malloc_def upd_hdr_def Let_def)
    ultimately show thesis using A same by (intro that[of "bump st1" ?st]) (simp_all add: same_rest_def)
  qed
qed

lemma s_free_spec:
  assumes ok: "heap_ok K maps st live" and p: "live p = Some n"
  obtains st' where "s_free K p st = Ret st'" "heap_ok K maps st' (live(p := None))" "same_rest st st'"
proof -
  from ok obtain hs where mm: "mm_kernel K maps" and L: "links st hs"
    and I: "hinv (pay st) (maps (kern (mproc st))) (curh st) (bump st) live"
    by (auto simp: heap_ok_def)
  obtain a e ob m where seg: "pay st a = Some (e, ob, m)" "unat a + 48 \<le> unat p"
    "unat p + n \<le> unat e" "8 \<le> n" by (rule hinv_seg_of[OF I p])
  then have a: "pay st a = Some (e, ob, m)" "unat a \<le> unat p" "unat p < unat e" by simp_all
  then obtain x where x: "hdrs st a = Some x" "h_end x = e" "objs x = ob" "maxsz x = m"
    by (auto simp: pay_def)
  have fs: "findseg p st = Ret a" by (rule findseg_spec[OF L hinvD(2)[OF I] a])
  have a0: "a \<noteq> 0" using hinvD(1)[OF I a(1)] by (simp add: seg_inv_def)
  let ?x = "x\<lparr>objs := objs x - 1\<rparr>"
  let ?s = "st\<lparr>hdrs := (hdrs st)(a \<mapsto> ?x)\<rparr>"
  from hinv_free[OF I p a] have I1: "hinv ((pay st)(a \<mapsto> (e, ob - 1, m))) (maps (kern (mproc st))) (curh st) (bump st)
    (live(p := None))" by simp
  have L1: "links ?s hs" using links_upd[OF L x(1), of ?x] by simp
  have P1: "pay ?s = (pay st)(a \<mapsto> (e, ob - 1, m))" using x by (auto simp: pay_def fun_eq_iff)
  have run: "s_free K p st = (if ob - 1 = 0 \<and> a \<noteq> curh st then s_free_header K a ?s else Ret ?s)"
    using fs a0 x by (simp add: s_free_def upd_hdr_def hdr_def)
  show thesis
  proof (cases "ob - 1 = 0 \<and> a \<noteq> curh st")
    case False
    have "heap_ok K maps ?s (live(p := None))" unfolding heap_ok_def using mm L1 P1 I1 by auto
    moreover have "s_free K p st = Ret ?s" by (subst run) (rule if_not_P[OF False])
    ultimately show thesis by (intro that[of ?s]) (simp_all add: same_rest_def)
  next
    case True
    have P: "pay ?s a = Some (e, ob - 1, m)" by (simp add: P1)
    have "(a, e - a) \<in> maps (kern (mproc ?s))" using hinvD(1)[OF I a(1)] by (simp add: seg_inv_def)
    from s_free_header_spec[OF mm L1 P this] obtain st' where
      st': "s_free_header K a ?s = Ret st'" "links st' (remove1 a hs)" "pay st' = (pay ?s)(a := None)"
      "maps (kern (mproc st')) = maps (kern (mproc ?s)) - {(a, e - a)}"
      "curh st' = curh ?s" "bump st' = bump ?s" "biglock st' = biglock ?s" "dolock st' = dolock ?s"
      "ram st' = ram ?s" .
    have "hinv ((pay ?s)(a := None)) (maps (kern (mproc st)) - {(a, e - a)}) (curh st) (bump st) (live(p := None))"
      using hinv_remove[OF I1[folded P1], of a e m] P True by simp
    then have "heap_ok K maps st' (live(p := None))" unfolding heap_ok_def using mm st' by auto
    with True run st' show thesis by (intro that[of st']) (simp_all add: same_rest_def)
  qed
qed

section \<open>The interface of the allocator\<close>

text \<open>No other thread is in the allocator.\<close>

definition idle :: "'k mstate \<Rightarrow> bool" where
  "idle st \<longleftrightarrow> \<not> dolock st \<or> biglock st = 0"

definition good_size :: "long \<Rightarrow> bool" where
  "good_size sz \<longleftrightarrow> sz \<noteq> 0 \<and> unat sz + 7 < 2 ^ 64"

text \<open>
  The runs of a client: it allocates, sees an allocation fail, or frees a block it holds. \<open>live\<close> is
  what it holds; \<open>gsz\<close> is the size granted for a request.
\<close>

inductive client_run ::
  "(long \<Rightarrow> 's \<Rightarrow> (long \<times> 's) outcome) \<Rightarrow> (long \<Rightarrow> 's \<Rightarrow> 's outcome) \<Rightarrow> (long \<Rightarrow> nat) \<Rightarrow>
   's \<Rightarrow> blocks \<Rightarrow> 's \<Rightarrow> blocks \<Rightarrow> bool"
  for al de gsz s0 live0
where
  start: "client_run al de gsz s0 live0 s0 live0"
| got: "client_run al de gsz s0 live0 s live \<Longrightarrow> good_size sz \<Longrightarrow> al sz s = Ret (r, s') \<Longrightarrow> r \<noteq> 0 \<Longrightarrow>
    client_run al de gsz s0 live0 s' (live(r \<mapsto> gsz sz))"
| failed: "client_run al de gsz s0 live0 s live \<Longrightarrow> good_size sz \<Longrightarrow> al sz s = Ret (0, s') \<Longrightarrow>
    client_run al de gsz s0 live0 s' live"
| freed: "client_run al de gsz s0 live0 s live \<Longrightarrow> live p = Some n \<Longrightarrow> de p s = Ret s' \<Longrightarrow>
    client_run al de gsz s0 live0 s' (live(p := None))"

locale allocator =
  fixes ok :: "'s \<Rightarrow> blocks \<Rightarrow> bool"
    and al :: "long \<Rightarrow> 's \<Rightarrow> (long \<times> 's) outcome"
    and de :: "long \<Rightarrow> 's \<Rightarrow> 's outcome"
    and gsz :: "long \<Rightarrow> nat"
  assumes alloc_law: "ok s live \<Longrightarrow> good_size sz \<Longrightarrow>
      \<exists>r s'. al sz s = Ret (r, s') \<and> (r = 0 \<longrightarrow> ok s' live) \<and>
        (r \<noteq> 0 \<longrightarrow> live r = None \<and> ok s' (live(r \<mapsto> gsz sz)))"
    and dealloc_law: "ok s live \<Longrightarrow> live p = Some n \<Longrightarrow> \<exists>s'. de p s = Ret s' \<and> ok s' (live(p := None))"
    and disjoint_law: "ok s live \<Longrightarrow> blk_disj live"
    and size_law: "good_size sz \<Longrightarrow> unat sz \<le> gsz sz"
begin

lemma run_ok: "client_run al de gsz s0 live0 s live \<Longrightarrow> ok s0 live0 \<Longrightarrow> ok s live"
proof (induction rule: client_run.induct)
  case (got s live sz r s')
  then show ?case using alloc_law[of s live sz] by (auto simp del: fun_upd_apply)
next
  case (failed s live sz s')
  then show ?case using alloc_law[of s live sz] by (auto simp del: fun_upd_apply)
next
  case (freed s live p n s')
  then show ?case using dealloc_law[of s live p n] by (auto simp del: fun_upd_apply)
qed

text \<open>No request of such a client faults, and what it holds never overlaps.\<close>

lemma run_safe:
  assumes "client_run al de gsz s0 live0 s live" "ok s0 live0"
  shows "blk_disj live \<and> (good_size sz \<longrightarrow> (\<exists>r s'. al sz s = Ret (r, s') \<and> (r \<noteq> 0 \<longrightarrow> live r = None))) \<and>
    (live p = Some n \<longrightarrow> (\<exists>s'. de p s = Ret s'))"
  using run_ok[OF assms] alloc_law[of s live sz] dealloc_law[of s live p n] disjoint_law[of s live]
  by blast

end

lemma acquire_idle:
  assumes "idle st"
  obtains st1 where "acquire st = Ret st1" "dolock st1 = dolock st" "ram st1 = ram st"
    "heap_ok K maps st1 live = heap_ok K maps st live" "findseg p st1 = findseg p st" "hdrs st1 = hdrs st"
    "mproc st1 = mproc st" "curh st1 = curh st" "bump st1 = bump st"
proof (cases "dolock st")
  case True
  then show thesis using assms
    by (intro that[of "st\<lparr>biglock := 1\<rparr>"]) (simp_all add: idle_def acquire_def heap_ok_def findseg_def)
next
  case False
  then show thesis by (intro that[of st]) (simp_all add: acquire_def)
qed

lemma heap_ok_release [simp]: "heap_ok K maps (release st) live = heap_ok K maps st live"
  by (simp add: heap_ok_def release_def)

lemma heap_ok_ram [simp]: "heap_ok K maps (st\<lparr>ram := r\<rparr>) live = heap_ok K maps st live"
  by (simp add: heap_ok_def)

lemma idle_release [simp]: "idle (release st)"
  by (simp add: idle_def release_def)

lemma malloc_spec:
  assumes "heap_ok K maps st live" "idle st" "good_size sz"
  obtains r st' where "malloc K sz st = Ret (r, st')" "idle st'" "ram st' = ram st"
    "r = 0 \<longrightarrow> heap_ok K maps st' live \<and> errno (mproc st') \<in> {ENOMEM, EOVERFLOW}"
    "r \<noteq> 0 \<longrightarrow> live r = None \<and> unat r + unat (round8 sz) < 2 ^ 64 \<and>
       heap_ok K maps st' (live(r \<mapsto> unat (round8 sz)))"
proof -
  obtain st1 where a: "acquire st = Ret st1" "ram st1 = ram st" "heap_ok K maps st1 live"
    using acquire_idle[OF assms(2)] assms(1) by metis
  obtain r st2 where m: "s_malloc K sz st1 = Ret (r, st2)" "same_rest st1 st2"
    "r = 0 \<longrightarrow> heap_ok K maps st2 live \<and> errno (mproc st2) \<in> {ENOMEM, EOVERFLOW}"
    "r \<noteq> 0 \<longrightarrow> live r = None \<and> unat r + unat (round8 sz) < 2 ^ 64 \<and>
       heap_ok K maps st2 (live(r \<mapsto> unat (round8 sz)))"
    using s_malloc_spec[OF a(3)] assms(3) by (metis good_size_def)
  show thesis
    using a m assms(3) by (intro that[of r "release st2"]) (simp_all add: malloc_def good_size_def same_rest_def, simp_all add: release_def)
qed

lemma free_spec:
  assumes "heap_ok K maps st live" "idle st" "live p = Some n"
  obtains st' where "free K p st = Ret st'" "idle st'" "ram st' = ram st" "heap_ok K maps st' (live(p := None))"
proof -
  obtain st1 where a: "acquire st = Ret st1" "ram st1 = ram st" "heap_ok K maps st1 live"
    using acquire_idle[OF assms(2)] assms(1) by metis
  obtain st2 where f: "s_free K p st1 = Ret st2" "heap_ok K maps st2 (live(p := None))" "same_rest st1 st2"
    by (rule s_free_spec[OF a(3) assms(3)])
  show thesis
    using a f by (intro that[of "release st2"]) (simp_all add: free_def same_rest_def, simp_all add: release_def)
qed

interpretation heap: allocator "\<lambda>st live. heap_ok K maps st live \<and> idle st" "malloc K" "free K"
  "\<lambda>sz. unat (round8 sz)" for K :: "'k kernel" and maps
proof unfold_locales
  fix s :: "'k mstate" and live sz
  assume "heap_ok K maps s live \<and> idle s" "good_size sz"
  then obtain r st' where "malloc K sz s = Ret (r, st')" "idle st'"
    "r = 0 \<longrightarrow> heap_ok K maps st' live \<and> errno (mproc st') \<in> {ENOMEM, EOVERFLOW}"
    "r \<noteq> 0 \<longrightarrow> live r = None \<and> unat r + unat (round8 sz) < 2 ^ 64 \<and>
       heap_ok K maps st' (live(r \<mapsto> unat (round8 sz)))"
    using malloc_spec by metis
  then show "\<exists>r s'. malloc K sz s = Ret (r, s') \<and> (r = 0 \<longrightarrow> heap_ok K maps s' live \<and> idle s') \<and>
      (r \<noteq> 0 \<longrightarrow> live r = None \<and> heap_ok K maps s' (live(r \<mapsto> unat (round8 sz))) \<and> idle s')"
    by blast
next
  fix s :: "'k mstate" and live p n
  assume "heap_ok K maps s live \<and> idle s" "live p = Some n"
  then show "\<exists>s'. free K p s = Ret s' \<and> heap_ok K maps s' (live(p := None)) \<and> idle s'"
    using free_spec by metis
next
  fix s :: "'k mstate" and live
  assume "heap_ok K maps s live \<and> idle s"
  then show "blk_disj live" using hinvD(5) by (auto simp: heap_ok_def)
qed (auto simp: good_size_def intro: round8_bounds)

text \<open>
  \<open>strdup\<close> tests the length instead of the pointer for failure, so a failed \<open>malloc\<close> leads to a
  store through \<open>NULL\<close>.
\<close>

definition ram_write :: "long \<Rightarrow> byte list \<Rightarrow> (long \<Rightarrow> byte) \<Rightarrow> long \<Rightarrow> byte" where
  "ram_write a bs r = (\<lambda>x. if unat (x - a) < length bs then bs ! unat (x - a) else r x)"

definition strdup :: "'k kernel \<Rightarrow> byte list \<Rightarrow> 'k mstate \<Rightarrow> (long \<times> 'k mstate) outcome" where
  "strdup K orig st =
     (case strlen orig of
        None \<Rightarrow> Fault
      | Some n \<Rightarrow>
          (let l = (word_of_nat n + 1 :: long) in
           bind_out (malloc K l st) (\<lambda>(ret, st1).
             if l = 0 then Ret (0, set_errno ENOMEM st1)
             else if ret = 0 then Fault
             else Ret (ret, st1\<lparr>ram := ram_write ret (take (unat l) orig) (ram st1)\<rparr>))))"

section \<open>A kernel for the witnesses\<close>

text \<open>It places each mapping above all the mapped ranges, in the lower half of the address space.\<close>

definition map_top :: "(long \<times> long) list \<Rightarrow> nat" where
  "map_top ms = foldr (\<lambda>(a, l) t. max t (unat a + unat l)) ms 4096"

fun top_kernel :: "((long \<times> long) list) kernel" where
  "top_kernel trap (SA a # SA len # as) ms =
     (if trap = SYS_MMAP then
        (if map_top ms + unat len < 2 ^ 63
         then (word_of_nat (map_top ms), SA a # SA len # as, (word_of_nat (map_top ms), len) # ms)
         else (- 12, SA a # SA len # as, ms))
      else if trap = SYS_MUNMAP then (0, SA a # SA len # as, removeAll (a, len) ms)
      else (- 38, SA a # SA len # as, ms))"
| "top_kernel trap as ms = (- 38, as, ms)"

lemma map_top_ge: "(a, l) \<in> set ms \<Longrightarrow> unat a + unat l \<le> map_top ms" "4096 \<le> map_top ms"
  by (induction ms) (auto simp: map_top_def max_def split: prod.splits)

lemma mm_top_kernel: "mm_kernel top_kernel set"
proof -
  have "is_err (- 12)" by code_simp
  moreover have "\<not> is_err (word_of_nat (map_top ms))" "unat (word_of_nat (map_top ms) :: long) = map_top ms"
    if "map_top ms + unat len < 2 ^ 63" for ms and len :: long
  proof -
    show u: "unat (word_of_nat (map_top ms) :: long) = map_top ms"
      using that by (simp add: unat_of_nat)
    then have "unat (word_of_nat (map_top ms) :: long) < 2 ^ 63" using that by simp
    from long_nonneg[OF this] show "\<not> is_err (word_of_nat (map_top ms))"
      unfolding is_err_def by blast
  qed
  moreover have "fresh_range (set ms) (word_of_nat (map_top ms)) len"
    if "map_top ms + unat len < 2 ^ 63" for ms and len :: long
    using calculation(3)[OF that] map_top_ge(1)[of _ _ ms] map_top_ge(2)[of ms] that
    by (auto simp: fresh_range_def)
  ultimately show ?thesis
    by (auto simp: mm_kernel_def SYS_MMAP_def SYS_MUNMAP_def split: if_splits)
qed

definition heap0 :: "((long \<times> long) list) mstate" where
  "heap0 = \<lparr>mproc = \<lparr>errno = 0, kern = [], diag = [], arch = AArch64\<rparr>, hdrs = Map.empty, allh = 0, curh = 0,
     bump = 0, biglock = 0, dolock = True, ram = (\<lambda>_. 0)\<rparr>"

lemma heap0_ok: "heap_ok top_kernel set heap0 Map.empty" and heap0_idle: "idle heap0"
proof -
  have "links heap0 []" by (simp add: links_def heap0_def)
  then show "heap_ok top_kernel set heap0 Map.empty"
    by (auto simp: heap_ok_def mm_top_kernel hinv_def seg_disj_def blk_disj_def pay_def heap0_def)
  show "idle heap0" by (simp add: idle_def heap0_def)
qed

section \<open>Properties\<close>


lemma good_100: "good_size 100"
  by (simp add: good_size_def)


text \<open>
  C28: \<open>free\<close>. Freeing a block in use succeeds, leaves a well-formed heap without it, and changes no
  byte of memory.
\<close>

theorem free_correct:
  assumes "heap_ok K maps st live" "idle st" "live p = Some n"
  shows "\<exists>st'. free K p st = Ret st' \<and> idle st' \<and> heap_ok K maps st' (live(p := None)) \<and> ram st' = ram st"
  using free_spec[OF assms] by metis

definition heap1 :: "((long \<times> long) list) mstate" where
  "heap1 = (case malloc top_kernel 100 heap0 of Ret (r, st) \<Rightarrow> st | _ \<Rightarrow> heap0)"

lemma heap1_run: "malloc top_kernel 100 heap0 = Ret (4144, heap1) \<and> curh heap1 = 4096 \<and> round8 100 = 104"
proof -
  have z: "round8 100 = 104" "mmap_size 104 = 4096" by code_simp+
  have "mmap top_kernel 0 4096 (PROT_READ OR PROT_WRITE) (MAP_ANON OR MAP_PRIVATE) (- 1) 0 (mproc heap0) =
      (4096, (mproc heap0)\<lparr>kern := [(4096, 4096)]\<rparr>)"
    by (simp add: mmap_def syscall6_def heap0_def map_top_def SYS_MMAP_def word_sless_alt
        ERRNO_FIRST_def ERRNO_LAST_def word_sle_eq)
  then have "\<exists>st'. malloc top_kernel 100 heap0 = Ret (4144, st') \<and> curh st' = 4096"
    by (simp add: malloc_def acquire_def s_malloc_def need_segment_def new_segment_def z heap0_def
        upd_hdr_def release_def Let_def HDRSZ_def MAP_FAILED_def)
  then show ?thesis using z by (auto simp: heap1_def)
qed

lemma heap1_ok: "heap_ok top_kernel set heap1 [4144 \<mapsto> 104]" and heap1_idle: "idle heap1"
proof -
  obtain r st' where m: "malloc top_kernel 100 heap0 = Ret (r, st')" "idle st'" "ram st' = ram heap0"
    "r = 0 \<longrightarrow> heap_ok top_kernel set st' Map.empty \<and> errno (mproc st') \<in> {ENOMEM, EOVERFLOW}"
    "r \<noteq> 0 \<longrightarrow> (Map.empty :: blocks) r = None \<and> unat r + unat (round8 100) < 2 ^ 64 \<and>
       heap_ok top_kernel set st' [r \<mapsto> unat (round8 100)]"
    by (rule malloc_spec[OF heap0_ok heap0_idle good_100])
  from m(1) heap1_run have "r = 4144" "st' = heap1" "round8 100 = 104" by simp_all
  with m show "heap_ok top_kernel set heap1 [4144 \<mapsto> 104]" "idle heap1" by simp_all
qed

theorem free_correct_witness:
  "\<exists>st'. free top_kernel 4144 heap1 = Ret st' \<and> idle st' \<and>
     heap_ok top_kernel set st' ([4144 \<mapsto> 104](4144 := None)) \<and> ram st' = ram heap1"
  by (rule free_correct[OF heap1_ok heap1_idle]) simp

lemma realloc_spec:
  assumes ok: "heap_ok K maps st live" "idle st" and p: "live old = Some n" "old \<noteq> 0" and sz: "good_size nsz"
  obtains r st' where "realloc K old nsz st = Ret (r, st')" "idle st'"
    "r = 0 \<longrightarrow> heap_ok K maps st' live \<and> ram st' = ram st"
    "r \<noteq> 0 \<longrightarrow> heap_ok K maps st' (live(r \<mapsto> unat (round8 nsz), old := None)) \<and>
       (\<forall>i < min n (unat nsz). ram st' (r + word_of_nat i) = ram st (old + word_of_nat i))"
proof -
  obtain st1 where a: "acquire st = Ret st1" "ram st1 = ram st" "heap_ok K maps st1 live"
    using acquire_idle[OF ok(2)] ok(1) by metis
  then obtain hs where L: "links st1 hs"
    and I: "hinv (pay st1) (maps (kern (mproc st1))) (curh st1) (bump st1) live"
    by (auto simp: heap_ok_def)
  obtain s e ob m where seg: "pay st1 s = Some (e, ob, m)" "unat s + 48 \<le> unat old"
    "unat old + n \<le> unat e" "8 \<le> n" "n \<le> unat m" by (rule hinv_seg_of[OF I p(1)])
  then obtain x where x: "hdrs st1 s = Some x" "h_end x = e" "maxsz x = m" by (auto simp: pay_def)
  have fs: "findseg old st1 = Ret s"
    using seg by (intro findseg_spec[OF L hinvD(2)[OF I] seg(1)]) simp_all
  let ?cnt = "unat (min (min m (e - old)) nsz)"
  have cnt: "min n (unat nsz) \<le> ?cnt"
    using seg by (auto simp: min_def word_le_nat_alt unat_sub_if')
  obtain r st2 where sm: "s_malloc K nsz st1 = Ret (r, st2)" "same_rest st1 st2"
    "r = 0 \<longrightarrow> heap_ok K maps st2 live \<and> errno (mproc st2) \<in> {ENOMEM, EOVERFLOW}"
    "r \<noteq> 0 \<longrightarrow> live r = None \<and> unat r + unat (round8 nsz) < 2 ^ 64 \<and>
       heap_ok K maps st2 (live(r \<mapsto> unat (round8 nsz)))"
    using s_malloc_spec[OF a(3)] sz by (metis good_size_def)
  have run: "realloc K old nsz st = (if r = 0 then Ret (0, release st2)
      else bind_out (s_free K old (st2\<lparr>ram := ram_move r old ?cnt (ram st2)\<rparr>)) (\<lambda>s. Ret (r, release s)))"
    using a(1) fs x sm(1) p(2) by (simp add: realloc_def hdr_def Let_def)
  show thesis
  proof (cases "r = 0")
    case True
    then have "realloc K old nsz st = Ret (0, release st2)" unfolding run by simp
    then show thesis using True sm a(2)
      by (intro that[of 0 "release st2"]) (simp_all add: same_rest_def, simp_all add: release_def)
  next
    case False
    let ?s = "st2\<lparr>ram := ram_move r old ?cnt (ram st2)\<rparr>"
    have h: "heap_ok K maps ?s (live(r \<mapsto> unat (round8 nsz)))" using sm(4) False by simp
    have "r \<noteq> old" using sm(4) False p(1) by auto
    then have "(live(r \<mapsto> unat (round8 nsz))) old = Some n" using p(1) by simp
    from s_free_spec[OF h this] obtain st3 where f: "s_free K old ?s = Ret st3"
      "heap_ok K maps st3 (live(r \<mapsto> unat (round8 nsz), old := None))" "same_rest ?s st3" .
    have "realloc K old nsz st = Ret (r, release st3)"
      unfolding run using False f(1) by simp
    moreover have "ram (release st3) (r + word_of_nat i) = ram st (old + word_of_nat i)"
      if "i < min n (unat nsz)" for i
    proof -
      have "unat (word_of_nat i :: long) = i"
        using that unat_less64[of nsz] by (simp add: unat_of_nat)
      moreover have "i < ?cnt" using that cnt by linarith
      ultimately have "ram ?s (r + word_of_nat i) = ram st2 (old + word_of_nat i)"
        by (simp add: ram_move_def)
      then show ?thesis using f(3) sm(2) a(2) by (simp add: same_rest_def release_def)
    qed
    ultimately show thesis using False f(2) by (intro that[of r "release st3"]) (simp_all del: fun_upd_apply)
  qed
qed





lemma findseg_none:
  assumes "dls h pr q hs 0" "\<forall>b x. b \<in> set hs \<longrightarrow> h b = Some x \<longrightarrow> \<not> (h_start x \<le> p \<and> p < h_end x)"
  shows "s_findseg h p q = Some 0"
  using assms
proof (induction hs arbitrary: pr q)
  case Nil
  then show ?case by (subst s_findseg.simps) simp
next
  case (Cons b bs)
  then obtain x where x: "h b = Some x" "q = b" "b \<noteq> 0" "dls h b (h_next x) bs 0" by (auto split: option.splits)
  moreover have "s_findseg h p (h_next x) = Some 0" using Cons.IH[OF x(4)] Cons.prems(2) by simp
  ultimately show ?case using Cons.prems(2) by (subst s_findseg.simps) auto
qed

text \<open>
  \<open>free(NULL)\<close> ends the process. In every well-formed heap, freeing the null pointer, like
  any pointer into no segment, leaves through \<open>errx\<close> with the message \<open>free: bad pointer\<close>.
\<close>

theorem free_bad_pointer:
  assumes "heap_ok K maps st live" "idle st"
    and "p = 0 \<or> (\<forall>a e ob m. pay st a = Some (e, ob, m) \<longrightarrow> \<not> (a \<le> p \<and> p < e))"
  shows "free K p st = Errx (- 1) ''free: bad pointer''"
proof -
  obtain st1 where a: "acquire st = Ret st1" "findseg p st1 = findseg p st"
    using acquire_idle[OF assms(2)] by metis
  from assms(1) obtain hs where L: "links st hs"
    and I: "hinv (pay st) (maps (kern (mproc st))) (curh st) (bump st) live" by (auto simp: heap_ok_def)
  have "\<not> (h_start x \<le> p \<and> p < h_end x)" if "hdrs st b = Some x" for b x
  proof -
    have "pay st b = Some (h_end x, objs x, maxsz x)" using that by (simp add: pay_def)
    moreover from hinvD(1)[OF I this] have "b \<noteq> 0" by (simp add: seg_inv_def)
    moreover have "h_start x = b" using L that by (simp add: links_def)
    ultimately show ?thesis using assms(3) by auto
  qed
  then have "findseg p st = Ret 0"
    using L findseg_none[of "hdrs st" 0 "allh st" hs p] by (auto simp: findseg_def links_def)
  with a show ?thesis by (simp add: free_def s_free_def)
qed

theorem free_bad_pointer_witness: "free top_kernel 0 heap1 = Errx (- 1) ''free: bad pointer''"
  by (rule free_bad_pointer[OF heap1_ok heap1_idle]) simp

text \<open>
  sizes within 7 of the end of the address space wrap to zero: with a current segment, \<open>malloc\<close>
  then returns the \<open>bump\<close> pointer without reserving a byte, so the next request gets the same address.
\<close>

theorem malloc_size_wraps:
  assumes "heap_ok K maps st live" "idle st" "curh st \<noteq> 0" "2 ^ 64 \<le> unat sz + 7"
  shows "\<exists>st'. malloc K sz st = Ret (bump st, st') \<and> bump st' = bump st"
proof -
  have "unat (sz + 7) = unat sz + 7 - 2 ^ 64"
    using assms(4) unat_less64[of sz] by (simp add: unat_word_ariths le_mod_geq)
  then have "unat (sz + 7) < 8" using unat_less64[of sz] by simp
  then have r: "round8 sz = 0"
    using align_down[of "sz + 7" 3] by (simp add: round8_def mask_7 unat_eq_0)
  from assms(1) have I: "hinv (pay st) (maps (kern (mproc st))) (curh st) (bump st) live"
    by (simp add: heap_ok_def)
  from hinvD(3)[OF I] assms(3) obtain x where x: "hdrs st (curh st) = Some x" by (auto simp: pay_def)
  obtain st1 where a: "acquire st = Ret st1" "hdrs st1 = hdrs st" "curh st1 = curh st" "bump st1 = bump st"
    using acquire_idle[OF assms(2)] by metis
  have "sz \<noteq> 0" using assms(4) by auto
  with a x r assms(3) show ?thesis
    by (simp add: malloc_def s_malloc_def need_segment_def hdr_def upd_hdr_def release_def)
qed

theorem malloc_size_wraps_witness:
  "\<exists>st'. malloc top_kernel 0xFFFFFFFFFFFFFFFF heap1 = Ret (bump heap1, st') \<and> bump st' = bump heap1"
  by (rule malloc_size_wraps[OF heap1_ok heap1_idle]) (simp_all add: heap1_run)

end
