(* ===== verification/Litc_Stdio.thy ===== *)
theory Litc_Stdio
  imports Litc_Malloc Litc_Printf
begin

unbundle bit_operations_syntax

text \<open>
  The streams of \<open>litc.c\<close> (lines 1500 to 1960 and \<open>vfprintf\<close>, \<open>printf\<close>): \<open>fopen\<close>, \<open>fclose\<close>, \<open>fflush\<close>, \<open>fread\<close>,
  \<open>fwrite\<close>, \<open>fgetc\<close>, \<open>ungetc\<close>, \<open>fgets\<close> and the formatted output on a stream.

  A \<open>FILE\<close> is the record of that name; its pointers \<open>p\<close> and \<open>end\<close> into its own buffer are offsets from
  \<open>buf\<close>, and they are integers because the code can move \<open>end\<close> in front of the buffer. The static
  functions work on one file and the process; the functions of the interface find the file behind a
  pointer in a store, hold its mutex around the work, and update the store. A mutex that is taken is a
  wait for another thread (\<open>Block\<close>); what happens between threads is the subject of the theory of locks.

  \<open>fread\<close>, \<open>fwrite\<close> and \<open>fflush(NULL)\<close> have loops that need not end: their results are options, and \<open>None\<close> is a
  call that does not return.
\<close>

section \<open>State\<close>

definition BUFSIZ :: nat where "BUFSIZ = 4096"
definition EOF :: cint where "EOF = - 1"
definition s_IOFBF :: cint where "s_IOFBF = 1"
definition s_IONBF :: cint where "s_IONBF = 3"
definition EBADF :: cint where "EBADF = 9"
definition FUTEX_WAKE :: cint where "FUTEX_WAKE = 2"
definition SEEK_CUR :: cint where "SEEK_CUR = 2"

definition S_ISREG_c :: "cint \<Rightarrow> bool" where "S_ISREG_c m \<longleftrightarrow> m AND 0xf000 = 0x8000"

record FILE =
  f_fd :: cint
  btype :: cint
  fbuf :: "byte list"
  fp :: int
  fend :: int
  eof :: cint
  ferr :: cint
  writing :: cint
  fmut :: cint
  lnext :: long
  lprev :: long

text \<open>The process with its heap, the store of files, and \<open>_allfiles\<close>.\<close>

record 'k io =
  iom :: "'k mstate"
  files :: "long \<Rightarrow> FILE option"
  allhead :: long
  allmut :: cint

abbreviation io_proc :: "'k io \<Rightarrow> 'k proc" where "io_proc st \<equiv> mproc (iom st)"

definition set_proc :: "'k proc \<Rightarrow> 'k io \<Rightarrow> 'k io" where
  "set_proc p st = st\<lparr>iom := (iom st)\<lparr>mproc := p\<rparr>\<rparr>"

definition upd_file :: "long \<Rightarrow> (FILE \<Rightarrow> FILE) \<Rightarrow> 'k io \<Rightarrow> ('k io) outcome" where
  "upd_file f g st =
     (case files st f of None \<Rightarrow> Fault | Some x \<Rightarrow> Ret (st\<lparr>files := (files st)(f \<mapsto> g x)\<rparr>))"

section \<open>Mutexes, as one thread sees them\<close>

definition futex :: "'k kernel \<Rightarrow> cint \<Rightarrow> sysarg \<Rightarrow> sysarg \<Rightarrow> cint \<Rightarrow> sysarg \<Rightarrow> 'k proc \<Rightarrow> 'k icall" where
  "futex K op fut fut2 aux ts = sys_neg K [SAi op, fut, fut2, SAi aux, ts] SYS_FUTEX"

definition mut_lock :: "bool \<Rightarrow> cint \<Rightarrow> cint outcome" where
  "mut_lock dolk m = (if \<not> dolk then Ret m else if m = 0 then Ret 1 else Block)"

definition mut_unlock :: "'k kernel \<Rightarrow> cint \<Rightarrow> 'k proc \<Rightarrow> 'k proc" where
  "mut_unlock K old p =
     (if old = 2 then snd (snd (futex K FUTEX_WAKE (SP (to_le 4 (0 :: cint))) NULL 1 NULL p)) else p)"

definition lock_file :: "long \<Rightarrow> 'k io \<Rightarrow> FILE outcome" where
  "lock_file f st =
     (case files st f of None \<Rightarrow> Fault
      | Some x \<Rightarrow> bind_out (mut_lock (dolock (iom st)) (fmut x)) (\<lambda>m. Ret (x\<lparr>fmut := m\<rparr>)))"

definition unlock_file :: "'k kernel \<Rightarrow> long \<Rightarrow> FILE \<Rightarrow> 'k proc \<Rightarrow> 'k io \<Rightarrow> 'k io" where
  "unlock_file K f x p st =
     set_proc (mut_unlock K (fmut x) p) (st\<lparr>files := (files st)(f \<mapsto> x\<lparr>fmut := 0\<rparr>)\<rparr>)"

definition with_file ::
  "'k kernel \<Rightarrow> long \<Rightarrow> (FILE \<Rightarrow> 'k proc \<Rightarrow> ('a \<times> FILE \<times> 'k proc) outcome) \<Rightarrow> 'k io \<Rightarrow> ('a \<times> 'k io) outcome"
where
  "with_file K f body st =
     bind_out (lock_file f st) (\<lambda>x.
     bind_out (body x (io_proc st)) (\<lambda>(r, y, p). Ret (r, unlock_file K f y p st)))"

text \<open>The same around a loop.\<close>

fun bind_loop :: "'a outcome \<Rightarrow> ('a \<Rightarrow> 'b outcome option) \<Rightarrow> 'b outcome option" where
  "bind_loop (Ret x) f = f x"
| "bind_loop (Errx e m) f = Some (Errx e m)"
| "bind_loop Fault f = Some Fault"
| "bind_loop Block f = Some Block"

lemma bind_loop_mono [partial_function_mono]:
  assumes "\<And>x. mono_option (\<lambda>f. C x f)"
  shows "mono_option (\<lambda>f. bind_loop m (\<lambda>x. C x f))"
  by (cases m) (auto intro: assms option.const_mono)

definition with_file_loop ::
  "'k kernel \<Rightarrow> long \<Rightarrow> (FILE \<Rightarrow> 'k proc \<Rightarrow> ('a \<times> FILE \<times> 'k proc) outcome option) \<Rightarrow> 'k io \<Rightarrow> ('a \<times> 'k io) outcome option"
where
  "with_file_loop K f body st =
     bind_loop (lock_file f st) (\<lambda>x.
       map_option (\<lambda>o1. bind_out o1 (\<lambda>(r, y, p). Ret (r, unlock_file K f y p st))) (body x (io_proc st)))"

section \<open>Status\<close>

definition ferror :: "'k kernel \<Rightarrow> long \<Rightarrow> 'k io \<Rightarrow> (cint \<times> 'k io) outcome" where
  "ferror K f = with_file K f (\<lambda>x p. Ret (ferr x, x, p))"

definition fileno :: "'k kernel \<Rightarrow> long \<Rightarrow> 'k io \<Rightarrow> (cint \<times> 'k io) outcome" where
  "fileno K f = with_file K f (\<lambda>x p. Ret (f_fd x, x, p))"

definition feof :: "'k kernel \<Rightarrow> long \<Rightarrow> 'k io \<Rightarrow> (cint \<times> 'k io) outcome" where
  "feof K f = with_file K f (\<lambda>x p. Ret (eof x, x, p))"

text \<open>\<open>FDINIT(f, fdn, bt)\<close>: a static \<open>FILE\<close>, all zero before, is put at the head of the list.\<close>

definition file0 :: FILE where
  "file0 = \<lparr>f_fd = 0, btype = 0, fbuf = replicate BUFSIZ 0, fp = 0, fend = 0, eof = 0, ferr = 0, writing = 0,
     fmut = 0, lnext = 0, lprev = 0\<rparr>"

definition link_head :: "long \<Rightarrow> 'k io \<Rightarrow> ('k io) outcome" where
  "link_head f st =
     bind_out (upd_file f (\<lambda>x. x\<lparr>lnext := allhead st\<rparr>) st) (\<lambda>st1.
     bind_out (if allhead st \<noteq> 0 then upd_file (allhead st) (\<lambda>x. x\<lparr>lprev := f\<rparr>) st1 else Ret st1) (\<lambda>st2.
       Ret (st2\<lparr>allhead := f\<rparr>)))"

definition FDINIT :: "long \<Rightarrow> cint \<Rightarrow> cint \<Rightarrow> 'k io \<Rightarrow> ('k io) outcome" where
  "FDINIT f fdn bt st =
     bind_out (upd_file f (\<lambda>x. x\<lparr>f_fd := fdn, fp := 0, fend := 0, lprev := 0, btype := bt, fmut := 0\<rparr>) st)
       (link_head f)"

definition fdinit :: "long \<Rightarrow> long \<Rightarrow> long \<Rightarrow> 'k io \<Rightarrow> ('k io) outcome" where
  "fdinit s_stdin s_stdout s_stderr st =
     bind_out (FDINIT s_stdin 0 s_IONBF st) (\<lambda>st1.
     bind_out (FDINIT s_stdout 1 s_IONBF st1) (\<lambda>st2.
     bind_out (FDINIT s_stderr 2 s_IONBF st2) (\<lambda>st3. Ret (st3\<lparr>allmut := 0\<rparr>))))"

section \<open>Flushing\<close>

text \<open>The warning about a short write is printed on \<open>stdout\<close>; here it is recorded like the others.\<close>

definition s_fflush :: "'k kernel \<Rightarrow> FILE \<Rightarrow> 'k proc \<Rightarrow> cint \<times> FILE \<times> 'k proc" where
  "s_fflush K f p =
     (if writing f = 0 then (0, f, p)
      else
        let len = word_of_int (fp f) :: long in
        case write_c K (f_fd f) (SP (fbuf f)) len p of (r, _, p1) \<Rightarrow>
          if r <s 0 then (EOF, f\<lparr>ferr := errno p1\<rparr>, p1)
          else if r \<noteq> len then (EOF, f, warn ''asked: %zu, actual: %zu'' p1)
          else (0, f\<lparr>fp := 0, fend := 0\<rparr>, p1))"

definition fflush :: "'k kernel \<Rightarrow> long \<Rightarrow> 'k io \<Rightarrow> (cint \<times> 'k io) outcome" where
  "fflush K f = with_file K f (\<lambda>x p. Ret (s_fflush K x p))"

text \<open>\<open>fflush(NULL)\<close>: the list is followed after each flush.\<close>

partial_function (option) fflush_list :: "'k kernel \<Rightarrow> cint \<Rightarrow> long \<Rightarrow> 'k io \<Rightarrow> (cint \<times> 'k io) outcome option" where
  "fflush_list K ret f st =
     (if f = 0 then Some (Ret (ret, st))
      else bind_loop (fflush K f st) (\<lambda>(r, st1).
        case files st1 f of None \<Rightarrow> Some Fault | Some x \<Rightarrow> fflush_list K (ret OR r) (lnext x) st1))"

definition fflush_all :: "'k kernel \<Rightarrow> 'k io \<Rightarrow> (cint \<times> 'k io) outcome option" where
  "fflush_all K st =
     bind_loop (mut_lock (dolock (iom st)) (allmut st)) (\<lambda>m.
       map_option (\<lambda>o1. bind_out o1 (\<lambda>(r, st1).
         Ret (r, set_proc (mut_unlock K (allmut st1) (io_proc st1)) (st1\<lparr>allmut := 0\<rparr>))))
         (fflush_list K 0 (allhead st) (st\<lparr>allmut := m\<rparr>)))"

section \<open>Opening and closing\<close>

text \<open>\<open>strchr(mode, c) != NULL\<close>; the mode is a string.\<close>

definition mode_has :: "byte list \<Rightarrow> byte \<Rightarrow> bool option" where
  "mode_has mode c = map_option (\<lambda>r. r \<noteq> None) (strchr mode (sint c))"

definition fopen_flags :: "byte \<Rightarrow> bool \<Rightarrow> bool \<Rightarrow> cint option" where
  "fopen_flags m0 pl x =
     (if m0 = 114 then Some (if pl then O_RDWR else O_RDONLY)
      else if m0 = 119 then
        Some ((if pl then O_RDWR OR O_CREAT OR O_TRUNC else O_WRONLY OR O_CREAT OR O_TRUNC) OR (if x then O_EXCL else 0))
      else if m0 = 97 then
        Some ((if pl then O_RDWR OR O_CREAT OR O_APPEND else O_WRONLY OR O_CREAT OR O_APPEND) OR (if x then O_EXCL else 0))
      else None)"

definition FILESZ :: long where "FILESZ = 4152"
definition STATSZ :: nat where "STATSZ = 120"

text \<open>\<open>st.st_mode\<close>, at offset 24.\<close>

definition stat_mode :: "byte list \<Rightarrow> cint" where
  "stat_mode st = from_le (take 4 (drop 24 st))"

text \<open>A descriptor is at hand: the file is set up and put on the list.\<close>

definition fopen_setup :: "'k kernel \<Rightarrow> long \<Rightarrow> cint \<Rightarrow> 'k io \<Rightarrow> (long \<times> 'k io) outcome" where
  "fopen_setup K ret fd st =
     (case fstat K fd (SP (replicate STATSZ 0)) (io_proc st) of (r, as, p) \<Rightarrow>
      let bt = (if r = 0 \<and> S_ISREG_c (stat_mode (obj (as ! 1))) then s_IOFBF else s_IONBF);
          st1 = set_proc p (st\<lparr>files := (files st)(ret \<mapsto> file0\<lparr>f_fd := fd, btype := bt\<rparr>)\<rparr>)
      in bind_out (mut_lock (dolock (iom st1)) (allmut st1)) (\<lambda>m.
         bind_out (link_head ret (st1\<lparr>allmut := m\<rparr>)) (\<lambda>st2.
           Ret (ret, set_proc (mut_unlock K (allmut st2) (io_proc st2)) (st2\<lparr>allmut := 0\<rparr>)))))"

text \<open>
  \<open>path\<close> is \<open>None\<close> for \<open>fdopen\<close>; the result 0 is \<open>NULL\<close>. \<open>open\<close> is called without the permissions of a file it
  creates and takes what it finds in their place: \<open>um\<close>.
\<close>

definition fopen_fd :: "'k kernel \<Rightarrow> cint \<Rightarrow> byte list option \<Rightarrow> cint \<Rightarrow> cint \<Rightarrow> 'k proc \<Rightarrow> cint \<times> 'k proc" where
  "fopen_fd K um path gfd flags p =
     (case path of
        Some pth \<Rightarrow> (case open_c K pth flags um p of (r, _, p') \<Rightarrow> (r, p'))
      | None \<Rightarrow> (gfd, if gfd <s 0 then p\<lparr>errno := EBADF\<rparr> else p))"

definition s_fopen ::
  "'k kernel \<Rightarrow> cint \<Rightarrow> byte list option \<Rightarrow> cint \<Rightarrow> byte list \<Rightarrow> 'k io \<Rightarrow> (long \<times> 'k io) outcome"
where
  "s_fopen K um path gfd mode st =
     (case (mode_has mode 43, mode_has mode 120, mode) of
        (Some pl, Some x, m0 # _) \<Rightarrow>
          (case fopen_flags m0 pl x of
             None \<Rightarrow> Ret (0, set_proc ((io_proc st)\<lparr>errno := EINVAL\<rparr>) st)
           | Some fl \<Rightarrow>
               (case mode_has mode 101 of None \<Rightarrow> Fault
                | Some e \<Rightarrow>
                    bind_out (malloc K FILESZ (iom st)) (\<lambda>(ret, ms).
                      let st1 = st\<lparr>iom := ms\<rparr> in
                      if ret = 0 then Ret (0, set_proc ((io_proc st1)\<lparr>errno := ENOMEM\<rparr>) st1)
                      else
                        let (fd, p) = fopen_fd K um path gfd (fl OR (if e then O_CLOEXEC else 0)) (io_proc st1);
                            st2 = set_proc p st1
                        in if fd <s 0 then bind_out (free K ret (iom st2)) (\<lambda>ms'. Ret (0, st2\<lparr>iom := ms'\<rparr>))
                           else fopen_setup K ret fd st2)))
      | _ \<Rightarrow> Fault)"

definition fdopen :: "'k kernel \<Rightarrow> cint \<Rightarrow> cint \<Rightarrow> byte list \<Rightarrow> 'k io \<Rightarrow> (long \<times> 'k io) outcome" where
  "fdopen K um fd mode = s_fopen K um None fd mode"

definition fopen :: "'k kernel \<Rightarrow> cint \<Rightarrow> byte list \<Rightarrow> byte list \<Rightarrow> 'k io \<Rightarrow> (long \<times> 'k io) outcome" where
  "fopen K um path mode = s_fopen K um (Some path) (- 1) mode"

definition unlink_file :: "long \<Rightarrow> FILE \<Rightarrow> 'k io \<Rightarrow> ('k io) outcome" where
  "unlink_file f x st =
     bind_out (if lnext x \<noteq> 0 then upd_file (lnext x) (\<lambda>y. y\<lparr>lprev := lprev x\<rparr>) st else Ret st) (\<lambda>st1.
     bind_out (if lprev x \<noteq> 0 then upd_file (lprev x) (\<lambda>y. y\<lparr>lnext := lnext x\<rparr>) st1 else Ret st1) (\<lambda>st2.
       Ret (if allhead st2 = f then st2\<lparr>allhead := lnext x\<rparr> else st2)))"

text \<open>The object is given back last; what is stored into it before (\<open>fd = -1\<close> and so on) goes with it.\<close>

definition fclose :: "'k kernel \<Rightarrow> long \<Rightarrow> 'k io \<Rightarrow> (cint \<times> 'k io) outcome" where
  "fclose K f st =
     (case files st f of None \<Rightarrow> Fault
      | Some x \<Rightarrow>
          bind_out (mut_lock (dolock (iom st)) (allmut st)) (\<lambda>m.
          bind_out (unlink_file f x (st\<lparr>allmut := m\<rparr>)) (\<lambda>st1.
            let st2 = set_proc (mut_unlock K (allmut st1) (io_proc st1)) (st1\<lparr>allmut := 0\<rparr>) in
          bind_out (with_file K f (\<lambda>y p. case s_fflush K y p of (_, z, p') \<Rightarrow> Ret (0, z\<lparr>f_fd := - 1\<rparr>, p')) st2)
            (\<lambda>(r, st3).
          bind_out (free K f (iom st3)) (\<lambda>ms. Ret (r, st3\<lparr>iom := ms, files := (files st3)(f := None)\<rparr>))))))"

section \<open>Reading\<close>

text \<open>Load and store at an offset of the buffer.\<close>

definition ld :: "byte list \<Rightarrow> int \<Rightarrow> nat \<Rightarrow> byte list option" where
  "ld b i n = (if 0 \<le> i then loadn b (nat i) n else None)"

definition sto :: "byte list \<Rightarrow> int \<Rightarrow> byte list \<Rightarrow> byte list option" where
  "sto b i bs = (if 0 \<le> i then storen b (nat i) bs else None)"

text \<open>
  \<open>dst\<close> is the object read into and \<open>d\<close> the offset of the pointer in it. In the buffered case the result of
  \<open>read\<close> is a \<open>size_t\<close>: the test for a negative one never holds.
\<close>

definition fread1_copy :: "byte list \<Rightarrow> nat \<Rightarrow> long \<Rightarrow> FILE \<Rightarrow> 'k proc \<Rightarrow> ((long \<times> byte list) \<times> FILE \<times> 'k proc) outcome" where
  "fread1_copy dst d left f p =
     (let avail = word_of_int (fend f - fp f) :: long;
          ub = (if left < avail then left else avail)
      in case ld (fbuf f) (fp f) (unat ub) of None \<Rightarrow> Fault
         | Some bs \<Rightarrow> (case storen dst d bs of None \<Rightarrow> Fault
             | Some dst' \<Rightarrow> Ret ((ub, dst'), f\<lparr>fp := fp f + uint ub\<rparr>, p)))"

definition s_fread1 ::
  "'k kernel \<Rightarrow> byte list \<Rightarrow> nat \<Rightarrow> long \<Rightarrow> FILE \<Rightarrow> 'k proc \<Rightarrow> ((long \<times> byte list) \<times> FILE \<times> 'k proc) outcome"
where
  "s_fread1 K dst d left f p =
     (if \<not> (btype f = s_IOFBF \<or> btype f = s_IONBF) then Errx (- 1) ''noimp''
      else if btype f = s_IONBF then
        (case read_c K (f_fd f) (SP (drop d dst)) left p of (r, as, p1) \<Rightarrow>
          let dst' = take d dst @ obj (as ! 1) in
          if r <s 0 then Ret ((0, dst'), f\<lparr>ferr := errno p1\<rparr>, p1) else Ret ((r, dst'), f, p1))
      else
        case s_fflush K f p of (e, f1, p1) \<Rightarrow>
          if e \<noteq> 0 then Ret ((0, dst), f1, p1)
          else
            let f2 = f1\<lparr>writing := 0\<rparr> in
            if fp f2 = fend f2 \<and> eof f2 = 0 \<and> ferr f2 = 0 then
              (case read_c K (f_fd f2) (SP (fbuf f2)) (word_of_nat BUFSIZ) p1 of (r, as, p2) \<Rightarrow>
                let f3 = f2\<lparr>fbuf := obj (as ! 1)\<rparr> in
                if r = 0 then Ret ((0, dst), f3\<lparr>eof := 1\<rparr>, p2)
                else fread1_copy dst d left (f3\<lparr>fp := 0, fend := sint r\<rparr>) p2)
            else fread1_copy dst d left f2 p1)"

partial_function (option) fread_loop ::
  "'k kernel \<Rightarrow> byte list \<Rightarrow> nat \<Rightarrow> long \<Rightarrow> long \<Rightarrow> FILE \<Rightarrow> 'k proc \<Rightarrow> ((long \<times> byte list) \<times> FILE \<times> 'k proc) outcome option"
where
  "fread_loop K dst d left ret f p =
     (if left > 0 \<and> eof f = 0 \<and> ferr f = 0 then
        bind_loop (s_fread1 K dst d left f p) (\<lambda>((c, dst'), f', p').
          fread_loop K dst' (d + unat c) (left - c) (ret + c) f' p')
      else Some (Ret ((ret, dst), f, p)))"

definition fread ::
  "'k kernel \<Rightarrow> byte list \<Rightarrow> long \<Rightarrow> long \<Rightarrow> long \<Rightarrow> 'k io \<Rightarrow> ((long \<times> byte list) \<times> 'k io) outcome option"
where
  "fread K dst sz mem f st =
     (if sz = 0 then Some (Ret ((0, dst), st))
      else if mem > (- 1) div sz then Some (Ret ((0, dst), set_proc ((io_proc st)\<lparr>errno := - EOVERFLOW\<rparr>) st))
      else map_option (\<lambda>o1. bind_out o1 (\<lambda>((ret, dst'), st'). Ret ((ret div sz, dst'), st')))
        (with_file_loop K f (fread_loop K dst 0 (mem * sz) 0) st))"

section \<open>Writing\<close>

text \<open>Switch to write mode, and flush a full buffer.\<close>

definition fwrite1_room :: "'k kernel \<Rightarrow> FILE \<Rightarrow> 'k proc \<Rightarrow> cint \<times> FILE \<times> 'k proc" where
  "fwrite1_room K f p =
     (let f1 = (if writing f = 0 then f\<lparr>writing := 1, fp := 0, fend := 0\<rparr> else f)
      in if fp f1 = int BUFSIZ then
           (case s_fflush K f1 p of (e, f2, p1) \<Rightarrow>
             if e \<noteq> 0 then (e, f2, p1) else (0, f2\<lparr>fp := 0, fend := 0\<rparr>, p1))
         else (0, f1, p))"

definition fwrite1_put :: "byte list \<Rightarrow> long \<Rightarrow> FILE \<Rightarrow> 'k proc \<Rightarrow> (long \<times> FILE \<times> 'k proc) outcome" where
  "fwrite1_put src left f p =
     (let room = word_of_int (int BUFSIZ - fp f) :: long;
          put = (if room < left then room else left)
      in case loadn src 0 (unat put) of None \<Rightarrow> Fault
         | Some bs \<Rightarrow> (case sto (fbuf f) (fp f) bs of None \<Rightarrow> Fault
             | Some b \<Rightarrow> let np = fp f + uint put in
                 Ret (put, f\<lparr>fbuf := b, fp := np, fend := max np (fend f)\<rparr>, p)))"

definition s_fwrite1 ::
  "'k kernel \<Rightarrow> byte list \<Rightarrow> long \<Rightarrow> FILE \<Rightarrow> 'k proc \<Rightarrow> (long \<times> FILE \<times> 'k proc) outcome"
where
  "s_fwrite1 K src left f p =
     (if \<not> (btype f = s_IOFBF \<or> btype f = s_IONBF) then Errx (- 1) ''noimp''
      else if btype f = s_IONBF then
        (case write_c K (f_fd f) (SP src) left p of (r, _, p1) \<Rightarrow>
          if r <s 0 then Ret (0, f\<lparr>ferr := errno p1\<rparr>, p1) else Ret (r, f, p1))
      else
        case fwrite1_room K f p of (e, f1, p1) \<Rightarrow>
          if e \<noteq> 0 then Ret (0, f1, p1) else fwrite1_put src left f1 p1)"

partial_function (option) fwrite_loop ::
  "'k kernel \<Rightarrow> byte list \<Rightarrow> long \<Rightarrow> long \<Rightarrow> FILE \<Rightarrow> 'k proc \<Rightarrow> (long \<times> FILE \<times> 'k proc) outcome option"
where
  "fwrite_loop K src left ret f p =
     (if left > 0 \<and> ferr f = 0 then
        bind_loop (s_fwrite1 K src left f p) (\<lambda>(c, f', p').
          fwrite_loop K (drop (unat c) src) (left - c) (ret + c) f' p')
      else Some (Ret (ret, f, p)))"

definition fwrite ::
  "'k kernel \<Rightarrow> byte list \<Rightarrow> long \<Rightarrow> long \<Rightarrow> long \<Rightarrow> 'k io \<Rightarrow> (long \<times> 'k io) outcome option"
where
  "fwrite K src sz mem f st =
     (if sz = 0 then Some (Ret (0, st))
      else if mem > (- 1) div sz then Some (Ret (0, set_proc ((io_proc st)\<lparr>errno := - EOVERFLOW\<rparr>) st))
      else map_option (\<lambda>o1. bind_out o1 (\<lambda>(ret, st'). Ret (ret div sz, st')))
        (with_file_loop K f (fwrite_loop K src (mem * sz) 0) st))"

section \<open>Characters and lines\<close>

text \<open>The \<open>char\<close> that \<open>_fgetc\<close> reads into is not initialised; it is 0 here. It is returned as a signed number.\<close>

definition s_fgetc :: "'k kernel \<Rightarrow> FILE \<Rightarrow> 'k proc \<Rightarrow> (cint \<times> FILE \<times> 'k proc) outcome" where
  "s_fgetc K f p =
     bind_out (s_fread1 K [0] 0 1 f p) (\<lambda>((r, b), f', p').
       Ret (if r \<noteq> 1 then EOF else scast (b ! 0), f', p'))"

definition fgetc :: "'k kernel \<Rightarrow> long \<Rightarrow> 'k io \<Rightarrow> (cint \<times> 'k io) outcome" where
  "fgetc K f = with_file K f (s_fgetc K)"

definition s_ungetc :: "cint \<Rightarrow> FILE \<Rightarrow> (cint \<times> FILE) outcome" where
  "s_ungetc c f =
     (if fp f = 0 then Ret (EOF, f)
      else case sto (fbuf f) (fp f - 1) [ucast c] of None \<Rightarrow> Fault
        | Some b \<Rightarrow> Ret (ucast (ucast c :: byte), f\<lparr>fp := fp f - 1, fbuf := b, eof := 0\<rparr>))"

definition ungetc :: "'k kernel \<Rightarrow> cint \<Rightarrow> long \<Rightarrow> 'k io \<Rightarrow> (cint \<times> 'k io) outcome" where
  "ungetc K c f st =
     (if c = EOF then Ret (c, st)
      else with_file K f (\<lambda>x p. bind_out (s_ungetc c x) (\<lambda>(r, y). Ret (r, y, p))) st)"

text \<open>The loop of \<open>fgets\<close>: the flag tells whether \<open>buf\<close> is returned (otherwise \<open>NULL\<close>).\<close>

function fgets_loop ::
  "'k kernel \<Rightarrow> byte list \<Rightarrow> nat \<Rightarrow> nat \<Rightarrow> FILE \<Rightarrow> 'k proc \<Rightarrow> ((bool \<times> nat \<times> byte list) \<times> FILE \<times> 'k proc) outcome"
where
  "fgets_loop K buf c sz f p =
     (if c < sz then
        bind_out (s_fgetc K f p) (\<lambda>(ch, f', p').
          if ch = EOF then Ret ((c > 0, c, buf), f', p')
          else if c < length buf then
            if ch = 10 then Ret ((True, c + 1, buf[c := ucast ch]), f', p')
            else fgets_loop K (buf[c := ucast ch]) (c + 1) sz f' p'
          else Fault)
      else Ret ((True, c, buf), f, p))"
  by pat_completeness auto
termination
  by (relation "measure (\<lambda>(K, buf, c, sz, f, p). sz - c)") auto

declare fgets_loop.simps [simp del]

definition fgets ::
  "'k kernel \<Rightarrow> byte list \<Rightarrow> cint \<Rightarrow> long \<Rightarrow> 'k io \<Rightarrow> ((bool \<times> byte list) \<times> 'k io) outcome"
where
  "fgets K buf sz f st =
     (if sz = 0 then Ret ((False, buf), st)
      else with_file K f (\<lambda>x p.
        bind_out (fgets_loop K buf 0 (unat (scast (sz - 1) :: long)) x p) (\<lambda>((r, c, b), y, p').
          if c < length b then Ret ((r, b[c := 0]), y, p') else Fault)) st)"

definition ftello :: "'k kernel \<Rightarrow> long \<Rightarrow> 'k io \<Rightarrow> (long \<times> 'k io) outcome" where
  "ftello K f st =
     (case files st f of None \<Rightarrow> Fault
      | Some x \<Rightarrow> (case lseek K (f_fd x) 0 SEEK_CUR (io_proc st) of (r, _, p) \<Rightarrow> Ret (r, set_proc p st)))"

section \<open>Formatted output\<close>

text \<open>The buffer on the stack is not initialised; it is zero here.\<close>

definition vfprintf_c ::
  "'k kernel \<Rightarrow> (rat \<Rightarrow> rat) \<Rightarrow> long \<Rightarrow> byte list \<Rightarrow> varg list \<Rightarrow> 'k io \<Rightarrow> (cint \<times> 'k io) outcome option"
where
  "vfprintf_c K rnd f fmt ap st =
     (case strlen fmt of None \<Rightarrow> Some Fault
      | Some n \<Rightarrow>
          let st1 = (if n \<ge> 2048 then set_proc (warn ''warning: fmt too long'' (io_proc st)) st else st) in
          case vsnprintf rnd 0 2048 fmt ap (replicate 2048 0) of None \<Rightarrow> Some Fault
          | Some (ret, lbuf) \<Rightarrow>
              map_option (\<lambda>o1. bind_out o1 (\<lambda>(w, st'). Ret (ucast w, st')))
                (fwrite K lbuf (word_of_nat ret) 1 f st1))"

definition fprintf_c ::
  "'k kernel \<Rightarrow> (rat \<Rightarrow> rat) \<Rightarrow> long \<Rightarrow> byte list \<Rightarrow> varg list \<Rightarrow> 'k io \<Rightarrow> (cint \<times> 'k io) outcome option"
where
  "fprintf_c K rnd f fmt ap = vfprintf_c K rnd f fmt ap"

definition printf_c ::
  "'k kernel \<Rightarrow> (rat \<Rightarrow> rat) \<Rightarrow> long \<Rightarrow> byte list \<Rightarrow> varg list \<Rightarrow> 'k io \<Rightarrow> (cint \<times> 'k io) outcome option"
where
  "printf_c K rnd s_stdout fmt ap = vfprintf_c K rnd s_stdout fmt ap"

text \<open>The library's \<open>exit\<close>: all streams are flushed before the process ends.\<close>

definition exit_c ::
  "'k kernel \<Rightarrow> (rat \<Rightarrow> rat) \<Rightarrow> long \<Rightarrow> cint \<Rightarrow> 'k io \<Rightarrow> ((unit outcome \<times> 'k proc) outcome) option"
where
  "exit_c K rnd s_stderr ret st =
     Option.bind (fflush_all K st) (\<lambda>o1. bind_loop o1 (\<lambda>(r, st1).
       if r \<noteq> 0 then
         map_option (\<lambda>o2. bind_out o2 (\<lambda>(_, st2). Ret (s_exit K ret (io_proc st2))))
           (fprintf_c K rnd s_stderr (lit (''warning: failed to fflush'' @ [char_of (10 :: nat)])) [] st1)
       else Some (Ret (s_exit K ret (io_proc st1)))))"

section \<open>What the streams rely on\<close>

text \<open>
  The comment at the fields of \<open>FILE\<close>: the pointers lie in the buffer, in this order; and an unbuffered
  stream has nothing to flush. The links, the
  descriptor and the mutex are changed by no operation on the contents.
\<close>

definition stream_ok :: "FILE \<Rightarrow> bool" where
  "stream_ok f \<longleftrightarrow> length (fbuf f) = BUFSIZ \<and> 0 \<le> fp f \<and> fp f \<le> fend f \<and> fend f \<le> int BUFSIZ \<and>
     (btype f = s_IOFBF \<or> btype f = s_IONBF \<and> writing f = 0)"

lemma btype_neq [simp]: "s_IOFBF \<noteq> s_IONBF" "s_IONBF \<noteq> s_IOFBF"
  by (simp_all add: s_IOFBF_def s_IONBF_def)

definition same_file :: "FILE \<Rightarrow> FILE \<Rightarrow> bool" where
  "same_file f g \<longleftrightarrow> f_fd g = f_fd f \<and> btype g = btype f \<and> fmut g = fmut f \<and> lnext g = lnext f \<and> lprev g = lprev f"

lemma same_file_refl [simp]: "same_file f f"
  by (simp add: same_file_def)

lemma same_file_trans: "same_file f g \<Longrightarrow> same_file g h \<Longrightarrow> same_file f h"
  by (simp add: same_file_def)

text \<open>The file behind a descriptor, as far as writing goes: \<open>write\<close> appends all it is given.\<close>

definition appends :: "'k kernel \<Rightarrow> cint \<Rightarrow> ('k \<Rightarrow> byte list) \<Rightarrow> bool" where
  "appends K fd out \<longleftrightarrow>
     (\<forall>bs n w k r as k'. K SYS_WRITE [SAi fd, SP bs, SA n, w, SA 0, SA 0] k = (r, as, k') \<longrightarrow>
        unat n \<le> length bs \<longrightarrow> unat n < 2 ^ 31 \<longrightarrow> r = n \<and> out k' = out k @ take (unat n) bs)"

text \<open>
  And as far as reading goes: \<open>read\<close> delivers at least one and at most as many bytes as asked for of those
  that are left, and 0 at the end.
\<close>

definition delivers :: "'k kernel \<Rightarrow> cint \<Rightarrow> ('k \<Rightarrow> byte list) \<Rightarrow> bool" where
  "delivers K fd inp \<longleftrightarrow>
     (\<forall>bs n w k r as k'. K SYS_READ [SAi fd, SP bs, SA n, w, SA 0, SA 0] k = (r, as, k') \<longrightarrow>
        0 < unat n \<longrightarrow> unat n \<le> length bs \<longrightarrow> unat n < 2 ^ 31 \<longrightarrow>
        unat r \<le> unat n \<and> unat r \<le> length (inp k) \<and> (r = 0 \<longleftrightarrow> inp k = []) \<and>
        (\<exists>as'. as = SAi fd # SP (take (unat r) (inp k) @ drop (unat r) bs) # as') \<and>
        inp k' = drop (unat r) (inp k))"

text \<open>What has been written to a stream: the file, and what waits in the buffer.\<close>

definition content :: "('k \<Rightarrow> byte list) \<Rightarrow> FILE \<Rightarrow> 'k proc \<Rightarrow> byte list" where
  "content out f p = out (kern p) @ (if writing f \<noteq> 0 then take (nat (fp f)) (fbuf f) else [])"

text \<open>What can be read from it: the rest of the buffer, and the rest of the file.\<close>

definition unread :: "('k \<Rightarrow> byte list) \<Rightarrow> FILE \<Rightarrow> 'k proc \<Rightarrow> byte list" where
  "unread inp f p =
     (if btype f = s_IOFBF \<and> writing f = 0 then drop (nat (fp f)) (take (nat (fend f)) (fbuf f)) else []) @ inp (kern p)"

lemma unat_word_of_int_small:
  assumes "0 \<le> i" "i < 2 ^ 64"
  shows "unat (word_of_int i :: long) = nat i"
proof -
  have "uint (word_of_int i :: long) = i" using assms by (simp add: uint_word_of_int take_bit_int_eq_self)
  then show ?thesis by (simp only: unat_eq_nat_uint)
qed

lemma unat_word_of_nat_small: "n < 2 ^ 64 \<Longrightarrow> unat (word_of_nat n :: long) = n"
  by (simp add: unsigned_of_nat take_bit_nat_eq_self)

lemma char_int_neq:
  fixes b :: byte
  shows "(scast b :: cint) = - 1 \<longleftrightarrow> b = - 1" "(scast b :: cint) = 10 \<longleftrightarrow> b = 10" "ucast (scast b :: cint) = b"
proof -
  show u: "ucast (scast b :: cint) = b" by (rule bit_word_eqI) (auto simp: bit_simps)
  have v: "(scast (- 1 :: byte) :: cint) = - 1" "(scast (10 :: byte) :: cint) = 10" "(ucast (- 1 :: cint) :: byte) = - 1"
    "(ucast (10 :: cint) :: byte) = 10" by code_simp+
  show "(scast b :: cint) = - 1 \<longleftrightarrow> b = - 1" using u v(1,3) by metis
  show "(scast b :: cint) = 10 \<longleftrightarrow> b = 10" using u v(2,4) by metis
qed

lemma fgets_size:
  assumes "0 < n" "n < 2 ^ 31"
  shows "unat (scast (word_of_nat n - 1 :: cint) :: long) = n - 1" "(word_of_nat n :: cint) \<noteq> 0"
proof -
  have w: "(word_of_nat n - 1 :: cint) = ucast (word_of_nat (n - 1) :: long)"
  proof -
    have "(ucast (word_of_nat m :: long) :: cint) = word_of_nat m" for m by (rule bit_word_eqI) (auto simp: bit_simps)
    then show ?thesis using assms(1) by (cases n) simp_all
  qed
  have u: "unat (word_of_nat (n - 1) :: long) = n - 1" using assms(2) by (intro unat_word_of_nat_small) simp
  show "unat (scast (word_of_nat n - 1 :: cint) :: long) = n - 1"
    unfolding w using u assms(2) by (simp add: scast_ucast_small)
  have "unat (word_of_nat n :: cint) = n" using assms(2) by (simp add: unsigned_of_nat take_bit_nat_eq_self)
  then show "(word_of_nat n :: cint) \<noteq> 0" using assms(1) by auto
qed

lemma sys_neg_small:
  assumes "syscall K as trap p = (r, as', p')" "unat r < 2 ^ 31"
  shows "widen (sys_neg K as trap p) = (r, as', p')"
  using assms scast_ucast_small[of r] ucast_small_nonneg[of r] by (simp add: sys_neg_def ERRNO_NEG_def widen_def)

lemma syscall_5:
  "syscall K [a, b, c, d, e] trap p =
     (case K trap [a, b, c, (case arch p of X86_64 rsp \<Rightarrow> SA rsp | AArch64 \<Rightarrow> d), e, SA 0] (kern p) of
        (r, as, k) \<Rightarrow> (r, as, p\<lparr>kern := k\<rparr>))"
  by (simp add: syscall_def syscall6_def split: arch.split)

lemma write_appends:
  assumes "appends K fd out" "unat n \<le> length bs" "unat n < 2 ^ 31"
  shows "\<exists>as k. write_c K fd (SP bs) n p = (n, as, p\<lparr>kern := k\<rparr>) \<and> out k = out (kern p) @ take (unat n) bs"
proof -
  obtain r as k where K: "K SYS_WRITE [SAi fd, SP bs, SA n, (case arch p of X86_64 rsp \<Rightarrow> SA rsp | AArch64 \<Rightarrow> SA 0), SA 0, SA 0] (kern p) = (r, as, k)"
    by (cases "K SYS_WRITE [SAi fd, SP bs, SA n, (case arch p of X86_64 rsp \<Rightarrow> SA rsp | AArch64 \<Rightarrow> SA 0), SA 0, SA 0] (kern p)")
  then have r: "r = n" "out k = out (kern p) @ take (unat n) bs" using assms unfolding appends_def by blast+
  have "syscall K [SAi fd, SP bs, SA n, SA 0, SA 0] SYS_WRITE p = (n, as, p\<lparr>kern := k\<rparr>)"
    using K r(1) by (simp add: syscall_5)
  from sys_neg_small[OF this assms(3)] show ?thesis using r(2) by (auto simp: write_c_def)
qed

lemma read_delivers:
  assumes "delivers K fd inp" "0 < unat n" "unat n \<le> length bs" "unat n < 2 ^ 31"
  shows "\<exists>r as k. read_c K fd (SP bs) n p = (r, as, p\<lparr>kern := k\<rparr>) \<and> unat r \<le> unat n \<and> unat r \<le> length (inp (kern p)) \<and>
    (r = 0 \<longleftrightarrow> inp (kern p) = []) \<and> obj (as ! 1) = take (unat r) (inp (kern p)) @ drop (unat r) bs \<and> inp k = drop (unat r) (inp (kern p))"
proof -
  obtain r as k where K: "K SYS_READ [SAi fd, SP bs, SA n, (case arch p of X86_64 rsp \<Rightarrow> SA rsp | AArch64 \<Rightarrow> SA 0), SA 0, SA 0] (kern p) = (r, as, k)"
    by (cases "K SYS_READ [SAi fd, SP bs, SA n, (case arch p of X86_64 rsp \<Rightarrow> SA rsp | AArch64 \<Rightarrow> SA 0), SA 0, SA 0] (kern p)")
  then have r: "unat r \<le> unat n" "unat r \<le> length (inp (kern p))" "r = 0 \<longleftrightarrow> inp (kern p) = []"
    "\<exists>as'. as = SAi fd # SP (take (unat r) (inp (kern p)) @ drop (unat r) bs) # as'" "inp k = drop (unat r) (inp (kern p))"
    using assms unfolding delivers_def by blast+
  have "syscall K [SAi fd, SP bs, SA n, SA 0, SA 0] SYS_READ p = (r, as, p\<lparr>kern := k\<rparr>)"
    using K by (simp add: syscall_5)
  moreover have "unat r < 2 ^ 31" using r(1) assms(4) by simp
  ultimately have "read_c K fd (SP bs) n p = (r, as, p\<lparr>kern := k\<rparr>)" unfolding read_c_def by (rule sys_neg_small)
  moreover have "obj (as ! 1) = take (unat r) (inp (kern p)) @ drop (unat r) bs" using r(4) by auto
  ultimately show ?thesis using r(1,2,3,5) by blast
qed

section \<open>Writing\<close>

lemma s_fflush_ok:
  assumes "stream_ok f" "writing f = 0 \<or> appends K (f_fd f) out"
  shows "\<exists>k. s_fflush K f p = (0, if writing f = 0 then f else f\<lparr>fp := 0, fend := 0\<rparr>, p\<lparr>kern := k\<rparr>) \<and> out k = content out f p"
proof (cases "writing f = 0")
  case True
  then show ?thesis by (intro exI[of _ "kern p"]) (simp add: s_fflush_def content_def)
next
  case False
  have u: "unat (word_of_int (fp f) :: long) = nat (fp f)" "nat (fp f) \<le> length (fbuf f)" "nat (fp f) < 2 ^ 31"
    using assms(1) by (auto simp: stream_ok_def BUFSIZ_def unat_word_of_int_small)
  obtain as k where w: "write_c K (f_fd f) (SP (fbuf f)) (word_of_int (fp f)) p = (word_of_int (fp f), as, p\<lparr>kern := k\<rparr>)"
    "out k = out (kern p) @ take (nat (fp f)) (fbuf f)"
    using write_appends[of K "f_fd f" out "word_of_int (fp f)" "fbuf f" p] assms(2) False u by auto
  have "\<not> (word_of_int (fp f) :: long) <s 0" using u by (simp add: long_nonneg)
  then show ?thesis using w False by (auto simp: s_fflush_def content_def Let_def)
qed

lemma fwrite1_room_ok:
  assumes "stream_ok f" "appends K (f_fd f) out" "btype f = s_IOFBF"
  shows "\<exists>g k. fwrite1_room K f p = (0, g, p\<lparr>kern := k\<rparr>) \<and> stream_ok g \<and> fp g < int BUFSIZ \<and> writing g \<noteq> 0 \<and>
    content out g (p\<lparr>kern := k\<rparr>) = content out f p \<and> same_file f g \<and> ferr g = ferr f"
proof -
  define f1 where "f1 = (if writing f = 0 then f\<lparr>writing := 1, fp := 0, fend := 0\<rparr> else f)"
  have f1: "stream_ok f1" "content out f1 p = content out f p" "same_file f f1" "writing f1 \<noteq> 0" "ferr f1 = ferr f" "f_fd f1 = f_fd f"
    using assms(1,3) by (auto simp: f1_def stream_ok_def content_def same_file_def)
  show ?thesis
  proof (cases "fp f1 = int BUFSIZ")
    case True
    obtain k where k: "s_fflush K f1 p = (0, f1\<lparr>fp := 0, fend := 0\<rparr>, p\<lparr>kern := k\<rparr>)" "out k = content out f1 p"
      using s_fflush_ok[OF f1(1), of K out p] assms(2) f1(4,6) by auto
    show ?thesis
      by (rule exI[of _ "f1\<lparr>fp := 0, fend := 0\<rparr>"], rule exI[of _ k])
        (use True k f1 in \<open>auto simp: fwrite1_room_def f1_def[symmetric] stream_ok_def content_def same_file_def BUFSIZ_def\<close>)
  next
    case False
    then show ?thesis using f1
      by (intro exI[of _ f1] exI[of _ "kern p"]) (auto simp: fwrite1_room_def f1_def[symmetric] stream_ok_def)
  qed
qed

lemma fwrite1_put_ok:
  assumes "stream_ok f" "fp f < int BUFSIZ" "writing f \<noteq> 0" "0 < unat left" "unat left \<le> length src"
  shows "\<exists>c g. fwrite1_put src left f p = Ret (c, g, p) \<and> 0 < unat c \<and> unat c \<le> unat left \<and> stream_ok g \<and>
    content out g p = content out f p @ take (unat c) src \<and> same_file f g \<and> ferr g = ferr f"
proof -
  define room where "room = (word_of_int (int BUFSIZ - fp f) :: long)"
  define c where "c = (if room < left then room else left)"
  have ru: "unat room = nat (int BUFSIZ - fp f)" unfolding room_def
    by (rule unat_word_of_int_small) (use assms(1,2) in \<open>simp_all add: stream_ok_def BUFSIZ_def\<close>)
  then have r: "unat room = nat (int BUFSIZ - fp f)" "0 < unat room" using assms(2) by simp_all
  have c: "0 < unat c" "unat c \<le> unat left" "unat c \<le> nat (int BUFSIZ - fp f)"
    using assms(4) r by (auto simp: c_def word_less_nat_alt)
  then have u: "uint c = int (unat c)" "nat (fp f) + unat c \<le> BUFSIZ" using assms(1,2) by (auto simp: stream_ok_def)
  have u3: "fp f + uint c \<le> int BUFSIZ" using u(2) assms(1) unfolding u(1) stream_ok_def by linarith
  have u4: "nat (fp f + uint c) = nat (fp f) + unat c" using assms(1) unfolding u(1) stream_ok_def by linarith
  have l: "loadn src 0 (unat c) = Some (take (unat c) src)" using c(2) assms(5) by (simp add: loadn_def)
  have s: "sto (fbuf f) (fp f) (take (unat c) src) =
      Some (take (nat (fp f)) (fbuf f) @ take (unat c) src @ drop (nat (fp f) + unat c) (fbuf f))" (is "_ = Some ?b")
    using u c assms(1,5) by (simp add: sto_def storen_def stream_ok_def)
  let ?g = "f\<lparr>fbuf := ?b, fp := fp f + uint c, fend := max (fp f + uint c) (fend f)\<rparr>"
  have "fwrite1_put src left f p = Ret (c, ?g, p)"
    unfolding fwrite1_put_def room_def[symmetric] c_def[symmetric] Let_def by (simp add: l s)
  moreover have "stream_ok ?g" using assms(1,5) u(2) u3 c by (auto simp: stream_ok_def)
  moreover have "content out ?g p = content out f p @ take (unat c) src"
    using assms(1,3,5) u(2) u4 c by (simp add: content_def stream_ok_def)
  ultimately show ?thesis using c by (intro exI[of _ c] exI[of _ ?g]) (simp add: same_file_def)
qed

lemma s_fwrite1_ok:
  assumes "stream_ok f" "appends K (f_fd f) out" "0 < unat left" "unat left \<le> length src" "unat left < 2 ^ 31"
  shows "\<exists>c g k. s_fwrite1 K src left f p = Ret (c, g, p\<lparr>kern := k\<rparr>) \<and> 0 < unat c \<and> unat c \<le> unat left \<and> stream_ok g \<and>
    content out g (p\<lparr>kern := k\<rparr>) = content out f p @ take (unat c) src \<and> same_file f g \<and> ferr g = ferr f"
proof (cases "btype f = s_IONBF")
  case True
  obtain as k where w: "write_c K (f_fd f) (SP src) left p = (left, as, p\<lparr>kern := k\<rparr>)" "out k = out (kern p) @ take (unat left) src"
    using write_appends[OF assms(2,4,5)] by blast
  have "\<not> left <s 0" using assms(5) by (simp add: long_nonneg)
  then show ?thesis using True w assms(1,3)
    by (intro exI[of _ left] exI[of _ f] exI[of _ k]) (simp add: s_fwrite1_def content_def stream_ok_def)
next
  case False
  then have b: "btype f = s_IOFBF" using assms(1) by (simp add: stream_ok_def)
  obtain g k where r: "fwrite1_room K f p = (0, g, p\<lparr>kern := k\<rparr>)" "stream_ok g" "fp g < int BUFSIZ" "writing g \<noteq> 0"
    "content out g (p\<lparr>kern := k\<rparr>) = content out f p" "same_file f g" "ferr g = ferr f"
    using fwrite1_room_ok[OF assms(1,2) b] by blast
  obtain c h where q: "fwrite1_put src left g (p\<lparr>kern := k\<rparr>) = Ret (c, h, p\<lparr>kern := k\<rparr>)" "0 < unat c" "unat c \<le> unat left"
    "stream_ok h" "content out h (p\<lparr>kern := k\<rparr>) = content out g (p\<lparr>kern := k\<rparr>) @ take (unat c) src" "same_file g h" "ferr h = ferr g"
    using fwrite1_put_ok[OF r(2-4) assms(3,4)] by blast
  have "s_fwrite1 K src left f p = Ret (c, h, p\<lparr>kern := k\<rparr>)" using b r(1) q(1) by (simp add: s_fwrite1_def)
  moreover have "same_file f h" using r(6) q(6) by (rule same_file_trans)
  ultimately show ?thesis using q r(5,7) by (intro exI[of _ c] exI[of _ h] exI[of _ k]) simp
qed

lemma unat_minus_le: "unat c \<le> unat (x :: long) \<Longrightarrow> unat (x - c) = unat x - unat c"
  by (simp add: unat_sub word_le_nat_alt)

lemma fwrite_loop_ok:
  assumes "stream_ok f" "appends K (f_fd f) out" "unat left \<le> length src" "unat left < 2 ^ 31" "ferr f = 0"
  shows "\<exists>g k. fwrite_loop K src left ret f p = Some (Ret (ret + left, g, p\<lparr>kern := k\<rparr>)) \<and> stream_ok g \<and>
    content out g (p\<lparr>kern := k\<rparr>) = content out f p @ take (unat left) src \<and> same_file f g \<and> ferr g = 0"
  using assms
proof (induction "unat left" arbitrary: src left ret f p rule: less_induct)
  case less
  show ?case
  proof (cases "left = 0")
    case True
    then show ?thesis using less.prems
      by (intro exI[of _ f] exI[of _ "kern p"]) (subst fwrite_loop.simps, simp)
  next
    case False
    then have pos: "0 < unat left" by (simp add: unat_gt_0)
    obtain c g k where s: "s_fwrite1 K src left f p = Ret (c, g, p\<lparr>kern := k\<rparr>)" "0 < unat c" "unat c \<le> unat left" "stream_ok g"
      "content out g (p\<lparr>kern := k\<rparr>) = content out f p @ take (unat c) src" "same_file f g" "ferr g = ferr f"
      using s_fwrite1_ok[OF less.prems(1,2) pos less.prems(3,4)] by blast
    have u: "unat (left - c) = unat left - unat c" using s(3) by (rule unat_minus_le)
    have a: "unat (left - c) < unat left" "appends K (f_fd g) out" "unat (left - c) \<le> length (drop (unat c) src)"
      "unat (left - c) < 2 ^ 31" "ferr g = 0"
      using less.prems s(2,3,6,7) u by (auto simp: same_file_def)
    obtain h k' where r: "fwrite_loop K (drop (unat c) src) (left - c) (ret + c) g (p\<lparr>kern := k\<rparr>) =
        Some (Ret (ret + c + (left - c), h, p\<lparr>kern := k\<rparr>\<lparr>kern := k'\<rparr>))" "stream_ok h"
      "content out h (p\<lparr>kern := k\<rparr>\<lparr>kern := k'\<rparr>) = content out g (p\<lparr>kern := k\<rparr>) @ take (unat (left - c)) (drop (unat c) src)"
      "same_file g h" "ferr h = 0"
      using less.hyps[OF a(1) s(4) a(2-5), of "ret + c" "p\<lparr>kern := k\<rparr>"] by blast
    have "take (unat c) src @ take (unat left - unat c) (drop (unat c) src) = take (unat left) src"
      using s(3) by (metis le_add_diff_inverse take_add)
    then have "content out h (p\<lparr>kern := k'\<rparr>) = content out f p @ take (unat left) src" using r(3) s(5) u by simp
    moreover have "fwrite_loop K src left ret f p = Some (Ret (ret + left, h, p\<lparr>kern := k'\<rparr>))"
      using r(1) s(1) False less.prems(5) by (subst fwrite_loop.simps) (simp add: word_gt_0 add.assoc)
    ultimately show ?thesis using r(2,5) same_file_trans[OF s(6) r(4)] by blast
  qed
qed

lemma lock_file_free:
  "files st f = Some x \<Longrightarrow> fmut x = 0 \<Longrightarrow> lock_file f st = Ret (x\<lparr>fmut := if dolock (iom st) then 1 else 0\<rparr>)"
  by (simp add: lock_file_def mut_lock_def)

lemma unlock_file_free:
  "fmut y \<noteq> 2 \<Longrightarrow> unlock_file K f y p st = set_proc p (st\<lparr>files := (files st)(f \<mapsto> y\<lparr>fmut := 0\<rparr>)\<rparr>)"
  by (simp add: unlock_file_def mut_unlock_def)

lemma fmut_irrelevant [simp]:
  "stream_ok (f\<lparr>fmut := m\<rparr>) = stream_ok f" "content out (f\<lparr>fmut := m\<rparr>) p = content out f p"
  "unread inp (f\<lparr>fmut := m\<rparr>) p = unread inp f p"
  by (simp_all add: stream_ok_def content_def unread_def)

lemma set_proc_simps [simp]:
  "io_proc (set_proc p st) = p" "files (set_proc p st) = files st" "allhead (set_proc p st) = allhead st"
  "allmut (set_proc p st) = allmut st" "dolock (iom (set_proc p st)) = dolock (iom st)"
  by (simp_all add: set_proc_def)

text \<open>The size computations of \<open>fread\<close> and \<open>fwrite\<close>.\<close>

lemma item_count:
  fixes sz mem :: long
  assumes "sz \<noteq> 0" "unat sz * unat mem < 2 ^ 31"
  shows "\<not> mem > (- 1) div sz" "unat (mem * sz) = unat sz * unat mem" "(mem * sz) div sz = mem"
proof -
  have "unat mem * unat sz < 2 ^ LENGTH(64)" using assms(2) by (simp add: mult.commute)
  then show u: "unat (mem * sz) = unat sz * unat mem" by (simp only: unat_mult_lem mult.commute)
  have "0 < unat sz" using assms(1) by (simp add: unat_gt_0)
  then show "(mem * sz) div sz = mem" using u by (simp add: word_unat_eq_iff unat_div)
  have "unat mem \<le> (2 ^ 64 - 1) div unat sz"
    using assms(2) \<open>0 < unat sz\<close> by (simp add: less_eq_div_iff_mult_less_eq mult.commute)
  moreover have "unat (- 1 :: long) = 2 ^ 64 - 1" by (simp add: unsigned_minus_1_eq_mask mask_eq_exp_minus_1)
  ultimately show "\<not> mem > (- 1) div sz" by (simp only: word_less_nat_alt unat_div not_less)
qed

text \<open>A stream that is free to be used: open, well-formed, without an error.\<close>

definition fready :: "'k io \<Rightarrow> long \<Rightarrow> FILE \<Rightarrow> bool" where
  "fready st f x \<longleftrightarrow> files st f = Some x \<and> fmut x = 0 \<and> stream_ok x \<and> ferr x = 0"

lemma fwrite_ok:
  assumes "fready st f x" "appends K (f_fd x) out" "sz \<noteq> 0" "unat sz * unat mem \<le> length src" "unat sz * unat mem < 2 ^ 31"
  shows "\<exists>st' y. fwrite K src sz mem f st = Some (Ret (mem, st')) \<and> fready st' f y \<and> same_file x y \<and>
    files st' = (files st)(f \<mapsto> y) \<and> content out y (io_proc st') = content out x (io_proc st) @ take (unat sz * unat mem) src"
proof -
  let ?x = "x\<lparr>fmut := if dolock (iom st) then 1 else 0\<rparr>"
  note u = item_count[OF assms(3,5)]
  obtain g k where g: "fwrite_loop K src (mem * sz) 0 ?x (io_proc st) = Some (Ret (0 + mem * sz, g, (io_proc st)\<lparr>kern := k\<rparr>))"
    "stream_ok g" "content out g ((io_proc st)\<lparr>kern := k\<rparr>) = content out ?x (io_proc st) @ take (unat (mem * sz)) src"
    "same_file ?x g" "ferr g = 0"
    using fwrite_loop_ok[of ?x K out "mem * sz" src 0 "io_proc st"] assms u(2) by (auto simp: fready_def)
  have m: "fmut g \<noteq> 2" using g(4) by (simp add: same_file_def)
  have x: "files st f = Some x" "fmut x = 0" using assms(1) by (simp_all add: fready_def)
  let ?st = "set_proc ((io_proc st)\<lparr>kern := k\<rparr>) (st\<lparr>files := (files st)(f \<mapsto> g\<lparr>fmut := 0\<rparr>)\<rparr>)"
  have "fwrite K src sz mem f st = Some (Ret (mem, ?st))"
    using assms(3) u(1,3) g(1) by (simp add: fwrite_def with_file_loop_def lock_file_free[OF x] unlock_file_free[OF m])
  moreover have "fready ?st f (g\<lparr>fmut := 0\<rparr>)" "same_file x (g\<lparr>fmut := 0\<rparr>)" "files ?st = (files st)(f \<mapsto> g\<lparr>fmut := 0\<rparr>)"
    "content out (g\<lparr>fmut := 0\<rparr>) (io_proc ?st) = content out x (io_proc st) @ take (unat sz * unat mem) src"
    using g x u(2) by (simp_all add: fready_def same_file_def)
  ultimately show ?thesis by blast
qed

lemma fflush_ok:
  assumes "fready st f x" "appends K (f_fd x) out"
  shows "\<exists>st' y. fflush K f st = Ret (0, st') \<and> fready st' f y \<and> same_file x y \<and> files st' = (files st)(f \<mapsto> y) \<and>
    out (kern (io_proc st')) = content out x (io_proc st) \<and> content out y (io_proc st') = content out x (io_proc st)"
proof -
  let ?x = "x\<lparr>fmut := if dolock (iom st) then 1 else 0\<rparr>"
  have x: "files st f = Some x" "fmut x = 0" "stream_ok x" "ferr x = 0" using assms(1) by (simp_all add: fready_def)
  obtain k where k: "s_fflush K ?x (io_proc st) = (0, if writing x = 0 then ?x else ?x\<lparr>fp := 0, fend := 0\<rparr>, (io_proc st)\<lparr>kern := k\<rparr>)"
    "out k = content out x (io_proc st)"
    using s_fflush_ok[of ?x K out "io_proc st"] assms(2) x(3) by auto
  let ?y = "if writing x = 0 then x else x\<lparr>fp := 0, fend := 0\<rparr>"
  let ?st = "set_proc ((io_proc st)\<lparr>kern := k\<rparr>) (st\<lparr>files := (files st)(f \<mapsto> ?y)\<rparr>)"
  have e: "(if writing x = 0 then ?x else ?x\<lparr>fp := 0, fend := 0\<rparr>)\<lparr>fmut := 0\<rparr> = ?y" using x(2) by simp
  have "fflush K f st = Ret (0, ?st)" unfolding fflush_def with_file_def
    by (simp only: lock_file_free[OF x(1,2)] bind_out.simps k(1) prod.case) (use e in \<open>simp add: unlock_file_free\<close>)
  moreover have "fready ?st f ?y" "same_file x ?y" "files ?st = (files st)(f \<mapsto> ?y)" "out (kern (io_proc ?st)) = content out x (io_proc st)"
    "content out ?y (io_proc ?st) = content out x (io_proc st)"
    using x k(2) by (auto simp: fready_def same_file_def stream_ok_def content_def)
  ultimately show ?thesis by blast
qed

section \<open>Reading\<close>

lemma fread1_copy_ok:
  assumes "stream_ok f" "btype f = s_IOFBF" "writing f = 0" "fp f < fend f" "0 < unat left" "d + unat left \<le> length dst"
  shows "\<exists>c dst' g. fread1_copy dst d left f p = Ret ((c, dst'), g, p) \<and> 0 < unat c \<and> unat c \<le> unat left \<and>
    unat c \<le> length (unread inp f p) \<and> dst' = take d dst @ take (unat c) (unread inp f p) @ drop (d + unat c) dst \<and>
    unread inp g p = drop (unat c) (unread inp f p) \<and> stream_ok g \<and> same_file f g \<and> writing g = 0 \<and> eof g = eof f \<and> ferr g = ferr f \<and> 0 < fp g"
proof -
  define av where "av = (word_of_int (fend f - fp f) :: long)"
  define c where "c = (if left < av then left else av)"
  have av: "unat av = nat (fend f - fp f)" unfolding av_def
    by (rule unat_word_of_int_small) (use assms(1,4) in \<open>simp_all add: stream_ok_def BUFSIZ_def\<close>)
  have c: "0 < unat c" "unat c \<le> unat left" "unat c \<le> nat (fend f - fp f)"
    using assms(4,5) av by (auto simp: c_def word_less_nat_alt)
  define i where "i = nat (fp f)"
  define b where "b = drop i (take (nat (fend f)) (fbuf f))"
  have i: "fp f = int i" "i + unat c \<le> nat (fend f)" "nat (fend f) \<le> length (fbuf f)" "fend f \<le> int BUFSIZ" "0 \<le> fend f"
    using assms(1,4) c(3) by (auto simp: i_def stream_ok_def)
  have u: "fp f + uint c = int (i + unat c)" using i(1) by simp
  have nc: "nat (int i + uint c) = i + unat c" using u i(1) by linarith
  have lb: "unat c \<le> length b" using i by (simp add: b_def)
  have tk: "take (unat c) (drop i (fbuf f)) = take (unat c) b" using i(2) by (simp add: b_def drop_take min_def)
  have un: "unread inp f p = b @ inp (kern p)" using assms(2,3) by (simp add: unread_def b_def i_def)
  let ?g = "f\<lparr>fp := fp f + uint c\<rparr>"
  have l: "ld (fbuf f) (fp f) (unat c) = Some (take (unat c) b)"
    using i by (simp add: ld_def loadn_def tk)
  have s: "storen dst d (take (unat c) b) = Some (take d dst @ take (unat c) b @ drop (d + unat c) dst)"
    using c(2) assms(6) lb by (simp add: storen_def)
  have e: "fread1_copy dst d left f p = Ret ((c, take d dst @ take (unat c) b @ drop (d + unat c) dst), ?g, p)"
    unfolding fread1_copy_def av_def[symmetric] c_def[symmetric] Let_def by (simp add: l s)
  have "fp f + uint c \<le> fend f" "0 < fp f + uint c" using i(2,5) c(1) unfolding u by linarith+
  then have "stream_ok ?g" using assms(1) i(4) by (simp add: stream_ok_def)
  moreover have "unread inp ?g p = drop (unat c) (unread inp f p)"
    using assms(2,3) lb i(1) nc unfolding un by (simp add: unread_def b_def add.commute)
  ultimately show ?thesis using e c lb \<open>0 < fp f + uint c\<close>
    by (intro exI[of _ c] exI[of _ "take d dst @ take (unat c) b @ drop (d + unat c) dst"] exI[of _ ?g])
      (simp add: un same_file_def assms(3))
qed

lemma s_fread1_buffered:
  assumes "stream_ok f" "btype f = s_IOFBF" "writing f = 0" "eof f = 0" "ferr f = 0" "delivers K (f_fd f) inp"
    and "0 < unat left" "d + unat left \<le> length dst"
  shows "\<exists>c dst' g k. s_fread1 K dst d left f p = Ret ((c, dst'), g, p\<lparr>kern := k\<rparr>) \<and> unat c \<le> unat left \<and>
    unat c \<le> length (unread inp f p) \<and> dst' = take d dst @ take (unat c) (unread inp f p) @ drop (d + unat c) dst \<and>
    unread inp g (p\<lparr>kern := k\<rparr>) = drop (unat c) (unread inp f p) \<and> stream_ok g \<and> same_file f g \<and> writing g = 0 \<and> ferr g = 0 \<and>
    (if unread inp f p = [] then c = 0 \<and> eof g = 1 else 0 < unat c \<and> eof g = 0 \<and> 0 < fp g)"
proof -
  have fl: "s_fflush K f p = (0, f, p)" using assms(3) by (simp add: s_fflush_def)
  have w: "f\<lparr>writing := 0\<rparr> = f" using assms(3) by simp
  note start = s_fread1_def assms(2,4,5) fl w
  show ?thesis
  proof (cases "fp f = fend f")
    case False
    then have lt: "fp f < fend f" using assms(1) by (simp add: stream_ok_def)
    obtain c dst' g where c: "fread1_copy dst d left f p = Ret ((c, dst'), g, p)" "0 < unat c" "unat c \<le> unat left"
      "unat c \<le> length (unread inp f p)" "dst' = take d dst @ take (unat c) (unread inp f p) @ drop (d + unat c) dst"
      "unread inp g p = drop (unat c) (unread inp f p)" "stream_ok g" "same_file f g" "writing g = 0" "eof g = eof f" "ferr g = ferr f" "0 < fp g"
      using fread1_copy_ok[OF assms(1-3) lt assms(7,8)] by blast
    then show ?thesis using False assms(4,5)
      by (intro exI[of _ c] exI[of _ dst'] exI[of _ g] exI[of _ "kern p"]) (auto simp: start)
  next
    case True
    have len: "length (fbuf f) = BUFSIZ" using assms(1) by (simp add: stream_ok_def)
    have bz: "unat (word_of_nat BUFSIZ :: long) = BUFSIZ" by (simp add: BUFSIZ_def)
    obtain r as k where r: "read_c K (f_fd f) (SP (fbuf f)) (word_of_nat BUFSIZ) p = (r, as, p\<lparr>kern := k\<rparr>)"
      "unat r \<le> BUFSIZ" "unat r \<le> length (inp (kern p))" "(r = 0) = (inp (kern p) = [])"
      "obj (as ! 1) = take (unat r) (inp (kern p)) @ drop (unat r) (fbuf f)" "inp k = drop (unat r) (inp (kern p))"
      using read_delivers[OF assms(6), of "word_of_nat BUFSIZ" "fbuf f" p] len bz by (auto simp: BUFSIZ_def)
    have un: "unread inp f p = inp (kern p)" using True by (simp add: unread_def)
    let ?f = "f\<lparr>fbuf := obj (as ! 1)\<rparr>"
    have lo: "length (obj (as ! 1)) = BUFSIZ" using r(2,3,5) len by simp
    show ?thesis
    proof (cases "r = 0")
      case r0: True
      have "stream_ok (?f\<lparr>eof := 1\<rparr>)" using assms(1) lo by (simp add: stream_ok_def)
      then show ?thesis using True r0 r un assms(3,5)
        by (intro exI[of _ 0] exI[of _ dst] exI[of _ "?f\<lparr>eof := 1\<rparr>"] exI[of _ k])
          (simp add: start Let_def same_file_def unread_def)
    next
      case rn: False
      define h where "h = ?f\<lparr>fp := 0, fend := sint r\<rparr>"
      have sr: "sint r = int (unat r)" "0 < unat r" using r(2) rn by (simp_all add: BUFSIZ_def sint_long_small unat_gt_0)
      have "uint r \<le> int BUFSIZ" "0 < uint r" using r(2) sr(2) unfolding uint_nat by (simp_all only: of_nat_le_iff of_nat_0_less_iff)
      then have h: "stream_ok h" "btype h = s_IOFBF" "writing h = 0" "fp h < fend h" "same_file f h" "eof h = 0" "ferr h = 0"
        "unread inp h (p\<lparr>kern := k\<rparr>) = unread inp f p"
        using assms(1-5) lo sr r(2,3,5,6) un by (auto simp: h_def stream_ok_def same_file_def unread_def)
      obtain c dst' g where c: "fread1_copy dst d left h (p\<lparr>kern := k\<rparr>) = Ret ((c, dst'), g, p\<lparr>kern := k\<rparr>)" "0 < unat c" "unat c \<le> unat left"
        "unat c \<le> length (unread inp h (p\<lparr>kern := k\<rparr>))"
        "dst' = take d dst @ take (unat c) (unread inp h (p\<lparr>kern := k\<rparr>)) @ drop (d + unat c) dst"
        "unread inp g (p\<lparr>kern := k\<rparr>) = drop (unat c) (unread inp h (p\<lparr>kern := k\<rparr>))" "stream_ok g" "same_file h g"
        "writing g = 0" "eof g = eof h" "ferr g = ferr h" "0 < fp g"
        using fread1_copy_ok[OF h(1-4) assms(7,8)] by blast
      have "s_fread1 K dst d left f p = Ret ((c, dst'), g, p\<lparr>kern := k\<rparr>)"
        using True r(1) rn c(1) by (simp add: start Let_def h_def)
      then show ?thesis using c(2-) h(5-8) same_file_trans[OF h(5) c(8)]
        by (intro exI[of _ c] exI[of _ dst'] exI[of _ g] exI[of _ k]) auto
    qed
  qed
qed

lemma fread_loop_ok:
  assumes "stream_ok f" "btype f = s_IOFBF" "writing f = 0" "eof f = 0" "ferr f = 0" "delivers K (f_fd f) inp"
    and "d + unat left \<le> length dst" "n = min (unat left) (length (unread inp f p))"
  shows "\<exists>g k. fread_loop K dst d left ret f p =
      Some (Ret ((ret + word_of_nat n, take d dst @ take n (unread inp f p) @ drop (d + n) dst), g, p\<lparr>kern := k\<rparr>)) \<and>
    unread inp g (p\<lparr>kern := k\<rparr>) = drop n (unread inp f p) \<and> stream_ok g \<and> same_file f g \<and> writing g = 0 \<and> ferr g = 0 \<and>
    eof g = (if n < unat left then 1 else 0)"
  using assms
proof (induction "unat left" arbitrary: dst d left ret f p n rule: less_induct)
  case less
  show ?case
  proof (cases "left = 0")
    case True
    then show ?thesis using less.prems
      by (intro exI[of _ f] exI[of _ "kern p"]) (subst fread_loop.simps, simp)
  next
    case False
    then have pos: "0 < unat left" by (simp add: unat_gt_0)
    obtain c dst' g k where s: "s_fread1 K dst d left f p = Ret ((c, dst'), g, p\<lparr>kern := k\<rparr>)" "unat c \<le> unat left"
      "unat c \<le> length (unread inp f p)" "dst' = take d dst @ take (unat c) (unread inp f p) @ drop (d + unat c) dst"
      "unread inp g (p\<lparr>kern := k\<rparr>) = drop (unat c) (unread inp f p)" "stream_ok g" "same_file f g" "writing g = 0" "ferr g = 0"
      "if unread inp f p = [] then c = 0 \<and> eof g = 1 else 0 < unat c \<and> eof g = 0 \<and> 0 < fp g"
      using s_fread1_buffered[OF less.prems(1-6) pos less.prems(7)] by blast
    have step: "fread_loop K dst d left ret f p = fread_loop K dst' (d + unat c) (left - c) (ret + c) g (p\<lparr>kern := k\<rparr>)"
      using s(1) False less.prems(4,5) by (subst fread_loop.simps) (simp add: word_gt_0)
    show ?thesis
    proof (cases "unread inp f p = []")
      case True
      then show ?thesis using s less.prems(8) pos step
        by (intro exI[of _ g] exI[of _ k]) (subst step, subst fread_loop.simps, simp)
    next
      case ne: False
      define u where "u = unread inp f p"
      define m where "m = min (unat left - unat c) (length u - unat c)"
      have c: "0 < unat c" "eof g = 0" using s(10) ne by simp_all
      have um: "unat (left - c) = unat left - unat c" using s(2) by (rule unat_minus_le)
      have n: "n = unat c + m" using s(2,3) less.prems(8) by (simp add: m_def u_def)
      have ld: "length dst' = length dst" using s(2,3,4) less.prems(7) by simp
      have a: "unat (left - c) < unat left" "btype g = s_IOFBF" "delivers K (f_fd g) inp" "d + unat c + unat (left - c) \<le> length dst'"
        "m = min (unat (left - c)) (length (unread inp g (p\<lparr>kern := k\<rparr>)))"
        using c(1) s(2,5,7) um less.prems(2,6,7) pos ld by (simp_all add: same_file_def m_def u_def)
      obtain h k' where r: "fread_loop K dst' (d + unat c) (left - c) (ret + c) g (p\<lparr>kern := k\<rparr>) =
          Some (Ret ((ret + c + word_of_nat m, take (d + unat c) dst' @ take m (unread inp g (p\<lparr>kern := k\<rparr>)) @ drop (d + unat c + m) dst'),
            h, p\<lparr>kern := k\<rparr>\<lparr>kern := k'\<rparr>))"
        "unread inp h (p\<lparr>kern := k\<rparr>\<lparr>kern := k'\<rparr>) = drop m (unread inp g (p\<lparr>kern := k\<rparr>))" "stream_ok h" "same_file g h"
        "writing h = 0" "ferr h = 0" "eof h = (if m < unat (left - c) then 1 else 0)"
        using less.hyps[OF a(1) s(6) a(2) s(8) c(2) s(9) a(3-5)] by blast
      have w: "ret + c + word_of_nat m = ret + word_of_nat n" using n by simp
      have tn: "take n u = take (unat c) u @ take m (drop (unat c) u)" using n by (simp add: take_add)
      have dn: "d + n = d + unat c + m" using n by simp
      have "take (d + unat c) dst' @ take m (drop (unat c) u) @ drop (d + unat c + m) dst' = take d dst @ take n u @ drop (d + n) dst"
        using s(2,3) less.prems(7) unfolding s(4) u_def[symmetric] tn dn by (simp add: u_def[symmetric] add.commute)
      then have "fread_loop K dst d left ret f p = Some (Ret ((ret + word_of_nat n, take d dst @ take n u @ drop (d + n) dst), h, p\<lparr>kern := k'\<rparr>))"
        using step r(1) s(5) w by (simp add: u_def)
      moreover have "unread inp h (p\<lparr>kern := k'\<rparr>) = drop n u" using r(2) s(5) n by (simp add: u_def add.commute)
      moreover have "eof h = (if n < unat left then 1 else 0)" using r(7) um n s(2) by auto
      ultimately show ?thesis using r(3,5,6) same_file_trans[OF s(7) r(4)] unfolding u_def by blast
    qed
  qed
qed

lemma fread_ok:
  assumes "fready st f x" "btype x = s_IOFBF" "writing x = 0" "eof x = 0" "delivers K (f_fd x) inp"
    and "sz \<noteq> 0" "unat sz * unat mem \<le> length dst" "unat sz * unat mem < 2 ^ 31"
    and "n = min (unat sz * unat mem) (length (unread inp x (io_proc st)))"
  shows "\<exists>st' y. fread K dst sz mem f st =
      Some (Ret ((word_of_nat (n div unat sz), take n (unread inp x (io_proc st)) @ drop n dst), st')) \<and>
    fready st' f y \<and> same_file x y \<and> files st' = (files st)(f \<mapsto> y) \<and>
    unread inp y (io_proc st') = drop n (unread inp x (io_proc st)) \<and> eof y = (if n < unat sz * unat mem then 1 else 0)"
proof -
  let ?x = "x\<lparr>fmut := if dolock (iom st) then 1 else 0\<rparr>"
  note u = item_count[OF assms(6,8)]
  have x: "files st f = Some x" "fmut x = 0" "stream_ok x" "ferr x = 0" using assms(1) by (simp_all add: fready_def)
  obtain g k where g: "fread_loop K dst 0 (mem * sz) 0 ?x (io_proc st) =
      Some (Ret ((0 + word_of_nat n, take 0 dst @ take n (unread inp ?x (io_proc st)) @ drop (0 + n) dst), g, (io_proc st)\<lparr>kern := k\<rparr>))"
    "unread inp g ((io_proc st)\<lparr>kern := k\<rparr>) = drop n (unread inp ?x (io_proc st))" "stream_ok g" "same_file ?x g" "writing g = 0" "ferr g = 0"
    "eof g = (if n < unat (mem * sz) then 1 else 0)"
    using fread_loop_ok[of ?x K inp 0 "mem * sz" dst n "io_proc st" 0] assms x u(2) by auto
  have m: "fmut g \<noteq> 2" using g(4) by (simp add: same_file_def)
  have "n < 2 ^ 64" using assms(8,9) by simp
  then have w: "(word_of_nat n :: long) div sz = word_of_nat (n div unat sz)"
    by (simp only: word_unat_eq_iff unat_div unat_word_of_nat_small div_le_dividend[THEN le_less_trans])
  let ?st = "set_proc ((io_proc st)\<lparr>kern := k\<rparr>) (st\<lparr>files := (files st)(f \<mapsto> g\<lparr>fmut := 0\<rparr>)\<rparr>)"
  have "fread K dst sz mem f st = Some (Ret ((word_of_nat (n div unat sz), take n (unread inp x (io_proc st)) @ drop n dst), ?st))"
    using assms(6) u(1) g(1) w by (simp add: fread_def with_file_loop_def lock_file_free[OF x(1,2)] unlock_file_free[OF m])
  moreover have "fready ?st f (g\<lparr>fmut := 0\<rparr>)" "same_file x (g\<lparr>fmut := 0\<rparr>)" "files ?st = (files st)(f \<mapsto> g\<lparr>fmut := 0\<rparr>)"
    "unread inp (g\<lparr>fmut := 0\<rparr>) (io_proc ?st) = drop n (unread inp x (io_proc st))" "eof (g\<lparr>fmut := 0\<rparr>) = (if n < unat sz * unat mem then 1 else 0)"
    using g x u(2) by (simp_all add: fready_def same_file_def)
  ultimately show ?thesis by blast
qed

text \<open>An unbuffered stream at the end of its input stays as it is, whatever is asked of it.\<close>

lemma s_fread1_at_end:
  assumes "btype f = s_IONBF" "delivers K (f_fd f) inp" "inp (kern p) = []" "0 < unat left" "d + unat left \<le> length dst" "unat left < 2 ^ 31"
  shows "\<exists>k. s_fread1 K dst d left f p = Ret ((0, dst), f, p\<lparr>kern := k\<rparr>) \<and> inp k = []"
proof -
  have "unat left \<le> length (drop d dst)" using assms(5) by simp
  from read_delivers[OF assms(2,4) this assms(6), of p]
  obtain r as k where r: "read_c K (f_fd f) (SP (drop d dst)) left p = (r, as, p\<lparr>kern := k\<rparr>)" "r = 0" "obj (as ! 1) = drop d dst" "inp k = []"
    using assms(3) by auto
  then show ?thesis using assms(1) by (intro exI[of _ k]) (simp add: s_fread1_def Let_def)
qed

definition at_end :: "'k kernel \<Rightarrow> ('k \<Rightarrow> byte list) \<Rightarrow> byte list \<Rightarrow> nat \<Rightarrow> long \<Rightarrow> FILE \<Rightarrow> 'k proc \<Rightarrow> bool" where
  "at_end K inp dst d left f p \<longleftrightarrow> btype f = s_IONBF \<and> delivers K (f_fd f) inp \<and> inp (kern p) = [] \<and> 0 < unat left \<and>
     d + unat left \<le> length dst \<and> unat left < 2 ^ 31 \<and> eof f = 0 \<and> ferr f = 0"

lemma fread_loop_hangs:
  assumes "fread_loop K dst d left ret f p = Some y"
  shows "\<not> at_end K inp dst d left f p"
proof (rule fread_loop.raw_induct[where P = "\<lambda>K dst d left ret f p y. \<not> at_end K inp dst d left f p", OF _ assms])
  fix loop K dst d left ret f p y
  assume IH: "\<And>K dst d left ret f p y. loop K dst d left ret f p = Some y \<Longrightarrow> \<not> at_end K inp dst d left f p"
    and body: "(if left > 0 \<and> eof f = 0 \<and> ferr f = 0 then
        bind_loop (s_fread1 K dst d left f p) (\<lambda>((c, dst'), f', p'). loop K dst' (d + unat c) (left - c) (ret + c) f' p')
      else Some (Ret ((ret, dst), f, p))) = Some y"
  show "\<not> at_end K inp dst d left f p"
  proof
    assume e: "at_end K inp dst d left f p"
    then obtain k where k: "s_fread1 K dst d left f p = Ret ((0, dst), f, p\<lparr>kern := k\<rparr>)" "inp k = []"
      using s_fread1_at_end[of f K inp p left d dst] by (auto simp: at_end_def)
    have "left > 0" using e by (simp add: at_end_def word_less_nat_alt)
    then have "loop K dst d left ret f (p\<lparr>kern := k\<rparr>) = Some y" using body k(1) e by (simp add: at_end_def)
    from IH[OF this] show False using e k(2) by (simp add: at_end_def)
  qed
qed

text \<open>A failed \<open>read\<close> of a buffered stream: the result -1 is taken for a length.\<close>

lemma s_fread1_stale:
  assumes "stream_ok f" "btype f = s_IOFBF" "writing f = 0" "eof f = 0" "ferr f = 0" "fp f = fend f"
    and "read_c K (f_fd f) (SP (fbuf f)) (word_of_nat BUFSIZ) p = (- 1, as, p1)" "obj (as ! 1) = fbuf f"
    and "0 < unat left" "unat left \<le> BUFSIZ" "d + unat left \<le> length dst"
  shows "s_fread1 K dst d left f p =
    Ret ((left, take d dst @ take (unat left) (fbuf f) @ drop (d + unat left) dst), f\<lparr>fp := uint left, fend := - 1\<rparr>, p1)"
proof -
  have fl: "s_fflush K f p = (0, f, p)" using assms(3) by (simp add: s_fflush_def)
  have w: "f\<lparr>writing := 0\<rparr> = f" "f\<lparr>fbuf := fbuf f\<rparr> = f" using assms(3) by simp_all
  have len: "length (fbuf f) = BUFSIZ" using assms(1) by (simp add: stream_ok_def)
  have "left < - 1"
  proof -
    have "unat (- 1 :: long) = 2 ^ 64 - 1" by (simp add: unsigned_minus_1_eq_mask mask_eq_exp_minus_1)
    then show ?thesis using assms(10) by (simp add: word_less_nat_alt BUFSIZ_def)
  qed
  then have "fread1_copy dst d left (f\<lparr>fp := 0, fend := - 1\<rparr>) p1 =
      Ret ((left, take d dst @ take (unat left) (fbuf f) @ drop (d + unat left) dst), f\<lparr>fp := uint left, fend := - 1\<rparr>, p1)"
    using len assms(10,11) by (simp add: fread1_copy_def ld_def loadn_def storen_def)
  then show ?thesis using assms(2,4-8) fl w by (simp add: s_fread1_def)
qed

section \<open>Bounds\<close>

text \<open>A kernel whose \<open>read\<close> does not fail, fills no more than it was given, and leaves the object its size.\<close>

definition reads_bounded :: "'k kernel \<Rightarrow> bool" where
  "reads_bounded K \<longleftrightarrow>
     (\<forall>fd bs n w k r as k'. K SYS_READ [SA fd, SP bs, SA n, w, SA 0, SA 0] k = (r, as, k') \<longrightarrow>
        unat n \<le> length bs \<longrightarrow> unat n < 2 ^ 31 \<longrightarrow>
        unat r \<le> unat n \<and> (\<exists>bs' as'. as = SA fd # SP bs' # as' \<and> length bs' = length bs))"

lemma read_bounded:
  assumes "reads_bounded K" "unat n \<le> length bs" "unat n < 2 ^ 31"
  shows "\<exists>r as k. read_c K fd (SP bs) n p = (r, as, p\<lparr>kern := k\<rparr>) \<and> unat r \<le> unat n \<and> length (obj (as ! 1)) = length bs"
proof -
  obtain r as k where K: "K SYS_READ [SAi fd, SP bs, SA n, (case arch p of X86_64 rsp \<Rightarrow> SA rsp | AArch64 \<Rightarrow> SA 0), SA 0, SA 0] (kern p) = (r, as, k)"
    by (cases "K SYS_READ [SAi fd, SP bs, SA n, (case arch p of X86_64 rsp \<Rightarrow> SA rsp | AArch64 \<Rightarrow> SA 0), SA 0, SA 0] (kern p)")
  then have r: "unat r \<le> unat n" "\<exists>bs' as'. as = SAi fd # SP bs' # as' \<and> length bs' = length bs"
    using assms unfolding reads_bounded_def by blast+
  have s: "syscall K [SAi fd, SP bs, SA n, SA 0, SA 0] SYS_READ p = (r, as, p\<lparr>kern := k\<rparr>)" using K by (simp add: syscall_5)
  have "unat r < 2 ^ 31" using r(1) assms(3) by simp
  then have "read_c K fd (SP bs) n p = (r, as, p\<lparr>kern := k\<rparr>)" unfolding read_c_def by (rule sys_neg_small[OF s])
  then show ?thesis using r by auto
qed

lemma s_fflush_bounds:
  "stream_ok f \<Longrightarrow> s_fflush K f p = (e, g, p') \<Longrightarrow> stream_ok g \<and> same_file f g \<and> (e = 0 \<longrightarrow> writing f \<noteq> 0 \<longrightarrow> fp g = 0 \<and> fend g = 0) \<and>
     writing g = writing f"
  by (auto simp: s_fflush_def stream_ok_def same_file_def Let_def EOF_def split: if_splits prod.splits)

lemma s_fwrite1_bounds:
  assumes "stream_ok f" "unat left \<le> length src"
  shows "\<exists>c g p'. s_fwrite1 K src left f p = Ret (c, g, p') \<and> stream_ok g"
proof (cases "btype f = s_IONBF")
  case True
  then show ?thesis using assms(1) by (auto simp: s_fwrite1_def stream_ok_def split: prod.splits)
next
  case False
  then have b: "btype f = s_IOFBF" using assms(1) by (simp add: stream_ok_def)
  define f1 where "f1 = (if writing f = 0 then f\<lparr>writing := 1, fp := 0, fend := 0\<rparr> else f)"
  have f1: "stream_ok f1" "writing f1 \<noteq> 0" using assms(1) b by (auto simp: f1_def stream_ok_def)
  obtain e g p1 where r: "fwrite1_room K f p = (e, g, p1)" by (cases "fwrite1_room K f p")
  have g: "stream_ok g \<and> (e = 0 \<longrightarrow> fp g < int BUFSIZ \<and> writing g \<noteq> 0)"
  proof (cases "fp f1 = int BUFSIZ")
    case True
    obtain e' h q where h: "s_fflush K f1 p = (e', h, q)" by (cases "s_fflush K f1 p")
    from s_fflush_bounds[OF f1(1) h] f1(2) h r True show ?thesis
      by (auto simp: fwrite1_room_def f1_def[symmetric] stream_ok_def BUFSIZ_def split: if_splits)
  next
    case False
    then show ?thesis using r f1 by (auto simp: fwrite1_room_def f1_def[symmetric] stream_ok_def)
  qed
  show ?thesis
  proof (cases "e = 0 \<and> left \<noteq> 0")
    case True
    then have "0 < unat left" by (simp add: unat_gt_0)
    then obtain c h where "fwrite1_put src left g p1 = Ret (c, h, p1)" "stream_ok h"
      using fwrite1_put_ok[of g left src p1 "\<lambda>_. []"] g True assms(2) by auto
    then show ?thesis using True b r by (auto simp: s_fwrite1_def)
  next
    case ne: False
    show ?thesis
    proof (cases "e = 0")
      case True
      then have l: "left = 0" using ne by simp
      have "fwrite1_put src 0 g p1 = Ret (0, g\<lparr>fbuf := fbuf g, fp := fp g, fend := max (fp g) (fend g)\<rparr>, p1)"
        using g by (auto simp: fwrite1_put_def loadn_def sto_def storen_def stream_ok_def)
      then show ?thesis using g True b r l by (auto simp: s_fwrite1_def stream_ok_def max_def)
    next
      case False
      then show ?thesis using g b r by (auto simp: s_fwrite1_def)
    qed
  qed
qed

lemma fread1_copy_bounds:
  assumes "stream_ok f" "d + unat left \<le> length dst"
  shows "\<exists>c dst' g. fread1_copy dst d left f p = Ret ((c, dst'), g, p) \<and> stream_ok g \<and> length dst' = length dst"
proof -
  define av where "av = (word_of_int (fend f - fp f) :: long)"
  define c where "c = (if left < av then left else av)"
  have "unat av = nat (fend f - fp f)" unfolding av_def
    by (rule unat_word_of_int_small) (use assms(1) in \<open>simp_all add: stream_ok_def BUFSIZ_def\<close>)
  then have c: "unat c \<le> unat left" "unat c \<le> nat (fend f - fp f)" by (auto simp: c_def word_less_nat_alt)
  have l: "nat (fp f) + unat c \<le> length (fbuf f)" "length (fbuf f) = BUFSIZ" "int (unat c) \<le> fend f - fp f"
    using c(2) assms(1) unfolding stream_ok_def by linarith+
  have "fread1_copy dst d left f p = Ret ((c, take d dst @ take (unat c) (drop (nat (fp f)) (fbuf f)) @ drop (d + unat c) dst), f\<lparr>fp := fp f + uint c\<rparr>, p)"
    unfolding fread1_copy_def av_def[symmetric] c_def[symmetric] Let_def
    using l c(1) assms by (simp add: ld_def loadn_def storen_def stream_ok_def)
  moreover have "stream_ok (f\<lparr>fp := fp f + uint c\<rparr>)" using assms(1) l(3) unfolding stream_ok_def uint_nat by simp
  ultimately show ?thesis using l c(1) assms(2) by auto
qed

lemma s_fread1_bounds:
  assumes "stream_ok f" "reads_bounded K" "d + unat left \<le> length dst" "unat left < 2 ^ 31"
  shows "\<exists>c dst' g p'. s_fread1 K dst d left f p = Ret ((c, dst'), g, p') \<and> stream_ok g \<and> length dst' = length dst"
proof (cases "btype f = s_IONBF")
  case True
  have "unat left \<le> length (drop d dst)" using assms(3) by simp
  from read_bounded[OF assms(2) this assms(4)] obtain r as k where
    r: "read_c K (f_fd f) (SP (drop d dst)) left p = (r, as, p\<lparr>kern := k\<rparr>)" "unat r \<le> unat left" "length (obj (as ! 1)) = length dst - d"
    by fastforce
  have "\<not> r <s 0" using r(2) assms(4) by (simp add: long_nonneg)
  then show ?thesis using True r assms(1,3) by (auto simp: s_fread1_def Let_def)
next
  case False
  then have b: "btype f = s_IOFBF" using assms(1) by (simp add: stream_ok_def)
  obtain e f1 p1 where fl: "s_fflush K f p = (e, f1, p1)" by (cases "s_fflush K f p")
  have f1: "stream_ok f1" "btype f1 = s_IOFBF" using s_fflush_bounds[OF assms(1) fl] b by (simp_all add: same_file_def)
  define f2 where "f2 = f1\<lparr>writing := 0\<rparr>"
  have f2: "stream_ok f2" using f1 by (simp add: f2_def stream_ok_def)
  consider (err) "e \<noteq> 0" | (fill) "e = 0" "fp f2 = fend f2 \<and> eof f2 = 0 \<and> ferr f2 = 0"
    | (copy) "e = 0" "\<not> (fp f2 = fend f2 \<and> eof f2 = 0 \<and> ferr f2 = 0)" by blast
  then show ?thesis
  proof cases
    case err
    then show ?thesis using b fl f1(1) by (auto simp: s_fread1_def)
  next
    case copy
    then have "s_fread1 K dst d left f p = fread1_copy dst d left f2 p1"
      unfolding s_fread1_def f2_def Let_def using b fl by auto
    then show ?thesis using fread1_copy_bounds[OF f2 assms(3), of p1] by auto
  next
    case fill
    have "unat (word_of_nat BUFSIZ :: long) \<le> length (fbuf f2)" "unat (word_of_nat BUFSIZ :: long) < 2 ^ 31"
      using f2 by (simp_all add: stream_ok_def BUFSIZ_def)
    from read_bounded[OF assms(2) this, of "f_fd f2" p1] obtain r as k where
      r: "read_c K (f_fd f2) (SP (fbuf f2)) (word_of_nat BUFSIZ) p1 = (r, as, p1\<lparr>kern := k\<rparr>)" "unat r \<le> BUFSIZ"
        "length (obj (as ! 1)) = length (fbuf f2)" by (auto simp: BUFSIZ_def)
    define f3 where "f3 = f2\<lparr>fbuf := obj (as ! 1)\<rparr>"
    have "sint r = int (unat r)" using r(2) by (simp add: BUFSIZ_def sint_long_small)
    then have sr: "0 \<le> sint r" "sint r \<le> int BUFSIZ" using r(2) by (simp_all only: of_nat_le_iff of_nat_0_le_iff)
    have ok: "stream_ok (f3\<lparr>eof := 1\<rparr>)" "stream_ok (f3\<lparr>fp := 0, fend := sint r\<rparr>)"
      using f2 r(3) sr by (auto simp: f3_def stream_ok_def)
    have "s_fread1 K dst d left f p =
        (if r = 0 then Ret ((0, dst), f3\<lparr>eof := 1\<rparr>, p1\<lparr>kern := k\<rparr>) else fread1_copy dst d left (f3\<lparr>fp := 0, fend := sint r\<rparr>) (p1\<lparr>kern := k\<rparr>))"
      unfolding s_fread1_def using b fl fill r(1) by (simp add: f2_def f3_def)
    then show ?thesis using ok fread1_copy_bounds[OF ok(2) assms(3), of "p1\<lparr>kern := k\<rparr>"] by auto
  qed
qed

lemma s_ungetc_bounds: "stream_ok f \<Longrightarrow> \<exists>r g. s_ungetc c f = Ret (r, g) \<and> stream_ok g"
  by (auto simp: s_ungetc_def sto_def storen_def stream_ok_def)

section \<open>Characters and lines\<close>

lemma s_fgetc_ok:
  assumes "stream_ok f" "btype f = s_IOFBF" "writing f = 0" "eof f = 0" "ferr f = 0" "delivers K (f_fd f) inp"
    and "unread inp f p = b # rest"
  shows "\<exists>g k. s_fgetc K f p = Ret (scast b, g, p\<lparr>kern := k\<rparr>) \<and> unread inp g (p\<lparr>kern := k\<rparr>) = rest \<and> stream_ok g \<and>
    same_file f g \<and> writing g = 0 \<and> eof g = 0 \<and> ferr g = 0 \<and> 0 < fp g"
proof -
  have "0 < unat (1 :: long)" "0 + unat (1 :: long) \<le> length [0 :: byte]" by simp_all
  from s_fread1_buffered[OF assms(1-6) this, of p] obtain c dst' g k where
    s: "s_fread1 K [0] 0 1 f p = Ret ((c, dst'), g, p\<lparr>kern := k\<rparr>)" "unat c \<le> 1"
      "dst' = take 0 [0] @ take (unat c) (unread inp f p) @ drop (0 + unat c) [0]"
      "unread inp g (p\<lparr>kern := k\<rparr>) = drop (unat c) (unread inp f p)" "stream_ok g" "same_file f g" "writing g = 0" "ferr g = 0"
      "0 < unat c" "eof g = 0" "0 < fp g"
    using assms(7) by (auto split: if_splits)
  have c: "unat c = 1" using s(2,9) by simp
  then have "c = 1" by (metis unat_1 word_unat_eq_iff)
  then show ?thesis using s assms(7) by (intro exI[of _ g] exI[of _ k]) (simp add: s_fgetc_def)
qed

lemma s_ungetc_ok:
  assumes "stream_ok g" "btype g = s_IOFBF" "writing g = 0" "0 < fp g"
  shows "\<exists>h. s_ungetc c g = Ret (ucast (ucast c :: byte), h) \<and> unread inp h p = ucast c # unread inp g p \<and> stream_ok h \<and>
    same_file g h \<and> writing h = 0 \<and> eof h = 0 \<and> ferr h = ferr g"
proof -
  define i where "i = nat (fp g - 1)"
  have i: "fp g = int (Suc i)" "Suc i \<le> nat (fend g)" "nat (fend g) \<le> length (fbuf g)" "Suc i \<le> length (fbuf g)"
    using assms(1,4) by (auto simp: i_def stream_ok_def)
  let ?b = "take i (fbuf g) @ [ucast c] @ drop (i + 1) (fbuf g)"
  let ?h = "g\<lparr>fp := fp g - 1, fbuf := ?b, eof := 0\<rparr>"
  have e: "s_ungetc c g = Ret (ucast (ucast c :: byte), ?h)"
    using i assms(4) by (simp add: s_ungetc_def sto_def storen_def)
  have ni: "nat (1 + int i) = Suc i" by simp
  obtain n where n: "nat (fend g) = Suc i + n" using i(2) le_Suc_ex by blast
  have "drop i (take (nat (fend g)) ?b) = ucast c # drop (Suc i) (take (nat (fend g)) (fbuf g))"
    using i unfolding n by (simp add: drop_take)
  then have "unread inp ?h p = ucast c # unread inp g p" using assms(2,3) i(1) ni by (simp add: unread_def)
  moreover have "stream_ok ?h" using assms(1) i by (auto simp: stream_ok_def)
  ultimately show ?thesis using e assms(3) by (intro exI[of _ ?h]) (simp add: same_file_def)
qed

lemma fgets_loop_ok:
  assumes "stream_ok f" "btype f = s_IOFBF" "writing f = 0" "eof f = 0" "ferr f = 0" "delivers K (f_fd f) inp"
    and "unread inp f p = line @ 10 # rest" "10 \<notin> set line" "- 1 \<notin> set line" "c + length line < sz" "c + length line < length buf"
  shows "\<exists>g k. fgets_loop K buf c sz f p =
      Ret ((True, c + length line + 1, take c buf @ line @ 10 # drop (c + length line + 1) buf), g, p\<lparr>kern := k\<rparr>) \<and>
    unread inp g (p\<lparr>kern := k\<rparr>) = rest \<and> stream_ok g \<and> same_file f g \<and> writing g = 0 \<and> eof g = 0 \<and> ferr g = 0"
  using assms
proof (induction line arbitrary: buf c f p)
  case Nil
  then obtain g k where g: "s_fgetc K f p = Ret (scast (10 :: byte), g, p\<lparr>kern := k\<rparr>)" "unread inp g (p\<lparr>kern := k\<rparr>) = rest" "stream_ok g"
    "same_file f g" "writing g = 0" "eof g = 0" "ferr g = 0" using s_fgetc_ok[OF Nil.prems(1-6), of p 10 rest] by auto
  have "scast (10 :: byte) = (10 :: cint)" "(10 :: cint) \<noteq> EOF" "ucast (10 :: cint) = (10 :: byte)" by (code_simp+)
  then show ?case using g Nil.prems(10,11)
    by (intro exI[of _ g] exI[of _ k]) (subst fgets_loop.simps, simp add: upd_conv_take_nth_drop)
next
  case (Cons b line)
  obtain g k where g: "s_fgetc K f p = Ret (scast b, g, p\<lparr>kern := k\<rparr>)" "unread inp g (p\<lparr>kern := k\<rparr>) = line @ 10 # rest" "stream_ok g"
    "same_file f g" "writing g = 0" "eof g = 0" "ferr g = 0"
    using s_fgetc_ok[OF Cons.prems(1-6), of p b "line @ 10 # rest"] Cons.prems(7) by auto
  have b: "(scast b :: cint) \<noteq> EOF" "(scast b :: cint) \<noteq> 10" "ucast (scast b :: cint) = b"
    using Cons.prems(8,9) char_int_neq[of b] by (auto simp: EOF_def)
  have a: "btype g = s_IOFBF" "delivers K (f_fd g) inp" using g(4) Cons.prems(2,6) by (simp_all add: same_file_def)
  have l: "c < length buf" "Suc c + length line < sz" "Suc c + length line < length (buf[c := b])" "c < sz"
    using Cons.prems(10,11) by simp_all
  have n: "10 \<notin> set line" "- 1 \<notin> set line" using Cons.prems(8,9) by simp_all
  from Cons.IH[OF g(3) a(1) g(5-7) a(2) g(2) n l(2,3)] obtain h k' where
    h: "fgets_loop K (buf[c := b]) (Suc c) sz g (p\<lparr>kern := k\<rparr>) =
        Ret ((True, Suc c + length line + 1, take (Suc c) (buf[c := b]) @ line @ 10 # drop (Suc c + length line + 1) (buf[c := b])), h, p\<lparr>kern := k'\<rparr>)"
      "unread inp h (p\<lparr>kern := k'\<rparr>) = rest" "stream_ok h" "same_file g h" "writing h = 0" "eof h = 0" "ferr h = 0" by auto
  have "take (Suc c) (buf[c := b]) = take c buf @ [b]" using l(1) by (simp add: take_Suc_conv_app_nth)
  then have "fgets_loop K buf c sz f p =
      Ret ((True, c + length (b # line) + 1, take c buf @ (b # line) @ 10 # drop (c + length (b # line) + 1) buf), h, p\<lparr>kern := k'\<rparr>)"
    using h(1) g(1) b l by (subst fgets_loop.simps) (simp del: fgets_loop.simps)
  then show ?case using h(2-) same_file_trans[OF g(4) h(4)] by blast
qed

section \<open>The list of open files\<close>

text \<open>
  The links of the files, seen as headers, so that the lemmas about the allocator's list apply. Apart from
  its links a file is its \<open>body\<close>.
\<close>

definition link_view :: "FILE \<Rightarrow> header_t" where
  "link_view x = \<lparr>h_start = 0, h_end = 0, objs = 0, maxsz = 0, h_next = lnext x, h_prev = lprev x\<rparr>"

definition links_of :: "(long \<Rightarrow> FILE option) \<Rightarrow> hstore" where
  "links_of h = (\<lambda>a. map_option link_view (h a))"

definition body :: "FILE \<Rightarrow> FILE" where
  "body x = x\<lparr>lnext := 0, lprev := 0\<rparr>"

definition open_files :: "'k io \<Rightarrow> long list \<Rightarrow> bool" where
  "open_files st fs \<longleftrightarrow> dls (links_of (files st)) 0 (allhead st) fs 0 \<and> distinct fs"

definition same_bodies :: "(long \<Rightarrow> FILE option) \<Rightarrow> (long \<Rightarrow> FILE option) \<Rightarrow> bool" where
  "same_bodies h h' \<longleftrightarrow> (\<forall>a. map_option body (h' a) = map_option body (h a))"

lemma links_of_simps [simp]:
  "links_of (h(a \<mapsto> x)) = (links_of h)(a \<mapsto> link_view x)" "links_of (h(a := None)) = (links_of h)(a := None)"
  "links_of h a = None \<longleftrightarrow> h a = None" "h a = Some x \<Longrightarrow> links_of h a = Some (link_view x)"
  by (auto simp: links_of_def)

lemma link_view_simps [simp]:
  "link_view (x\<lparr>lnext := n\<rparr>) = (link_view x)\<lparr>h_next := n\<rparr>" "link_view (x\<lparr>lprev := n\<rparr>) = (link_view x)\<lparr>h_prev := n\<rparr>"
  "h_next (link_view x) = lnext x" "h_prev (link_view x) = lprev x"
  by (simp_all add: link_view_def)

lemma same_bodies_refl [simp]: "same_bodies h h"
  by (simp add: same_bodies_def)

lemma same_bodies_upd:
  "same_bodies h h' \<Longrightarrow> h' a = Some x \<Longrightarrow> body y = body x \<Longrightarrow> same_bodies h (h'(a \<mapsto> y))"
  unfolding same_bodies_def by (metis fun_upd_apply option.map(2))

lemma body_links [simp]: "body (x\<lparr>lnext := n\<rparr>) = body x" "body (x\<lparr>lprev := n\<rparr>) = body x"
  by (simp_all add: body_def)

lemma body_eqD:
  "body x = body y \<Longrightarrow> f_fd x = f_fd y \<and> btype x = btype y \<and> fbuf x = fbuf y \<and> fp x = fp y \<and> fend x = fend y \<and> eof x = eof y \<and>
     ferr x = ferr y \<and> writing x = writing y \<and> fmut x = fmut y"
  by (cases x; cases y) (simp add: body_def)

lemma body_eq_content: "body x = body y \<Longrightarrow> stream_ok x = stream_ok y \<and> content out x p = content out y p"
  by (drule body_eqD) (simp add: stream_ok_def content_def)

lemma open_files_in: "open_files st fs \<Longrightarrow> f \<in> set fs \<Longrightarrow> f \<noteq> 0 \<and> (\<exists>x. files st f = Some x)"
proof -
  assume a: "open_files st fs" "f \<in> set fs"
  have "dls h pr p as q \<Longrightarrow> f \<in> set as \<Longrightarrow> h f \<noteq> None" for h pr p as q
    by (induction as arbitrary: pr p) (auto split: option.splits)
  from this[of "links_of (files st)"] show ?thesis using a dls_nonzero[of "links_of (files st)"] by (fastforce simp: open_files_def)
qed

lemma link_head_ok:
  assumes "open_files st fs" "f \<notin> set fs" "f \<noteq> 0" "files st f = Some x" "lprev x = 0"
  shows "\<exists>st'. link_head f st = Ret st' \<and> open_files st' (f # fs) \<and> same_bodies (files st) (files st') \<and> iom st' = iom st \<and>
    allmut st' = allmut st"
proof -
  let ?h1 = "(files st)(f \<mapsto> x\<lparr>lnext := allhead st\<rparr>)"
  have d1: "dls (links_of ?h1) 0 (allhead st) fs 0" using assms(1,2) by (simp add: open_files_def dls_frame)
  have b1: "same_bodies (files st) ?h1" by (rule same_bodies_upd) (use assms(4) in simp_all)
  show ?thesis
  proof (cases fs)
    case Nil
    then have "allhead st = 0" using d1 by simp
    then show ?thesis using Nil assms(2-5) b1
      by (intro exI[of _ "st\<lparr>files := ?h1, allhead := f\<rparr>"]) (simp add: link_head_def upd_file_def open_files_def)
  next
    case (Cons c ws)
    then have c: "allhead st = c" "c \<noteq> 0" "c \<noteq> f" "c \<notin> set ws" "f \<notin> set ws" "distinct ws"
      using d1 assms(1,2) by (auto simp: open_files_def)
    obtain y where y: "files st c = Some y" using open_files_in[OF assms(1), of c] Cons by auto
    let ?h2 = "?h1(c \<mapsto> y\<lparr>lprev := f\<rparr>)"
    have "dls ((links_of ?h1)(c \<mapsto> (link_view y)\<lparr>h_prev := f\<rparr>)) f c (c # ws) 0"
      by (rule dls_set_first[of _ 0 c c ws]) (use d1 Cons c y in simp_all)
    then have "dls (links_of ?h2) f c (c # ws) 0" by simp
    then have "dls (links_of ?h2) 0 f (f # c # ws) 0" using c assms(3,5) by simp
    moreover have "same_bodies (files st) ?h2" by (rule same_bodies_upd[OF b1]) (use c y in simp_all)
    ultimately show ?thesis using Cons assms(2-5) c y
      by (intro exI[of _ "st\<lparr>files := ?h2, allhead := f\<rparr>"]) (simp add: link_head_def upd_file_def open_files_def)
  qed
qed

lemma unlink_file_ok:
  assumes "open_files st fs" "f \<in> set fs" "files st f = Some x"
  shows "\<exists>st'. unlink_file f x st = Ret st' \<and> open_files st' (remove1 f fs) \<and> same_bodies (files st) (files st') \<and>
    files st' f = Some x \<and> iom st' = iom st \<and> allmut st' = allmut st"
proof -
  obtain xs ys where fs: "fs = xs @ f # ys" using assms(2) by (meson split_list)
  let ?h = "files st" and ?p = "lprev x" and ?n = "lnext x"
  have d: "dls (links_of ?h) 0 (allhead st) (xs @ f # ys) 0" "distinct (xs @ f # ys)" using assms(1) fs by (simp_all add: open_files_def)
  have lx: "links_of ?h f = Some (link_view x)" using assms(3) by simp
  note u = unlink_dls[OF d lx, unfolded link_view_simps(3,4)]
  define h1 where "h1 = (if ?n \<noteq> 0 then ?h(?n \<mapsto> (the (?h ?n))\<lparr>lprev := ?p\<rparr>) else ?h)"
  define h2 where "h2 = (if ?p \<noteq> 0 then h1(?p \<mapsto> (the (h1 ?p))\<lparr>lnext := ?n\<rparr>) else h1)"
  have in_p: "?p \<noteq> 0 \<Longrightarrow> ?p \<in> set xs \<and> ?h ?p \<noteq> None" and in_n: "?n \<noteq> 0 \<Longrightarrow> ?n \<in> set ys"
    using u by simp_all
  have pn: "?p \<noteq> 0 \<Longrightarrow> ?n \<noteq> 0 \<Longrightarrow> ?p \<noteq> ?n" "?p \<noteq> 0 \<Longrightarrow> ?p \<noteq> f" "?n \<noteq> 0 \<Longrightarrow> ?n \<noteq> f" using in_p in_n d(2) by auto
  have hn: "?n \<noteq> 0 \<Longrightarrow> ?h ?n \<noteq> None" using open_files_in[OF assms(1), of ?n] in_n fs by auto
  have e: "links_of h2 = (let g1 = (if ?p \<noteq> 0 then (links_of ?h)(?p \<mapsto> (the (links_of ?h ?p))\<lparr>h_next := ?n\<rparr>) else links_of ?h)
      in if ?n \<noteq> 0 then g1(?n \<mapsto> (the (g1 ?n))\<lparr>h_prev := ?p\<rparr>) else g1)"
    using in_p hn pn(1) by (auto simp: h1_def h2_def Let_def links_of_def fun_eq_iff)
  have "dls (links_of h2) 0 (if ?p \<noteq> 0 then allhead st else ?n) (xs @ ys) 0"
    using u unfolding e Let_def by blast
  moreover have "allhead st = f \<longleftrightarrow> ?p = 0"
    using d u assms(3) dls_nonzero[OF d(1)] by (cases xs) (auto split: option.splits)
  ultimately have "open_files (st\<lparr>files := h2, allhead := if allhead st = f then ?n else allhead st\<rparr>) (remove1 f fs)"
    using d(2) by (auto simp: open_files_def fs remove1_append)
  moreover have b1: "same_bodies ?h h1"
    using hn same_bodies_upd[OF same_bodies_refl, of ?h ?n "the (?h ?n)" "(the (?h ?n))\<lparr>lprev := ?p\<rparr>"] by (auto simp: h1_def)
  have "?p \<noteq> 0 \<Longrightarrow> h1 ?p \<noteq> None" using in_p pn(1) by (auto simp: h1_def)
  then have "same_bodies ?h h2"
    using b1 same_bodies_upd[OF b1, of ?p "the (h1 ?p)" "(the (h1 ?p))\<lparr>lnext := ?n\<rparr>"] by (auto simp: h2_def)
  moreover have "h2 f = Some x" using assms(3) pn by (auto simp: h1_def h2_def)
  moreover have "unlink_file f x st = Ret (st\<lparr>files := h2, allhead := if allhead st = f then ?n else allhead st\<rparr>)"
    using in_p hn pn(1) by (auto simp: unlink_file_def upd_file_def h1_def h2_def)
  ultimately show ?thesis by auto
qed

text \<open>Several files: each is what was written to its descriptor, and a write changes no other.\<close>

definition writes_files :: "'k kernel \<Rightarrow> (cint \<Rightarrow> 'k \<Rightarrow> byte list) \<Rightarrow> bool" where
  "writes_files K outs \<longleftrightarrow> (\<forall>fd. appends K fd (outs fd)) \<and>
     (\<forall>fd fd' as k. fd' \<noteq> fd \<longrightarrow> outs fd' (snd (snd (K SYS_WRITE (SAi fd # as) k))) = outs fd' k)"

lemma write_c_kern: "kern (snd (snd (write_c K fd b n p))) =
  snd (snd (K SYS_WRITE [SAi fd, b, SA n, (case arch p of X86_64 rsp \<Rightarrow> SA rsp | AArch64 \<Rightarrow> SA 0), SA 0, SA 0] (kern p)))"
  by (simp add: write_c_def widen_def sys_neg_def syscall_5 ERRNO_NEG_def split: prod.split)

lemma s_fflush_kern: "kern (snd (snd (s_fflush K f p))) = kern p \<or>
  (\<exists>as. kern (snd (snd (s_fflush K f p))) = snd (snd (K SYS_WRITE (SAi (f_fd f) # as) (kern p))))"
  using write_c_kern[of K "f_fd f" "SP (fbuf f)" "word_of_int (fp f)" p]
  by (auto simp: s_fflush_def Let_def warn_def split: prod.split)

lemma s_fflush_others: "writes_files K outs \<Longrightarrow> fd \<noteq> f_fd f \<Longrightarrow> outs fd (kern (snd (snd (s_fflush K f p)))) = outs fd (kern p)"
  using s_fflush_kern[of K f p] by (auto simp: writes_files_def)

lemma same_file_links: "same_file x y \<Longrightarrow> link_view y = link_view x"
  by (simp add: same_file_def link_view_def)

lemma fflush_writes:
  assumes "fready st f x" "writes_files K outs"
  shows "\<exists>st' y. fflush K f st = Ret (0, st') \<and> fready st' f y \<and> same_file x y \<and> files st' = (files st)(f \<mapsto> y) \<and>
    outs (f_fd x) (kern (io_proc st')) = content (outs (f_fd x)) x (io_proc st) \<and>
    (\<forall>fd. fd \<noteq> f_fd x \<longrightarrow> outs fd (kern (io_proc st')) = outs fd (kern (io_proc st))) \<and> allhead st' = allhead st \<and> allmut st' = allmut st"
proof -
  have "appends K (f_fd x) (outs (f_fd x))" using assms(2) by (simp add: writes_files_def)
  from fflush_ok[OF assms(1) this] obtain st' y where s: "fflush K f st = Ret (0, st')" "fready st' f y" "same_file x y"
    "files st' = (files st)(f \<mapsto> y)" "outs (f_fd x) (kern (io_proc st')) = content (outs (f_fd x)) x (io_proc st)" by blast
  have x: "files st f = Some x" "fmut x = 0" "stream_ok x" using assms(1) by (simp_all add: fready_def)
  let ?x = "x\<lparr>fmut := if dolock (iom st) then 1 else 0\<rparr>"
  obtain e g p where g: "s_fflush K ?x (io_proc st) = (e, g, p)" by (cases "s_fflush K ?x (io_proc st)")
  have "fmut g \<noteq> 2" using s_fflush_bounds[OF _ g] x(3) by (simp add: same_file_def)
  then have "st' = set_proc p (st\<lparr>files := (files st)(f \<mapsto> g\<lparr>fmut := 0\<rparr>)\<rparr>)"
    using s(1) g by (simp add: fflush_def with_file_def lock_file_free[OF x(1,2)] unlock_file_free)
  moreover have "fd \<noteq> f_fd x \<Longrightarrow> outs fd (kern p) = outs fd (kern (io_proc st))" for fd
    using s_fflush_others[OF assms(2), of fd ?x "io_proc st"] g by simp
  ultimately show ?thesis using s by auto
qed

lemma fflush_list_ok:
  assumes "writes_files K outs" "dls (links_of (files st)) pr a fs 0" "distinct fs"
    and "\<forall>f \<in> set fs. fready st f (the (files st f))" "distinct (map (\<lambda>f. f_fd (the (files st f))) fs)"
  shows "\<exists>st'. fflush_list K ret a st = Some (Ret (ret, st')) \<and> allmut st' = allmut st \<and> allhead st' = allhead st \<and>
    links_of (files st') = links_of (files st) \<and>
    (\<forall>f \<in> set fs. outs (f_fd (the (files st f))) (kern (io_proc st')) = content (outs (f_fd (the (files st f)))) (the (files st f)) (io_proc st)) \<and>
    (\<forall>fd. fd \<notin> (\<lambda>f. f_fd (the (files st f))) ` set fs \<longrightarrow> outs fd (kern (io_proc st')) = outs fd (kern (io_proc st)))"
  using assms(2-)
proof (induction fs arbitrary: pr a st)
  case Nil
  then show ?case by (intro exI[of _ st]) (subst fflush_list.simps, simp)
next
  case (Cons f fs)
  let ?x = "the (files st f)"
  have r: "fready st f ?x" using Cons.prems(3) by simp
  have f: "a = f" "f \<noteq> 0" "files st f = Some ?x" "dls (links_of (files st)) f (lnext ?x) fs 0"
    using Cons.prems(1) r by (auto simp: fready_def)
  obtain st1 y where s: "fflush K f st = Ret (0, st1)" "fready st1 f y" "same_file ?x y" "files st1 = (files st)(f \<mapsto> y)"
    "outs (f_fd ?x) (kern (io_proc st1)) = content (outs (f_fd ?x)) ?x (io_proc st)"
    "\<forall>fd. fd \<noteq> f_fd ?x \<longrightarrow> outs fd (kern (io_proc st1)) = outs fd (kern (io_proc st))" "allhead st1 = allhead st" "allmut st1 = allmut st"
    using fflush_writes[OF r assms(1)] by blast
  have lx: "links_of (files st) f = Some (link_view ?x)" using f(3) by (rule links_of_simps(4))
  have l: "links_of (files st1) = links_of (files st)"
    using s(4) same_file_links[OF s(3)] lx by (simp add: fun_upd_idem)
  have nf: "g \<in> set fs \<Longrightarrow> files st1 g = files st g" for g using s(4) Cons.prems(2) by auto
  have m: "map (\<lambda>f. f_fd (the (files st1 f))) fs = map (\<lambda>f. f_fd (the (files st f))) fs" using nf by simp
  have nfd: "f_fd ?x \<notin> (\<lambda>f. f_fd (the (files st f))) ` set fs" using Cons.prems(4) by auto
  have rd: "\<forall>g \<in> set fs. fready st1 g (the (files st1 g))" using Cons.prems(3) nf by (auto simp: fready_def)
  have d1: "dls (links_of (files st1)) f (lnext ?x) fs 0" using f(4) l by simp
  have ds: "distinct fs" "distinct (map (\<lambda>f. f_fd (the (files st1 f))) fs)" using Cons.prems(2,4) unfolding m by simp_all
  from Cons.IH[OF d1 ds(1) rd ds(2)] obtain st' where t: "fflush_list K ret (lnext ?x) st1 = Some (Ret (ret, st'))"
    "allmut st' = allmut st1" "allhead st' = allhead st1" "links_of (files st') = links_of (files st1)"
    "\<forall>g \<in> set fs. outs (f_fd (the (files st1 g))) (kern (io_proc st')) = content (outs (f_fd (the (files st1 g)))) (the (files st1 g)) (io_proc st1)"
    "\<forall>fd. fd \<notin> (\<lambda>f. f_fd (the (files st1 f))) ` set fs \<longrightarrow> outs fd (kern (io_proc st')) = outs fd (kern (io_proc st1))" by blast
  have im: "(\<lambda>f. f_fd (the (files st1 f))) ` set fs = (\<lambda>f. f_fd (the (files st f))) ` set fs" using nf by auto
  have y: "files st1 f = Some y" "lnext y = lnext ?x" using s(2,3) by (simp_all add: fready_def same_file_def)
  have "fflush_list K ret a st = Some (Ret (ret, st'))"
    using f(1,2) s(1) y t(1) by (subst fflush_list.simps) simp
  moreover have "outs (f_fd (the (files st g))) (kern (io_proc st')) = content (outs (f_fd (the (files st g)))) (the (files st g)) (io_proc st)"
    if "g \<in> set (f # fs)" for g
  proof (cases "g = f")
    case True
    then show ?thesis using t(6) nfd im s(5) by simp
  next
    case False
    then have "g \<in> set fs" using that by simp
    moreover have "f_fd (the (files st g)) \<noteq> f_fd ?x" using nfd calculation by (metis image_eqI)
    ultimately show ?thesis using t(5) nf s(6) by (auto simp: content_def)
  qed
  moreover have "outs fd (kern (io_proc st')) = outs fd (kern (io_proc st))"
    if "fd \<notin> (\<lambda>f. f_fd (the (files st f))) ` set (f # fs)" for fd
    using that t(6) im s(6) by simp
  ultimately show ?case using s(7,8) t(2-4) l by auto
qed

lemma fflush_all_ok:
  assumes "writes_files K outs" "open_files st fs" "allmut st = 0"
    and "\<forall>f \<in> set fs. fready st f (the (files st f))" "distinct (map (\<lambda>f. f_fd (the (files st f))) fs)"
  shows "\<exists>st'. fflush_all K st = Some (Ret (0, st')) \<and> open_files st' fs \<and>
    (\<forall>f \<in> set fs. outs (f_fd (the (files st f))) (kern (io_proc st')) = content (outs (f_fd (the (files st f)))) (the (files st f)) (io_proc st))"
proof -
  let ?m = "if dolock (iom st) then 1 else 0 :: cint" and ?st = "st\<lparr>allmut := if dolock (iom st) then 1 else 0\<rparr>"
  have "dls (links_of (files ?st)) 0 (allhead st) fs 0" "distinct fs" using assms(2) by (simp_all add: open_files_def)
  moreover have "\<forall>f \<in> set fs. fready ?st f (the (files ?st f))" "distinct (map (\<lambda>f. f_fd (the (files ?st f))) fs)"
    using assms(4,5) by (simp_all add: fready_def)
  ultimately obtain st' where s: "fflush_list K 0 (allhead st) ?st = Some (Ret (0, st'))" "allmut st' = allmut ?st" "allhead st' = allhead ?st"
    "links_of (files st') = links_of (files ?st)"
    "\<forall>f \<in> set fs. outs (f_fd (the (files ?st f))) (kern (io_proc st')) = content (outs (f_fd (the (files ?st f)))) (the (files ?st f)) (io_proc ?st)"
    using fflush_list_ok[OF assms(1), of ?st 0 "allhead st" fs 0] by blast
  have "mut_unlock K (allmut st') p = p" for p using s(2) by (simp add: mut_unlock_def)
  moreover have "mut_lock (dolock (iom st)) (allmut st) = Ret ?m" using assms(3) by (simp add: mut_lock_def)
  ultimately have "fflush_all K st = Some (Ret (0, set_proc (io_proc st') (st'\<lparr>allmut := 0\<rparr>)))"
    using s(1) by (simp add: fflush_all_def)
  then show ?thesis using s assms(2) by (auto simp: open_files_def)
qed

section \<open>Opening and closing\<close>

text \<open>Calls other than \<open>mmap\<close> and \<open>munmap\<close> leave the mapped ranges alone; giving memory back writes nothing.\<close>

definition keeps_maps :: "'k kernel \<Rightarrow> ('k \<Rightarrow> (long \<times> long) set) \<Rightarrow> bool" where
  "keeps_maps K maps \<longleftrightarrow> (\<forall>trap as k. trap \<noteq> SYS_MMAP \<longrightarrow> trap \<noteq> SYS_MUNMAP \<longrightarrow> maps (snd (snd (K trap as k))) = maps k)"

lemma heap_ok_mproc: "maps (kern p) = maps (kern (mproc ms)) \<Longrightarrow> heap_ok K maps (ms\<lparr>mproc := p\<rparr>) live = heap_ok K maps ms live"
  by (simp add: heap_ok_def)

lemma idle_mproc [simp]: "idle (ms\<lparr>mproc := p\<rparr>) = idle ms"
  by (simp add: idle_def)

lemma bind_out_cases:
  "bind_out x f = Ret y \<Longrightarrow> (\<And>a. x = Ret a \<Longrightarrow> f a = Ret y \<Longrightarrow> P) \<Longrightarrow> P"
  by (cases x) auto

lemma munmap_kern: "munmap K a n p = (r, as, p') \<Longrightarrow> \<exists>bs. kern p' = snd (snd (K SYS_MUNMAP bs (kern p)))"
  by (auto simp: munmap_def sys_nz_def syscall_5 ERRNO_NZ_def split: prod.splits if_splits)
    (metis prod.sel(2))+

lemma s_free_header_kern:
  assumes "s_free_header K ch st = Ret st'"
  shows "\<exists>bs. kern (mproc st') = snd (snd (K SYS_MUNMAP bs (kern (mproc st))))"
proof -
  have u: "upd_hdr a g s = Ret s' \<Longrightarrow> mproc s' = mproc s" for a g and s s' :: "'a mstate"
    by (auto simp: upd_hdr_def split: option.splits)
  from assms obtain x :: header_t and st1 and x1 :: header_t and st2 and x2 :: header_t where
    a: "(if h_prev x \<noteq> 0 then upd_hdr (h_prev x) (\<lambda>y. y\<lparr>h_next := h_next x\<rparr>) st else Ret (st\<lparr>allh := h_next x\<rparr>)) = Ret st1"
      "(if h_next x1 \<noteq> 0 then upd_hdr (h_next x1) (\<lambda>y. y\<lparr>h_prev := h_prev x1\<rparr>) st1 else Ret st1) = Ret st2"
      "(case munmap K (h_start x2) (h_end x2 - h_start x2) (mproc st2) of (r, _, p') \<Rightarrow>
         if r <s 0 then Errx r ''munmap'' else Ret (st2\<lparr>mproc := p', hdrs := (hdrs st2)(ch := None)\<rparr>)) = Ret st'"
    unfolding s_free_header_def bind_out_Ret_iff by blast
  have "mproc st2 = mproc st" using u a(1,2) by (auto split: if_splits)
  then show ?thesis using a(3) munmap_kern by (fastforce split: prod.splits if_splits)
qed

lemma s_free_kern:
  assumes "s_free K a st = Ret st'"
  shows "kern (mproc st') = kern (mproc st) \<or> (\<exists>bs. kern (mproc st') = snd (snd (K SYS_MUNMAP bs (kern (mproc st)))))"
proof -
  from assms obtain ch where
    a: "bind_out (upd_hdr ch (\<lambda>x. x\<lparr>objs := objs x - 1\<rparr>) st) (\<lambda>st1. bind_out (hdr ch st1) (\<lambda>x.
      if objs x = 0 \<and> ch \<noteq> curh st1 then s_free_header K ch st1 else Ret st1)) = Ret st'"
    unfolding s_free_def by (auto elim!: bind_out_cases split: if_splits)
  then obtain st1 and x :: header_t where u: "upd_hdr ch (\<lambda>x. x\<lparr>objs := objs x - 1\<rparr>) st = Ret st1"
    and f: "(if objs x = 0 \<and> ch \<noteq> curh st1 then s_free_header K ch st1 else Ret st1) = Ret st'"
    unfolding bind_out_Ret_iff by blast
  have "mproc st1 = mproc st" using u by (auto simp: upd_hdr_def split: option.splits)
  then show ?thesis using f s_free_header_kern[of K ch st1 st'] by (cases "objs x = 0 \<and> ch \<noteq> curh st1") auto
qed

lemma free_kern:
  assumes "free K a st = Ret st'"
  shows "kern (mproc st') = kern (mproc st) \<or> (\<exists>bs. kern (mproc st') = snd (snd (K SYS_MUNMAP bs (kern (mproc st)))))"
proof -
  from assms obtain st1 st2 where a: "acquire st = Ret st1" "s_free K a st1 = Ret st2" "st' = release st2"
    unfolding free_def by (auto elim!: bind_out_cases)
  have "mproc st1 = mproc st" "mproc st' = mproc st2" using a(1,3) by (auto simp: acquire_def release_def split: if_splits)
  then show ?thesis using s_free_kern[OF a(2)] by simp
qed

lemma s_fflush_maps: "keeps_maps K maps \<Longrightarrow> maps (kern (snd (snd (s_fflush K f p)))) = maps (kern p)"
  using s_fflush_kern[of K f p] by (auto simp: keeps_maps_def SYS_WRITE_def SYS_MMAP_def SYS_MUNMAP_def)

lemma open_files_upd:
  "open_files st fs \<Longrightarrow> f \<notin> set fs \<Longrightarrow> files st' = (files st)(f := y) \<Longrightarrow> allhead st' = allhead st \<Longrightarrow> open_files st' fs"
  by (cases y) (simp_all add: open_files_def dls_frame)

lemma fclose_ok:
  assumes "fready st f x" "open_files st fs" "f \<in> set fs" "allmut st = 0" "writing x = 0 \<or> appends K (f_fd x) out"
    and "heap_ok K maps (iom st) live" "idle (iom st)" "live f = Some n" "keeps_maps K maps"
    and "\<And>bs k. out (snd (snd (K SYS_MUNMAP bs k))) = out k"
  shows "\<exists>st'. fclose K f st = Ret (0, st') \<and> open_files st' (remove1 f fs) \<and> files st' f = None \<and>
    out (kern (io_proc st')) = content out x (io_proc st) \<and> heap_ok K maps (iom st') (live(f := None)) \<and> idle (iom st')"
proof -
  have x: "files st f = Some x" "fmut x = 0" "stream_ok x" using assms(1) by (simp_all add: fready_def)
  let ?m = "if dolock (iom st) then 1 else 0 :: cint"
  have lk: "mut_lock (dolock (iom st)) (allmut st) = Ret ?m" using assms(4) by (simp add: mut_lock_def)
  have "open_files (st\<lparr>allmut := ?m\<rparr>) fs" "files (st\<lparr>allmut := ?m\<rparr>) f = Some x" using assms(2) x(1) by (simp_all add: open_files_def)
  from unlink_file_ok[OF this(1) assms(3) this(2)] obtain st1 where s1: "unlink_file f x (st\<lparr>allmut := ?m\<rparr>) = Ret st1"
    "open_files st1 (remove1 f fs)" "files st1 f = Some x" "iom st1 = iom st" "allmut st1 = ?m" by auto
  define st2 where "st2 = set_proc (mut_unlock K (allmut st1) (io_proc st1)) (st1\<lparr>allmut := 0\<rparr>)"
  have st2: "files st2 f = Some x" "iom st2 = iom st" "open_files st2 (remove1 f fs)"
    using s1 by (simp_all add: st2_def mut_unlock_def set_proc_def open_files_def)
  let ?x = "x\<lparr>fmut := ?m\<rparr>"
  obtain k where k: "s_fflush K ?x (io_proc st) = (0, if writing ?x = 0 then ?x else ?x\<lparr>fp := 0, fend := 0\<rparr>, (io_proc st)\<lparr>kern := k\<rparr>)"
    "out k = content out ?x (io_proc st)"
    using s_fflush_ok[of ?x K out "io_proc st"] x(3) assms(5) by auto
  have mk: "maps k = maps (kern (io_proc st))" using s_fflush_maps[OF assms(9), of ?x "io_proc st"] k(1) by simp
  define z where "z = (if writing x = 0 then ?x else ?x\<lparr>fp := 0, fend := 0\<rparr>)\<lparr>f_fd := - 1\<rparr>"
  define st3 where "st3 = set_proc ((io_proc st)\<lparr>kern := k\<rparr>) (st2\<lparr>files := (files st2)(f \<mapsto> z\<lparr>fmut := 0\<rparr>)\<rparr>)"
  have "fmut z \<noteq> 2" by (simp add: z_def)
  then have w: "with_file K f (\<lambda>y p. case s_fflush K y p of (_, z, p') \<Rightarrow> Ret (0 :: cint, z\<lparr>f_fd := - 1\<rparr>, p')) st2 = Ret (0, st3)"
    using k(1) st2(2) by (simp add: with_file_def lock_file_free[OF st2(1) x(2)] unlock_file_free st3_def z_def)
  have i3: "iom st3 = (iom st)\<lparr>mproc := (io_proc st)\<lparr>kern := k\<rparr>\<rparr>" using st2(2) by (simp add: st3_def set_proc_def)
  have h3: "heap_ok K maps (iom st3) live" "idle (iom st3)" using assms(6,7) mk unfolding i3 by (simp_all add: heap_ok_mproc)
  obtain ms where ms: "free K f (iom st3) = Ret ms" "idle ms" "ram ms = ram (iom st3)" "heap_ok K maps ms (live(f := None))"
    by (rule free_spec[OF h3 assms(8)])
  have o: "out (kern (mproc ms)) = content out x (io_proc st)" using free_kern[OF ms(1)] assms(10) k(2) i3 by auto
  let ?st = "st3\<lparr>iom := ms, files := (files st3)(f := None)\<rparr>"
  have "f \<notin> set (remove1 f fs)" using assms(2) by (simp add: open_files_def)
  then have "open_files ?st (remove1 f fs)" using open_files_upd[OF st2(3), of f ?st None] by (simp add: st3_def)
  moreover have "fclose K f st = Ret (0, ?st)"
    using x(1) lk s1(1) w ms(1) by (simp add: fclose_def st2_def[symmetric])
  ultimately show ?thesis using o ms by (intro exI[of _ ?st]) simp
qed

lemma strchr_total: "cstr p s \<Longrightarrow> \<exists>r. strchr p c = Some r"
proof (induction s arbitrary: p)
  case (Cons b s)
  then show ?case by (cases p) (auto simp: cstr_def)
qed (auto simp: cstr_def)

lemma sys_kern:
  "\<exists>bs. kern (snd (snd (sys_neg K as trap p))) = snd (snd (K trap bs (kern p)))"
  "\<exists>bs. kern (snd (snd (sys_nz K as trap p))) = snd (snd (K trap bs (kern p)))"
  by (rule exI[of _ "case arch p of X86_64 rsp \<Rightarrow> (as @ [SA 0])[3 := SA rsp] | AArch64 \<Rightarrow> as @ [SA 0]"],
    auto simp: sys_neg_def sys_nz_def syscall_def syscall6_def ERRNO_NEG_def ERRNO_NZ_def Let_def split: prod.split)+

lemma open_c_kern: "\<exists>as. kern (snd (snd (open_c K path fl um p))) = snd (snd (K SYS_OPEN as (kern p)))"
  unfolding open_c_def by (rule sys_kern)

lemma fstat_kern: "\<exists>as. kern (snd (snd (fstat K fd b p))) = snd (snd (K SYS_FSTAT as (kern p)))"
  unfolding fstat_def by (rule sys_kern)

lemma fopen_fd_maps: "keeps_maps K maps \<Longrightarrow> maps (kern (snd (fopen_fd K um path gfd fl p))) = maps (kern p)"
  using open_c_kern[of K "the path" fl um p]
  by (auto simp: fopen_fd_def keeps_maps_def SYS_OPEN_def SYS_MMAP_def SYS_MUNMAP_def split: option.split prod.split)

lemma fopen_setup_ok:
  assumes "open_files st fs" "ret \<notin> set fs" "ret \<noteq> 0" "allmut st = 0" "keeps_maps K maps"
  shows "\<exists>st' x p. fopen_setup K ret fd st = Ret (ret, st') \<and> open_files st' (ret # fs) \<and> iom st' = (iom st)\<lparr>mproc := p\<rparr> \<and>
    maps (kern p) = maps (kern (io_proc st)) \<and> allmut st' = 0 \<and> fready st' ret x \<and> f_fd x = fd \<and> writing x = 0 \<and> eof x = 0 \<and> fp x = 0 \<and> fend x = 0"
proof -
  obtain r as p where fs: "fstat K fd (SP (replicate STATSZ 0)) (io_proc st) = (r, as, p)"
    by (cases "fstat K fd (SP (replicate STATSZ 0)) (io_proc st)")
  have mp: "maps (kern p) = maps (kern (io_proc st))"
    using fs assms(5) fstat_kern[of K fd "SP (replicate STATSZ 0)" "io_proc st"]
    by (auto simp: keeps_maps_def SYS_FSTAT_def SYS_MMAP_def SYS_MUNMAP_def)
  define x where "x = file0\<lparr>f_fd := fd, btype := if r = 0 \<and> S_ISREG_c (stat_mode (obj (as ! 1))) then s_IOFBF else s_IONBF\<rparr>"
  let ?m = "if dolock (iom st) then 1 else 0 :: cint"
  define st1 where "st1 = set_proc p (st\<lparr>files := (files st)(ret \<mapsto> x)\<rparr>)"
  have "open_files (st1\<lparr>allmut := ?m\<rparr>) fs"
    by (rule open_files_upd[OF assms(1,2), where y = "Some x"]) (simp_all add: st1_def)
  moreover have "files (st1\<lparr>allmut := ?m\<rparr>) ret = Some x" "lprev x = 0" by (simp_all add: st1_def x_def file0_def)
  ultimately have "\<exists>st2. link_head ret (st1\<lparr>allmut := ?m\<rparr>) = Ret st2 \<and> open_files st2 (ret # fs) \<and>
      same_bodies (files (st1\<lparr>allmut := ?m\<rparr>)) (files st2) \<and> iom st2 = iom (st1\<lparr>allmut := ?m\<rparr>) \<and> allmut st2 = allmut (st1\<lparr>allmut := ?m\<rparr>)"
    by (rule link_head_ok[OF _ assms(2,3)])
  then obtain st2 where s2: "link_head ret (st1\<lparr>allmut := ?m\<rparr>) = Ret st2" "open_files st2 (ret # fs)"
    "same_bodies (files (st1\<lparr>allmut := ?m\<rparr>)) (files st2)" "iom st2 = iom st1" "allmut st2 = ?m"
    by auto
  have "map_option body (files st2 ret) = Some (body x)" using s2(3) by (simp add: same_bodies_def st1_def)
  then obtain y where y: "files st2 ret = Some y" "body y = body x" by auto
  have yx: "stream_ok y" "fmut y = 0" "ferr y = 0" "f_fd y = fd" "writing y = 0" "eof y = 0" "fp y = 0" "fend y = 0"
    using body_eqD[OF y(2)] by (auto simp: x_def file0_def stream_ok_def)
  let ?st = "set_proc (io_proc st2) (st2\<lparr>allmut := 0\<rparr>)"
  have lk: "mut_lock (dolock (iom st1)) (allmut st1) = Ret ?m" using assms(4) by (simp add: mut_lock_def st1_def)
  have "fopen_setup K ret fd st = Ret (ret, ?st)"
    unfolding fopen_setup_def fs prod.case Let_def x_def[symmetric] st1_def[symmetric] lk bind_out.simps s2(1)
    using s2(5) by (simp add: mut_unlock_def)
  moreover have "iom ?st = (iom st)\<lparr>mproc := p\<rparr>" using s2(4) by (simp add: set_proc_def st1_def)
  moreover have "open_files ?st (ret # fs)" "fready ?st ret y" "allmut ?st = 0" using s2(2) y(1) yx by (simp_all add: open_files_def fready_def)
  ultimately show ?thesis using mp yx by blast
qed

lemma fopen_ok:
  assumes "heap_ok K maps (iom st) live" "idle (iom st)" "open_files st fs" "allmut st = 0" "keeps_maps K maps" "cstr mode md"
    and "\<forall>f \<in> set fs. live f = None \<longrightarrow> (\<forall>ms. malloc K FILESZ (iom st) \<noteq> Ret (f, ms))"
  shows "\<exists>r st'. s_fopen K um path gfd mode st = Ret (r, st') \<and> idle (iom st') \<and> allmut st' = 0 \<and>
    (if r = 0 then heap_ok K maps (iom st') live \<and> open_files st' fs
     else heap_ok K maps (iom st') (live(r \<mapsto> 4152)) \<and> open_files st' (r # fs) \<and> r \<notin> set fs \<and> live r = None \<and>
       (\<exists>x. fready st' r x \<and> writing x = 0 \<and> eof x = 0 \<and> fp x = 0 \<and> fend x = 0))"
proof -
  obtain pl xx ee where h: "mode_has mode 43 = Some pl" "mode_has mode 120 = Some xx" "mode_has mode 101 = Some ee"
    using strchr_total[OF assms(6), of "sint (43 :: byte)"] strchr_total[OF assms(6), of "sint (120 :: byte)"]
      strchr_total[OF assms(6), of "sint (101 :: byte)"] unfolding mode_has_def by (elim exE) (simp only: option.map)
  obtain m0 m1 where md: "mode = m0 # m1" using assms(6) by (cases mode) (auto simp: cstr_def)
  have ok_proc: "heap_ok K maps (iom (set_proc p s)) l = heap_ok K maps (iom s) l" "idle (iom (set_proc p s)) = idle (iom s)"
    if "maps (kern p) = maps (kern (io_proc s))" for p s l using that by (simp_all add: set_proc_def heap_ok_mproc)
  have of_proc: "open_files (set_proc p s) fs = open_files s fs" "open_files (s\<lparr>iom := ms\<rparr>) fs = open_files s fs" for p s ms
    by (simp_all add: open_files_def)
  show ?thesis
  proof (cases "fopen_flags m0 pl xx")
    case None
    then show ?thesis using h md assms(1-4) by (auto simp: s_fopen_def ok_proc of_proc)
  next
    case (Some fl)
    have sz: "good_size FILESZ" "unat (round8 FILESZ) = 4152" by (simp_all add: good_size_def FILESZ_def) code_simp
    obtain r ms where m: "malloc K FILESZ (iom st) = Ret (r, ms)" "idle ms" "ram ms = ram (iom st)"
      "r = 0 \<longrightarrow> heap_ok K maps ms live \<and> errno (mproc ms) \<in> {ENOMEM, EOVERFLOW}"
      "r \<noteq> 0 \<longrightarrow> live r = None \<and> unat r + unat (round8 FILESZ) < 2 ^ 64 \<and> heap_ok K maps ms (live(r \<mapsto> unat (round8 FILESZ)))"
      by (rule malloc_spec[OF assms(1,2) sz(1)])
    let ?fl = "fl OR (if ee then O_CLOEXEC else 0)"
    obtain fd p where fd: "fopen_fd K um path gfd ?fl (mproc ms) = (fd, p)" by (cases "fopen_fd K um path gfd ?fl (mproc ms)")
    have mp: "maps (kern p) = maps (kern (mproc ms))" using fopen_fd_maps[OF assms(5), of um path gfd ?fl "mproc ms"] fd by simp
    define st2 where "st2 = set_proc p (st\<lparr>iom := ms\<rparr>)"
    have run: "s_fopen K um path gfd mode st =
        (if r = 0 then Ret (0, set_proc ((mproc ms)\<lparr>errno := ENOMEM\<rparr>) (st\<lparr>iom := ms\<rparr>))
         else if fd <s 0 then bind_out (free K r (iom st2)) (\<lambda>ms'. Ret (0, st2\<lparr>iom := ms'\<rparr>)) else fopen_setup K r fd st2)"
      using h md Some m(1) fd by (simp add: s_fopen_def st2_def Let_def)
    have i2: "iom st2 = ms\<lparr>mproc := p\<rparr>" by (simp add: st2_def set_proc_def)
    show ?thesis
    proof (cases "r = 0")
      case True
      then show ?thesis using run m(2,4) assms(3,4) by (simp add: ok_proc of_proc)
    next
      case rn: False
      have h2: "heap_ok K maps (iom st2) (live(r \<mapsto> 4152))" "idle (iom st2)" "live r = None"
        using m(2,5) rn mp sz(2) unfolding i2 by (simp_all add: heap_ok_mproc)
      have nr: "r \<notin> set fs" using assms(7) h2(3) m(1) by blast
      show ?thesis
      proof (cases "fd <s 0")
        case True
        have "(live(r \<mapsto> 4152)) r = Some 4152" by simp
        then obtain ms' where "free K r (iom st2) = Ret ms'" "idle ms'" "ram ms' = ram (iom st2)"
          "heap_ok K maps ms' ((live(r \<mapsto> 4152))(r := None))" by (rule free_spec[OF h2(1,2)])
        moreover have "(live(r \<mapsto> 4152))(r := None) = live" using h2(3) by auto
        ultimately show ?thesis using run rn True assms(3,4) by (simp add: of_proc) (simp add: st2_def of_proc)
      next
        case False
        have "open_files st2 fs" "allmut st2 = 0" using assms(3,4) by (simp_all add: st2_def of_proc)
        from fopen_setup_ok[OF this(1) nr rn this(2) assms(5), of fd] obtain st' x q where
          s: "fopen_setup K r fd st2 = Ret (r, st')" "open_files st' (r # fs)" "iom st' = (iom st2)\<lparr>mproc := q\<rparr>"
            "maps (kern q) = maps (kern (io_proc st2))" "allmut st' = 0" "fready st' r x" "writing x = 0" "eof x = 0" "fp x = 0" "fend x = 0" by blast
        have "heap_ok K maps (iom st') (live(r \<mapsto> 4152))" "idle (iom st')" using h2(1,2) s(4) unfolding s(3) by (simp_all add: heap_ok_mproc)
        then show ?thesis using run rn False s nr h2(3) by (auto simp del: fun_upd_apply)
      qed
    qed
  qed
qed

section \<open>Streams as an interface\<close>

text \<open>What a client of an output stream relies on, whatever the buffering.\<close>

fun put_all :: "(byte list \<Rightarrow> 's \<Rightarrow> 's option) \<Rightarrow> byte list list \<Rightarrow> 's \<Rightarrow> 's option" where
  "put_all put [] s = Some s"
| "put_all put (b # bs) s = Option.bind (put b s) (put_all put bs)"

locale out_stream =
  fixes ok :: "'s \<Rightarrow> bool"
    and written :: "'s \<Rightarrow> byte list"
    and sent :: "'s \<Rightarrow> byte list"
    and put :: "byte list \<Rightarrow> 's \<Rightarrow> 's option"
    and flush :: "'s \<Rightarrow> 's option"
  assumes put_law: "ok s \<Longrightarrow> length b < 2 ^ 31 \<Longrightarrow> \<exists>s'. put b s = Some s' \<and> ok s' \<and> written s' = written s @ b"
    and flush_law: "ok s \<Longrightarrow> \<exists>s'. flush s = Some s' \<and> ok s' \<and> written s' = written s \<and> sent s' = written s"
begin

lemma put_all_written:
  "ok s \<Longrightarrow> \<forall>b \<in> set bs. length b < 2 ^ 31 \<Longrightarrow> \<exists>s'. put_all put bs s = Some s' \<and> ok s' \<and> written s' = written s @ concat bs"
proof (induction bs arbitrary: s)
  case (Cons b bs)
  obtain s1 where s1: "put b s = Some s1" "ok s1" "written s1 = written s @ b" using put_law Cons.prems by fastforce
  then show ?case using Cons.IH[OF s1(2)] Cons.prems(2) by auto
qed simp

lemma put_all_sent:
  assumes "ok s" "\<forall>b \<in> set bs. length b < 2 ^ 31"
  shows "\<exists>s'. Option.bind (put_all put bs s) flush = Some s' \<and> sent s' = written s @ concat bs"
proof -
  obtain s1 where "put_all put bs s = Some s1" "ok s1" "written s1 = written s @ concat bs" using put_all_written[OF assms] by blast
  then show ?thesis using flush_law[of s1] by auto
qed

end

text \<open>The streams of the library: \<open>fwrite\<close> of all the bytes, taken as a failure if it returns fewer.\<close>

definition fput :: "'k kernel \<Rightarrow> long \<Rightarrow> byte list \<Rightarrow> 'k io \<Rightarrow> 'k io option" where
  "fput K f b st =
     (case fwrite K b 1 (word_of_nat (length b)) f st of
        Some (Ret (r, st')) \<Rightarrow> if r = word_of_nat (length b) then Some st' else None
      | _ \<Rightarrow> None)"

definition fflush_io :: "'k kernel \<Rightarrow> long \<Rightarrow> 'k io \<Rightarrow> 'k io option" where
  "fflush_io K f st = (case fflush K f st of Ret (r, st') \<Rightarrow> if r = 0 then Some st' else None | _ \<Rightarrow> None)"

definition out_ok :: "'k kernel \<Rightarrow> ('k \<Rightarrow> byte list) \<Rightarrow> long \<Rightarrow> 'k io \<Rightarrow> bool" where
  "out_ok K out f st \<longleftrightarrow> (\<exists>x. fready st f x \<and> appends K (f_fd x) out)"

definition out_text :: "('k \<Rightarrow> byte list) \<Rightarrow> long \<Rightarrow> 'k io \<Rightarrow> byte list" where
  "out_text out f st = content out (the (files st f)) (io_proc st)"

interpretation litc_out: out_stream "out_ok K out f" "out_text out f" "\<lambda>st. out (kern (io_proc st))" "fput K f" "fflush_io K f"
  for K :: "'k kernel" and out f
proof unfold_locales
  fix st :: "'k io" and b :: "byte list"
  assume ok: "out_ok K out f st"
  then obtain x where x: "fready st f x" "appends K (f_fd x) out" by (auto simp: out_ok_def)
  have ft: "fready s f y \<Longrightarrow> out_text out f s = content out y (io_proc s)" for s y by (simp add: out_text_def fready_def)
  have ko: "fready s f y \<Longrightarrow> same_file x y \<Longrightarrow> out_ok K out f s" for s y
    unfolding out_ok_def by (rule exI[of _ y]) (use x(2) in \<open>simp add: same_file_def\<close>)
  show "\<exists>st'. fflush_io K f st = Some st' \<and> out_ok K out f st' \<and> out_text out f st' = out_text out f st \<and>
      out (kern (io_proc st')) = out_text out f st"
    using fflush_ok[OF x] x(1) by (auto simp: fflush_io_def ft intro: ko)
  assume b: "length b < 2 ^ 31"
  have u: "unat (1 :: long) * unat (word_of_nat (length b) :: long) = length b" using b by (simp add: unat_word_of_nat_small)
  have le: "unat (1 :: long) * unat (word_of_nat (length b) :: long) \<le> length b"
    "unat (1 :: long) * unat (word_of_nat (length b) :: long) < 2 ^ 31" using u b by simp_all
  obtain st' y where s: "fwrite K b 1 (word_of_nat (length b)) f st = Some (Ret (word_of_nat (length b), st'))" "fready st' f y"
    "same_file x y" "content out y (io_proc st') = content out x (io_proc st) @ take (unat (1 :: long) * unat (word_of_nat (length b) :: long)) b"
    using fwrite_ok[OF x _ le] by auto
  then show "\<exists>st'. fput K f b st = Some st' \<and> out_ok K out f st' \<and> out_text out f st' = out_text out f st @ b"
    using x(1) u by (auto simp: fput_def ft intro: ko)
qed

section \<open>A kernel for the witnesses\<close>

text \<open>One file to read from and one to write to per descriptor, next to the kernel that maps memory.\<close>

type_synonym disk = "(long \<times> long) list \<times> byte list \<times> (cint \<Rightarrow> byte list)"

definition disk_kernel :: "disk kernel" where
  "disk_kernel trap as k =
     (case k of (ms, inp, outs) \<Rightarrow>
        if trap = SYS_MMAP \<or> trap = SYS_MUNMAP then
          (case top_kernel trap as ms of (r, as', ms') \<Rightarrow> (r, as', (ms', inp, outs)))
        else (case as of
            SA fd # SP bs # SA n # rest \<Rightarrow>
              if trap = SYS_READ then
                let r = min (unat n) (length inp) in
                (word_of_nat r, SA fd # SP (take r inp @ drop r bs) # SA n # rest, (ms, drop r inp, outs))
              else if trap = SYS_WRITE then
                (n, as, (ms, inp, outs(ucast fd := outs (ucast fd) @ take (unat n) bs)))
              else (- 38, as, k)
          | _ \<Rightarrow> (- 38, as, k)))"

lemma disk_appends: "appends disk_kernel fd (\<lambda>k. snd (snd k) fd)"
  by (auto simp: appends_def disk_kernel_def SYS_WRITE_def SYS_READ_def SYS_MMAP_def SYS_MUNMAP_def)

lemma disk_delivers: "delivers disk_kernel fd (\<lambda>k. fst (snd k))"
proof -
  have "unat (word_of_nat (min (unat n) l) :: long) = min (unat n) l" if "unat n < 2 ^ 31" for n :: long and l
    using that by (intro unat_word_of_nat_small) simp
  moreover have "(word_of_nat (min (unat n) (length l)) :: long) = 0 \<longleftrightarrow> l = []" if "0 < unat n" "unat n < 2 ^ 31" for n :: long and l :: "byte list"
    using calculation[OF that(2), of "length l"] that(1) by (auto simp: unat_eq_0[symmetric] min_def split: if_splits)
  ultimately show ?thesis
    by (auto simp: delivers_def disk_kernel_def SYS_READ_def SYS_MMAP_def SYS_MUNMAP_def Let_def)
qed

lemma disk_writes: "writes_files disk_kernel (\<lambda>fd k. snd (snd k) fd)"
  using disk_appends
  by (auto simp: writes_files_def disk_kernel_def SYS_READ_def SYS_WRITE_def SYS_MMAP_def SYS_MUNMAP_def split: sysarg.split list.split)

lemma disk_bounded: "reads_bounded disk_kernel"
proof -
  have "unat (word_of_nat (min (unat n) l) :: long) = min (unat n) l" if "unat n < 2 ^ 31" for n :: long and l
    using that by (intro unat_word_of_nat_small) simp
  then show ?thesis
    by (auto simp: reads_bounded_def disk_kernel_def SYS_READ_def SYS_MMAP_def SYS_MUNMAP_def Let_def split: sysarg.splits)
qed

lemma disk_maps: "keeps_maps disk_kernel (\<lambda>k. set (fst k))"
  by (auto simp: keeps_maps_def disk_kernel_def Let_def split: prod.splits sysarg.split list.split)

definition disk_heap :: "byte list \<Rightarrow> disk mstate" where
  "disk_heap inp = \<lparr>mproc = \<lparr>errno = 0, kern = ([], inp, \<lambda>_. []), diag = [], arch = AArch64\<rparr>, hdrs = Map.empty, allh = 0, curh = 0,
     bump = 0, biglock = 0, dolock = True, ram = (\<lambda>_. 0)\<rparr>"

text \<open>A process with one open stream, at address 512.\<close>

definition file1 :: "cint \<Rightarrow> FILE" where
  "file1 bt = file0\<lparr>f_fd := 3, btype := bt\<rparr>"

lemma file1_simps [simp]: "f_fd (file1 bt) = 3" "btype (file1 bt) = bt" "writing (file1 bt) = 0" "eof (file1 bt) = 0"
  by (simp_all add: file1_def file0_def)

definition io1 :: "cint \<Rightarrow> byte list \<Rightarrow> disk io" where
  "io1 bt inp = \<lparr>iom = disk_heap inp, files = [512 \<mapsto> file1 bt], allhead = 512, allmut = 0\<rparr>"

lemma io1_ready: "bt = s_IOFBF \<or> bt = s_IONBF \<Longrightarrow> fready (io1 bt inp) 512 (file1 bt)"
  by (auto simp: fready_def io1_def file1_def file0_def stream_ok_def)

lemma io1_unread: "unread (\<lambda>k. fst (snd k)) (file1 bt) (io_proc (io1 bt inp)) = inp"
  by (simp add: unread_def io1_def disk_heap_def file1_def file0_def)

lemma io1_text: "out_text (\<lambda>k. snd (snd k) 3) 512 (io1 bt inp) = []"
  by (simp add: out_text_def content_def io1_def disk_heap_def)

lemma io1_files: "open_files (io1 bt inp) [512]"
  by (simp add: open_files_def io1_def links_of_def link_view_def file1_def file0_def)

section \<open>Properties\<close>

text \<open>
  C9: buffering is invisible. On a stream that is open, well-formed and without an error, buffered or not,
  with a file that takes all that is written to it, any sequence of writes followed by \<open>fflush\<close> succeeds,
  and the file is what it was with the pieces added in their order, after what had waited in the buffer.
\<close>

theorem fwrite_fflush:
  assumes "fready st f x" "appends K (f_fd x) out" "\<forall>b \<in> set bs. length b < 2 ^ 31"
  shows "\<exists>st'. Option.bind (put_all (fput K f) bs st) (fflush_io K f) = Some st' \<and>
    out (kern (io_proc st')) = content out x (io_proc st) @ concat bs"
proof -
  have "out_ok K out f st" using assms(1,2) by (auto simp: out_ok_def)
  moreover have "out_text out f st = content out x (io_proc st)" using assms(1) by (simp add: out_text_def fready_def)
  ultimately show ?thesis using litc_out.put_all_sent[of K out f st bs] assms(3) by simp
qed

theorem fwrite_fflush_witness:
  "\<exists>st'. Option.bind (put_all (fput disk_kernel 512) [bytes_of ''ab'', [], bytes_of ''c''] (io1 s_IOFBF [])) (fflush_io disk_kernel 512) = Some st' \<and>
    snd (snd (kern (io_proc st'))) 3 = bytes_of ''abc''"
  using fwrite_fflush[OF io1_ready[of s_IOFBF "[]"], of disk_kernel "\<lambda>k. snd (snd k) 3" "[bytes_of ''ab'', [], bytes_of ''c'']"]
    disk_appends[of 3] by (simp add: bytes_of_def content_def io1_def disk_heap_def)

text \<open>
  C10: \<open>fread\<close> on a buffered stream. Let \<open>n\<close> be the smaller of the number of bytes asked for and of those
  left in the buffer and the file. Then \<open>fread\<close> returns, stores the next \<open>n\<close> bytes and no others, reports the
  number of whole items in them, leaves the rest to be read, and marks the end of the file exactly if it
  had fewer bytes than were asked for.
\<close>

theorem fread_correct:
  assumes "fready st f x" "btype x = s_IOFBF" "writing x = 0" "eof x = 0" "delivers K (f_fd x) inp"
    and "sz \<noteq> 0" "unat sz * unat mem \<le> length dst" "unat sz * unat mem < 2 ^ 31"
    and "n = min (unat sz * unat mem) (length (unread inp x (io_proc st)))"
  shows "\<exists>st' y. fread K dst sz mem f st =
      Some (Ret ((word_of_nat (n div unat sz), take n (unread inp x (io_proc st)) @ drop n dst), st')) \<and>
    files st' f = Some y \<and> stream_ok y \<and> unread inp y (io_proc st') = drop n (unread inp x (io_proc st)) \<and>
    ferr y = 0 \<and> eof y = (if n < unat sz * unat mem then 1 else 0)"
  using fread_ok[OF assms] by (auto simp: fready_def)

theorem fread_correct_witness:
  "\<exists>st' y. fread disk_kernel [9, 9, 9, 9, 9, 9] 2 3 512 (io1 s_IOFBF [1, 2, 3, 4, 5]) =
      Some (Ret ((2, [1, 2, 3, 4, 5, 9]), st')) \<and> files st' 512 = Some y \<and> eof y = 1"
proof -
  let ?x = "file1 s_IOFBF" and ?st = "io1 s_IOFBF [1, 2, 3, 4, 5]" and ?d = "[9, 9, 9, 9, 9, 9] :: byte list"
  have r: "fready ?st 512 ?x" by (rule io1_ready) simp
  have u: "unread (\<lambda>k. fst (snd k)) ?x (io_proc ?st) = [1, 2, 3, 4, 5]" by (rule io1_unread)
  have p: "btype ?x = s_IOFBF" "writing ?x = 0" "eof ?x = 0" "delivers disk_kernel (f_fd ?x) (\<lambda>k. fst (snd k))"
    by (simp_all add: disk_delivers)
  have m: "(2 :: long) \<noteq> 0" "unat (2 :: long) * unat (3 :: long) \<le> length ?d" "unat (2 :: long) * unat (3 :: long) < 2 ^ 31" by simp_all
  have n: "5 = min (unat (2 :: long) * unat (3 :: long)) (length (unread (\<lambda>k. fst (snd k)) ?x (io_proc ?st)))" unfolding u by simp
  obtain st' y where s: "fread disk_kernel ?d 2 3 512 ?st =
      Some (Ret ((word_of_nat (5 div unat (2 :: long)), take 5 [1, 2, 3, 4, 5] @ drop 5 ?d), st'))" "files st' 512 = Some y"
    "eof y = (if 5 < unat (2 :: long) * unat (3 :: long) then 1 else 0)"
    using fread_correct[OF r p m n, unfolded u] by blast
  have "word_of_nat (5 div unat (2 :: long)) = (2 :: long)" "take 5 [1, 2, 3, 4, 5] @ drop 5 ?d = [1, 2, 3, 4, 5, 9]"
    "(if 5 < unat (2 :: long) * unat (3 :: long) then 1 else 0 :: cint) = 1" by simp_all
  with s show ?thesis by (intro exI conjI) (simp_all only:)
qed

text \<open>
  C11: the comment at the fields of \<open>FILE\<close>. If the kernel's \<open>read\<close> does not fail, no operation on a stream
  accesses memory outside the buffer and the caller's objects, and \<open>p\<close> and \<open>end\<close> stay in the buffer, in this
  order; what \<open>write\<close> does is of no importance.
\<close>

theorem stream_bounds:
  assumes "stream_ok f" "reads_bounded K" "d + unat left \<le> length dst" "unat left \<le> length src" "unat left < 2 ^ 31"
  shows "stream_ok (fst (snd (s_fflush K f p))) \<and>
    (\<exists>n g p'. s_fwrite1 K src left f p = Ret (n, g, p') \<and> stream_ok g) \<and>
    (\<exists>n dst' g p'. s_fread1 K dst d left f p = Ret ((n, dst'), g, p') \<and> stream_ok g \<and> length dst' = length dst) \<and>
    (\<exists>r g. s_ungetc c f = Ret (r, g) \<and> stream_ok g)"
proof (intro conjI)
  show "stream_ok (fst (snd (s_fflush K f p)))"
    using s_fflush_bounds[OF assms(1), of K p] by (cases "s_fflush K f p") simp
qed (use assms s_fwrite1_bounds s_fread1_bounds s_ungetc_bounds in blast)+

theorem stream_bounds_witness:
  "\<exists>n dst' g p'. s_fread1 disk_kernel [0, 0] 0 2 (file0\<lparr>btype := s_IOFBF\<rparr>) (io_proc (io1 s_IOFBF [1])) = Ret ((n, dst'), g, p') \<and> stream_ok g"
proof -
  have "stream_ok (file0\<lparr>btype := s_IOFBF\<rparr>)" by (simp add: stream_ok_def file0_def)
  from stream_bounds[OF this disk_bounded, where d = 0 and left = 2 and dst = "[0, 0]" and src = "[0, 0]" and p = "io_proc (io1 s_IOFBF [1])" and c = 65] show ?thesis by auto
qed



text \<open>
  C13: \<open>fgets\<close>. If the next line of a buffered stream, its newline included, and a terminator fit the size, and
  no byte of it is 255, \<open>fgets\<close> returns the buffer with exactly that line and a terminator, and the stream goes
  on behind the line.
\<close>

theorem fgets_line:
  assumes "fready st f x" "btype x = s_IOFBF" "writing x = 0" "eof x = 0" "delivers K (f_fd x) inp"
    and "unread inp x (io_proc st) = line @ 10 # rest" "10 \<notin> set line" "- 1 \<notin> set line"
    and "length line + 2 \<le> n" "n \<le> length buf" "n < 2 ^ 31"
  shows "\<exists>st' y. fgets K buf (word_of_nat n) f st = Ret ((True, line @ 10 # 0 # drop (length line + 2) buf), st') \<and>
    files st' f = Some y \<and> stream_ok y \<and> unread inp y (io_proc st') = rest"
proof -
  let ?m = "if dolock (iom st) then 1 else 0 :: cint" and ?b = "line @ 10 # drop (length line + 1) buf"
  have x: "files st f = Some x" "fmut x = 0" "stream_ok x" "ferr x = 0" using assms(1) by (simp_all add: fready_def)
  have n1: "unat (scast (word_of_nat n - 1 :: cint) :: long) = n - 1" "(word_of_nat n :: cint) \<noteq> 0"
    using fgets_size[of n] assms(9,11) by simp_all
  have le: "0 + length line < n - 1" "0 + length line < length buf" using assms(9,10) by simp_all
  obtain g k where g: "fgets_loop K buf 0 (n - 1) (x\<lparr>fmut := ?m\<rparr>) (io_proc st) =
      Ret ((True, 0 + length line + 1, take 0 buf @ line @ 10 # drop (0 + length line + 1) buf), g, (io_proc st)\<lparr>kern := k\<rparr>)"
    "unread inp g ((io_proc st)\<lparr>kern := k\<rparr>) = rest" "stream_ok g" "same_file (x\<lparr>fmut := ?m\<rparr>) g"
    using fgets_loop_ok[of "x\<lparr>fmut := ?m\<rparr>" K inp "io_proc st" line rest 0 "n - 1" buf] assms(2-8) x le by auto
  have "fmut g \<noteq> 2" using g(4) by (simp add: same_file_def)
  moreover have dr: "drop (length line + 1) buf = buf ! (length line + 1) # drop (length line + 2) buf"
    using Cons_nth_drop_Suc[of "length line + 1" buf] assms(9,10) by simp
  moreover have "?b[length line + 1 := 0] = line @ 10 # 0 # drop (length line + 2) buf" "length line + 1 < length ?b"
    using assms(9,10) dr by (simp_all add: list_update_append)
  ultimately have "fgets K buf (word_of_nat n) f st = Ret ((True, line @ 10 # 0 # drop (length line + 2) buf),
      set_proc ((io_proc st)\<lparr>kern := k\<rparr>) (st\<lparr>files := (files st)(f \<mapsto> g\<lparr>fmut := 0\<rparr>)\<rparr>))"
    using g(1) n1 by (simp add: fgets_def with_file_def lock_file_free[OF x(1,2)] unlock_file_free)
  then show ?thesis using g(2,3) by auto
qed

theorem fgets_line_witness:
  "\<exists>st'. fgets disk_kernel [9, 9, 9, 9, 9] 5 512 (io1 s_IOFBF (bytes_of ''hi'' @ 10 # bytes_of ''x'')) = Ret ((True, bytes_of ''hi'' @ [10, 0, 9]), st')"
  using fgets_line[OF io1_ready[of s_IOFBF "bytes_of ''hi'' @ 10 # bytes_of ''x''"], of disk_kernel "\<lambda>k. fst (snd k)" "bytes_of ''hi''" "bytes_of ''x''" 5 "[9, 9, 9, 9, 9]"]
    disk_delivers[of 3] by (auto simp: io1_unread bytes_of_def)

text \<open>
  C15: formatted output on a stream. If the text that a format denotes is not empty and shorter than the 2048
  bytes of the buffer on the stack, \<open>fprintf\<close> adds exactly this text to the stream. The result is 1, the number
  of items \<open>fwrite\<close> reports, and not the number of characters.
\<close>

theorem fprintf_appends:
  assumes "fready st f x" "appends K (f_fd x) out" "cstr fmt s" "length s < 2048"
    and "format_ref rnd fmt ap = Some txt'" "0 < length txt'" "length txt' < 2048"
  shows "\<exists>st' y. fprintf_c K rnd f fmt ap st = Some (Ret (1, st')) \<and> files st' f = Some y \<and> stream_ok y \<and>
    content out y (io_proc st') = content out x (io_proc st) @ txt'"
proof -
  let ?n = "length txt'" and ?w = "word_of_nat (length txt') :: long" and ?b = "txt' @ 0 # drop (length txt' + 1) (replicate 2048 0)"
  have u: "unat ?w = ?n" "?w \<noteq> 0" "unat ?w * unat (1 :: long) = ?n"
    using assms(6,7) unat_word_of_nat_small[of ?n] by (auto simp: unat_eq_0[symmetric])
  have v: "vsnprintf rnd 0 2048 fmt ap (replicate 2048 0) = Some (?n, ?b)"
    using vsnprintf_short[OF assms(5,7), of 0 "replicate 2048 0"] by simp
  obtain st' y where s: "fwrite K ?b ?w 1 f st = Some (Ret (1, st'))" "fready st' f y"
    "content out y (io_proc st') = content out x (io_proc st) @ take (unat ?w * unat (1 :: long)) ?b"
    using fwrite_ok[OF assms(1,2) u(2), of 1 ?b] u(3) assms(7) by auto
  have "strlen fmt = Some (length s)" using assms(3) by (rule strlen_cstr)
  then have "fprintf_c K rnd f fmt ap st = Some (Ret (1, st'))"
    using assms(4) v s(1) by (simp add: fprintf_c_def vfprintf_c_def)
  then show ?thesis using s(2,3) u(3) by (auto simp: fready_def)
qed

theorem fprintf_appends_witness:
  "\<exists>st' y. fprintf_c disk_kernel id 512 (lit ''n=%d'') [VInt 42] (io1 s_IOFBF []) = Some (Ret (1, st')) \<and> files st' 512 = Some y \<and>
    content (\<lambda>k. snd (snd k) 3) y (io_proc st') = bytes_of ''n=42''"
proof -
  have r: "fready (io1 s_IOFBF []) 512 (file1 s_IOFBF)" by (rule io1_ready) simp
  have a: "appends disk_kernel (f_fd (file1 s_IOFBF)) (\<lambda>k. snd (snd k) 3)" by (simp add: disk_appends)
  have f: "cstr (lit ''n=%d'') (bytes_of ''n=%d'')" "length (bytes_of ''n=%d'') < 2048" by (simp_all add: lit_def bytes_of_def cstr_def)
  have g: "format_ref id (lit ''n=%d'') [VInt 42] = Some (bytes_of ''n=42'')" by code_simp
  have l: "0 < length (bytes_of ''n=42'')" "length (bytes_of ''n=42'') < 2048" by (simp_all add: bytes_of_def)
  have c: "content (\<lambda>k. snd (snd k) 3) (file1 s_IOFBF) (io_proc (io1 s_IOFBF [])) = []"
    by (simp add: content_def io1_def disk_heap_def)
  show ?thesis using fprintf_appends[OF r a f g l, unfolded c append_Nil] by blast
qed

text \<open>
  C14: \<open>fflush(NULL)\<close>. If the open files are on the list, ready, and on different descriptors, it returns 0, and
  every file then holds all that was written to its stream.
\<close>

theorem fflush_all_writes:
  assumes "writes_files K outs" "open_files st fs" "allmut st = 0"
    and "\<forall>f \<in> set fs. fready st f (the (files st f))" "distinct (map (\<lambda>f. f_fd (the (files st f))) fs)"
  shows "\<exists>st'. fflush_all K st = Some (Ret (0, st')) \<and> open_files st' fs \<and>
    (\<forall>f \<in> set fs. outs (f_fd (the (files st f))) (kern (io_proc st')) = content (outs (f_fd (the (files st f)))) (the (files st f)) (io_proc st))"
  using assms by (rule fflush_all_ok)

theorem fflush_all_writes_witness:
  "\<exists>st'. fflush_all disk_kernel (io1 s_IOFBF []) = Some (Ret (0, st')) \<and> open_files st' [512] \<and> snd (snd (kern (io_proc st'))) 3 = []"
proof -
  have f: "files (io1 s_IOFBF []) 512 = Some (file1 s_IOFBF)" "allmut (io1 s_IOFBF []) = 0" by (simp_all add: io1_def)
  have c: "content (\<lambda>k. snd (snd k) 3) (file1 s_IOFBF) (io_proc (io1 s_IOFBF [])) = []"
    by (simp add: content_def io1_def disk_heap_def)
  show ?thesis using fflush_all_writes[OF disk_writes io1_files f(2)] f(1) c io1_ready[of s_IOFBF "[]"] by simp
qed

text \<open>
  C16: opening and closing. In a process with a well-formed heap and list of open files, \<open>fopen\<close> returns \<open>NULL\<close> and
  changes neither, or a new stream, empty and ready, at the head of the list; closing it at once returns 0 and gives
  back heap and list as they were.
\<close>

theorem fopen_fclose:
  assumes "heap_ok K maps (iom st) live" "idle (iom st)" "open_files st fs" "allmut st = 0" "keeps_maps K maps" "cstr mode md"
    and "\<forall>f \<in> set fs. live f = None \<longrightarrow> (\<forall>ms. malloc K FILESZ (iom st) \<noteq> Ret (f, ms))"
  shows "\<exists>r st1. s_fopen K um path gfd mode st = Ret (r, st1) \<and>
    (if r = 0 then heap_ok K maps (iom st1) live \<and> open_files st1 fs
     else open_files st1 (r # fs) \<and> (\<exists>x. fready st1 r x) \<and>
       (\<exists>st2. fclose K r st1 = Ret (0, st2) \<and> heap_ok K maps (iom st2) live \<and> open_files st2 fs \<and> files st2 r = None))"
proof -
  obtain r st1 where s: "s_fopen K um path gfd mode st = Ret (r, st1)" "idle (iom st1)" "allmut st1 = 0"
    "if r = 0 then heap_ok K maps (iom st1) live \<and> open_files st1 fs
     else heap_ok K maps (iom st1) (live(r \<mapsto> 4152)) \<and> open_files st1 (r # fs) \<and> r \<notin> set fs \<and> live r = None \<and>
       (\<exists>x. fready st1 r x \<and> writing x = 0 \<and> eof x = 0 \<and> fp x = 0 \<and> fend x = 0)"
    using fopen_ok[OF assms, of um path gfd] by blast
  show ?thesis
  proof (cases "r = 0")
    case True
    then show ?thesis using s by auto
  next
    case False
    then obtain x where x: "fready st1 r x" "writing x = 0" and h: "heap_ok K maps (iom st1) (live(r \<mapsto> 4152))" "open_files st1 (r # fs)"
      "live r = None" using s(4) by auto
    have "r \<in> set (r # fs)" "writing x = 0 \<or> appends K (f_fd x) (\<lambda>_. [])" "(live(r \<mapsto> 4152)) r = Some 4152" using x(2) by simp_all
    from fclose_ok[OF x(1) h(2) this(1) s(3) this(2) h(1) s(2) this(3) assms(5)] obtain st2 where
      c: "fclose K r st1 = Ret (0, st2)" "open_files st2 (remove1 r (r # fs))" "files st2 r = None" "heap_ok K maps (iom st2) ((live(r \<mapsto> 4152))(r := None))"
      by blast
    have "(live(r \<mapsto> 4152))(r := None) = live" using h(3) by auto
    then show ?thesis using s(1) False x h(2) c by auto
  qed
qed

lemma disk_top:
  assumes "disk_kernel trap as k = (r, as', k')" "trap = SYS_MMAP \<or> trap = SYS_MUNMAP"
  shows "top_kernel trap as (fst k) = (r, as', fst k')"
  using assms by (cases k) (auto simp: disk_kernel_def split: prod.splits)

lemma mm_disk_kernel: "mm_kernel disk_kernel (\<lambda>k. set (fst k))"
  unfolding mm_kernel_def
proof (intro conjI allI impI, goal_cases)
  case (1 len pr fl fd off k r as k')
  then have "top_kernel SYS_MMAP [SA 0, SA len, pr, fl, fd, off] (fst k) = (r, as, fst k')" using disk_top by blast
  then show ?case using mm_top_kernel unfolding mm_kernel_def by blast
next
  case (2 a len w k r as k')
  then have "top_kernel SYS_MUNMAP [SA a, SA len, SA 0, w, SA 0, SA 0] (fst k) = (r, as, fst k')" using disk_top by blast
  then show ?case using 2(2) mm_top_kernel unfolding mm_kernel_def by blast
next
  case (3 a len w k r as k')
  then have "top_kernel SYS_MUNMAP [SA a, SA len, SA 0, w, SA 0, SA 0] (fst k) = (r, as, fst k')" using disk_top by blast
  then show ?case using 3(2) mm_top_kernel unfolding mm_kernel_def by blast
qed

lemma disk_heap_ok: "heap_ok disk_kernel (\<lambda>k. set (fst k)) (disk_heap inp) Map.empty" "idle (disk_heap inp)"
proof -
  have "links (disk_heap inp) []" by (simp add: links_def disk_heap_def)
  moreover have "mm_kernel disk_kernel (\<lambda>k. set (fst k))" by (rule mm_disk_kernel)
  ultimately show "heap_ok disk_kernel (\<lambda>k. set (fst k)) (disk_heap inp) Map.empty"
    by (auto simp: heap_ok_def hinv_def seg_disj_def blk_disj_def pay_def disk_heap_def)
  show "idle (disk_heap inp)" by (simp add: idle_def disk_heap_def)
qed

lemma disk_open_512: "malloc disk_kernel FILESZ (disk_heap inp) \<noteq> Ret (512, ms)"
proof
  assume m: "malloc disk_kernel FILESZ (disk_heap inp) = Ret (512, ms)"
  have z: "FILESZ \<noteq> 0" "round8 FILESZ = 4152" "mmap_size 4152 = 8192" by (simp_all add: FILESZ_def) code_simp+
  have "mmap disk_kernel 0 8192 (PROT_READ OR PROT_WRITE) (MAP_ANON OR MAP_PRIVATE) (- 1) 0 (mproc (disk_heap inp)) =
      (4096, (mproc (disk_heap inp))\<lparr>kern := ([(4096, 8192)], inp, \<lambda>_. [])\<rparr>)"
    by (simp add: mmap_def syscall6_def disk_heap_def disk_kernel_def map_top_def SYS_MMAP_def word_sless_alt
        ERRNO_FIRST_def ERRNO_LAST_def word_sle_eq)
  then have "\<exists>st'. malloc disk_kernel FILESZ (disk_heap inp) = Ret (4144, st')"
    by (simp add: malloc_def acquire_def s_malloc_def need_segment_def new_segment_def z disk_heap_def
        upd_hdr_def release_def Let_def HDRSZ_def MAP_FAILED_def)
  then show False using m by auto
qed

theorem fopen_fclose_witness:
  "\<exists>r st1. s_fopen disk_kernel 0 None 5 (lit ''w'') (io1 s_IOFBF []) = Ret (r, st1) \<and>
    (if r = 0 then open_files st1 [512] else open_files st1 [r, 512] \<and> (\<exists>st2. fclose disk_kernel r st1 = Ret (0, st2) \<and> open_files st2 [512]))"
proof -
  let ?st = "io1 s_IOFBF []"
  have i: "iom ?st = disk_heap []" "allmut ?st = 0" by (simp_all add: io1_def)
  have h: "heap_ok disk_kernel (\<lambda>k. set (fst k)) (iom ?st) Map.empty" "idle (iom ?st)" unfolding i by (rule disk_heap_ok)+
  have m: "cstr (lit ''w'') (bytes_of ''w'')" by (simp add: lit_def bytes_of_def cstr_def)
  have n: "\<forall>f \<in> set [512]. (Map.empty :: blocks) f = None \<longrightarrow> (\<forall>ms. malloc disk_kernel FILESZ (iom ?st) \<noteq> Ret (f, ms))"
    unfolding i using disk_open_512 by simp
  show ?thesis using fopen_fclose[OF h io1_files i(2) disk_maps m n, of 0 None 5] by (auto split: if_splits)
qed

text \<open>
  C37: \<open>fread\<close> on an unbuffered stream, such as \<open>stdin\<close>, never returns at the end of the input: a result 0 of
  \<open>read\<close> does not mark the end of the file, and the loop goes on.
\<close>

theorem fread_hangs:
  assumes "fready st f x" "btype x = s_IONBF" "eof x = 0" "delivers K (f_fd x) inp" "inp (kern (io_proc st)) = []"
    and "sz \<noteq> 0" "mem \<noteq> 0" "unat sz * unat mem \<le> length dst" "unat sz * unat mem < 2 ^ 31"
  shows "fread K dst sz mem f st = None"
proof -
  let ?x = "x\<lparr>fmut := if dolock (iom st) then 1 else 0\<rparr>"
  have x: "files st f = Some x" "fmut x = 0" "ferr x = 0" using assms(1) by (simp_all add: fready_def)
  note u = item_count[OF assms(6,9)]
  have "0 < unat (mem * sz)" using u(2) assms(6,7) by (simp add: unat_gt_0)
  then have "at_end K inp dst 0 (mem * sz) ?x (io_proc st)" using assms x u(2) by (simp add: at_end_def)
  then have "fread_loop K dst 0 (mem * sz) 0 ?x (io_proc st) = None" using fread_loop_hangs by (metis not_None_eq)
  then show ?thesis using assms(6) u(1) by (simp add: fread_def with_file_loop_def lock_file_free[OF x(1,2)])
qed

theorem fread_hangs_witness: "fread disk_kernel [0, 0] 1 2 512 (io1 s_IONBF []) = None"
proof -
  have r: "fready (io1 s_IONBF []) 512 (file1 s_IONBF)" by (rule io1_ready) simp
  have d: "delivers disk_kernel (f_fd (file1 s_IONBF)) (\<lambda>k. fst (snd k))" by (simp add: disk_delivers)
  have i: "fst (snd (kern (io_proc (io1 s_IONBF [])))) = []" by (simp add: io1_def disk_heap_def)
  show ?thesis by (rule fread_hangs[OF r _ _ d i]) simp_all
qed

text \<open>
  C38: a failing \<open>read\<close> of a buffered stream goes unnoticed. The result is compared with 0 as an unsigned number;
  \<open>fread\<close> reports success and delivers what the buffer happens to hold, no error is set, and the pointers have left
  the order that the comment at the fields promises.
\<close>

theorem fread_stale:
  assumes "fready st f x" "btype x = s_IOFBF" "writing x = 0" "eof x = 0" "fp x = fend x"
    and "read_c K (f_fd x) (SP (fbuf x)) (word_of_nat BUFSIZ) (io_proc st) = (- 1, as, p1)" "obj (as ! 1) = fbuf x"
    and "sz \<noteq> 0" "mem \<noteq> 0" "unat sz * unat mem \<le> BUFSIZ" "unat sz * unat mem \<le> length dst"
  shows "\<exists>st' y. fread K dst sz mem f st = Some (Ret ((mem, take (unat sz * unat mem) (fbuf x) @ drop (unat sz * unat mem) dst), st')) \<and>
    files st' f = Some y \<and> ferr y = 0 \<and> eof y = 0 \<and> \<not> stream_ok y"
proof -
  let ?x = "x\<lparr>fmut := if dolock (iom st) then 1 else 0\<rparr>" and ?n = "unat sz * unat mem"
  have x: "files st f = Some x" "fmut x = 0" "ferr x = 0" "stream_ok x" using assms(1) by (simp_all add: fready_def)
  have "?n < 2 ^ 31" using assms(10) by (simp add: BUFSIZ_def)
  note u = item_count[OF assms(8) this]
  have n: "0 < unat (mem * sz)" "unat (mem * sz) \<le> BUFSIZ" "0 + unat (mem * sz) \<le> length dst"
    using u(2) assms(8-11) by (simp_all add: unat_gt_0)
  let ?g = "?x\<lparr>fp := uint (mem * sz), fend := - 1\<rparr>" and ?d = "take ?n (fbuf x) @ drop ?n dst"
  have r: "s_fread1 K dst 0 (mem * sz) ?x (io_proc st) = Ret ((mem * sz, ?d), ?g, p1)"
    using s_fread1_stale[of ?x K "io_proc st" as p1 "mem * sz" 0 dst] assms(2-7) x n u(2) by simp
  have "mem * sz > 0" using n(1) by (simp add: word_less_nat_alt)
  then have "fread_loop K dst 0 (mem * sz) 0 ?x (io_proc st) = fread_loop K ?d ?n 0 (mem * sz) ?g p1"
    using r assms(4) x(3) u(2) by (subst fread_loop.simps) simp
  also have "\<dots> = Some (Ret ((mem * sz, ?d), ?g, p1))" by (subst fread_loop.simps) simp
  finally have "fread K dst sz mem f st = Some (Ret ((mem, ?d), set_proc p1 (st\<lparr>files := (files st)(f \<mapsto> ?g\<lparr>fmut := 0\<rparr>)\<rparr>)))"
    using assms(8) u(1,3) by (simp add: fread_def with_file_loop_def lock_file_free[OF x(1,2)] unlock_file_free)
  moreover have "\<not> uint (mem * sz) \<le> - 1" using uint_ge_0[of "mem * sz"] by linarith
  then have "\<not> stream_ok (?g\<lparr>fmut := 0\<rparr>)" by (simp add: stream_ok_def)
  ultimately show ?thesis using x(3) assms(4) by auto
qed

text \<open>A kernel that fails every call with \<open>EIO\<close>.\<close>

definition eio_kernel :: "disk kernel" where
  "eio_kernel trap as k = (- 5, as, k)"

theorem fread_stale_witness:
  "\<exists>st' y. fread eio_kernel [9, 9] 1 2 512 (io1 s_IOFBF []) = Some (Ret ((2, [0, 0]), st')) \<and> files st' 512 = Some y \<and> ferr y = 0 \<and> \<not> stream_ok y"
proof -
  let ?st = "io1 s_IOFBF []" and ?x = "file1 s_IOFBF"
  have r: "fready ?st 512 ?x" by (rule io1_ready) simp
  have p: "fp ?x = fend ?x" "fbuf ?x = replicate BUFSIZ 0" by (simp_all add: file1_def file0_def)
  have n: "(ucast (- 5 :: long) :: cint) <s 0" by code_simp
  have k: "read_c eio_kernel (f_fd ?x) (SP (fbuf ?x)) (word_of_nat BUFSIZ) (io_proc ?st) =
      (- 1, [SAi 3, SP (fbuf ?x), SA (word_of_nat BUFSIZ), SA 0, SA 0, SA 0], (io_proc ?st)\<lparr>errno := - (ucast (- 5 :: long))\<rparr>)"
    using n by (simp add: read_c_def widen_def sys_neg_def syscall_5 eio_kernel_def ERRNO_NEG_def io1_def disk_heap_def)
  have u: "unat (1 :: long) * unat (2 :: long) = Suc (Suc 0)" by simp
  have b: "take (unat (1 :: long) * unat (2 :: long)) (fbuf ?x) @ drop (unat (1 :: long) * unat (2 :: long)) [9, 9] = [0, 0]"
    unfolding p(2) u by (simp add: BUFSIZ_def)
  have l: "unat (1 :: long) * unat (2 :: long) \<le> BUFSIZ" by (simp add: BUFSIZ_def)
  show ?thesis using fread_stale[OF r _ _ _ p(1) k _ _ _ l, of "[9, 9]", unfolded b] by auto
qed

end
