(* ===== verification/Litc_Scan.thy ===== *)
theory Litc_Scan
  imports Litc_Printf
begin

unbundle bit_operations_syntax

text \<open>
  Formatted input and options (\<open>litc.c\<close>): \<open>_vscanf\<close> with \<open>vsscanf\<close> and \<open>sscanf\<close>, the reading of floating-point
  numbers by \<open>strtold\<close> and \<open>strtod\<close> with \<open>pow\<close>, and \<open>getopt\<close>.

  A \<open>va_list\<close> of pointers is the list of the types of the objects they point to; fetching a pointer of another
  type is \<open>Fault\<close>. The result lists the values stored, in the order of the pointers.

  A floating-point number is a rational, an infinity with its sign (\<open>True\<close> is negative), or not-a-number; zero
  has no sign. How a result is rounded to a \<open>long double\<close>, a \<open>double\<close> and a \<open>float\<close> is the parameter \<open>fpu\<close>.
\<close>

section \<open>Floating-point numbers\<close>

datatype ldouble = LNaN | LInf bool | LFin rat

record fpu =
  rnd_ld :: "rat \<Rightarrow> ldouble"
  rnd_d :: "rat \<Rightarrow> ldouble"
  rnd_f :: "rat \<Rightarrow> ldouble"

fun fmul :: "(rat \<Rightarrow> ldouble) \<Rightarrow> ldouble \<Rightarrow> ldouble \<Rightarrow> ldouble" where
  "fmul rnd (LFin x) (LFin y) = rnd (x * y)"
| "fmul rnd (LInf s) (LFin y) = (if y = 0 then LNaN else LInf (s \<noteq> (y < 0)))"
| "fmul rnd (LFin x) (LInf s) = (if x = 0 then LNaN else LInf (s \<noteq> (x < 0)))"
| "fmul rnd (LInf s) (LInf t) = LInf (s \<noteq> t)"
| "fmul rnd _ _ = LNaN"

fun fdiv :: "(rat \<Rightarrow> ldouble) \<Rightarrow> ldouble \<Rightarrow> ldouble \<Rightarrow> ldouble" where
  "fdiv rnd (LFin x) (LFin y) = (if y \<noteq> 0 then rnd (x / y) else if x = 0 then LNaN else LInf (x < 0))"
| "fdiv rnd (LInf s) (LFin y) = LInf (s \<noteq> (y < 0))"
| "fdiv rnd (LFin x) (LInf s) = LFin 0"
| "fdiv rnd _ _ = LNaN"

fun fadd :: "(rat \<Rightarrow> ldouble) \<Rightarrow> ldouble \<Rightarrow> ldouble \<Rightarrow> ldouble" where
  "fadd rnd (LFin x) (LFin y) = rnd (x + y)"
| "fadd rnd (LInf s) (LFin y) = LInf s"
| "fadd rnd (LFin x) (LInf s) = LInf s"
| "fadd rnd (LInf s) (LInf t) = (if s = t then LInf s else LNaN)"
| "fadd rnd _ _ = LNaN"

fun fneg :: "ldouble \<Rightarrow> ldouble" where
  "fneg (LFin x) = LFin (- x)"
| "fneg (LInf s) = LInf (\<not> s)"
| "fneg LNaN = LNaN"

definition fsub :: "(rat \<Rightarrow> ldouble) \<Rightarrow> ldouble \<Rightarrow> ldouble \<Rightarrow> ldouble" where
  "fsub rnd x y = fadd rnd x (fneg y)"

fun negative :: "ldouble \<Rightarrow> bool" where
  "negative (LFin x) = (x < 0)"
| "negative (LInf s) = s"
| "negative LNaN = False"

fun narrow :: "(rat \<Rightarrow> ldouble) \<Rightarrow> ldouble \<Rightarrow> ldouble" where
  "narrow rnd (LFin x) = rnd x"
| "narrow rnd x = x"

text \<open>The conversion to \<open>long\<close> cuts off the fraction; it is undefined for a value that does not fit.\<close>

fun to_long :: "ldouble \<Rightarrow> int option" where
  "to_long (LFin x) =
     (let t = (if x < 0 then - \<lfloor>- x\<rfloor> else \<lfloor>x\<rfloor>) in if - (2 ^ 63) \<le> t \<and> t < 2 ^ 63 then Some t else None)"
| "to_long _ = None"

fun pow_loop :: "fpu \<Rightarrow> nat \<Rightarrow> ldouble \<Rightarrow> ldouble \<Rightarrow> ldouble" where
  "pow_loop F 0 x ret = ret"
| "pow_loop F (Suc n) x ret = pow_loop F n x (fmul (rnd_d F) ret x)"

definition pow_c :: "fpu \<Rightarrow> ldouble \<Rightarrow> ldouble \<Rightarrow> ldouble outcome" where
  "pow_c F x y =
     (case to_long y of None \<Rightarrow> Fault
      | Some e \<Rightarrow>
          if fsub (rnd_d F) y (rnd_d F (of_int e)) \<noteq> LFin 0
          then Errx (- 1) ''shitty pow(3) only accepts integer exponents''
          else if e = 0 then Ret (LFin 1)
          else if e = - (2 ^ 63) then Fault
          else
            let ret = pow_loop F (nat \<bar>e\<bar>) x (LFin 1)
            in Ret (if e < 0 then fdiv (rnd_d F) (LFin 1) ret else ret))"

text \<open>\<open>strtold\<close>, in its three parts: the integer, the digits behind a point, and the exponent.\<close>

definition strtold_frac :: "fpu \<Rightarrow> ldouble \<Rightarrow> byte list \<Rightarrow> (ldouble \<times> byte list) outcome" where
  "strtold_frac F ret tend =
     (case tend of [] \<Rightarrow> Fault
      | c # t \<Rightarrow>
          if c \<noteq> 46 then Ret (ret, tend)
          else (case strtol t 10 of
              Some (fr, Some fend', _) \<Rightarrow>
                let digs = length t - length fend' in
                if digs = 0 then Ret (ret, t)
                else bind_out (pow_c F (LFin 10) (rnd_d F (of_nat digs))) (\<lambda>p.
                  let addend = fdiv (rnd_ld F) (LFin (of_int (sint fr))) p
                  in Ret (if negative ret then fsub (rnd_ld F) ret addend else fadd (rnd_ld F) ret addend, fend'))
            | _ \<Rightarrow> Fault))"

definition strtold_exp :: "fpu \<Rightarrow> ldouble \<Rightarrow> byte list \<Rightarrow> (ldouble \<times> byte list) outcome" where
  "strtold_exp F ret tend =
     (case tend of [] \<Rightarrow> Fault
      | c # t \<Rightarrow>
          if tolower (sint c) \<noteq> 101 then Ret (ret, tend)
          else (case strtol t 10 of
              Some (e, Some eend, _) \<Rightarrow>
                if length t - length eend > 0 then
                  bind_out (pow_c F (LFin 10) (rnd_d F (of_int (sint e)))) (\<lambda>p. Ret (fmul (rnd_ld F) ret p, eend))
                else Ret (ret, t)
            | _ \<Rightarrow> Fault))"

text \<open>The result is the number and what is stored through \<open>end\<close>.\<close>

definition strtold :: "fpu \<Rightarrow> byte list \<Rightarrow> (ldouble \<times> byte list) outcome" where
  "strtold F s =
     (case strtol s 10 of
        Some (t, Some tend, _) \<Rightarrow>
          bind_out (strtold_frac F (LFin (of_int (sint t))) tend) (\<lambda>(ret, tend'). strtold_exp F ret tend')
      | _ \<Rightarrow> Fault)"

definition strtod :: "fpu \<Rightarrow> byte list \<Rightarrow> (ldouble \<times> byte list) outcome" where
  "strtod F s = bind_out (strtold F s) (\<lambda>(r, e). Ret (narrow (rnd_d F) r, e))"

section \<open>Formatted input\<close>

datatype sarg = PInt | PLong | PFloat | PDouble

datatype sval = SInt cint | SLong long | SFloat ldouble | SDouble ldouble

text \<open>
  One directive has been read up to its letter. \<open>None\<close> is the return from the function; otherwise the value, the
  rest of the input and the remaining pointers are the result.
\<close>

definition scan_int :: "bool \<Rightarrow> bool \<Rightarrow> byte list \<Rightarrow> sarg list \<Rightarrow> ((sval \<times> byte list \<times> sarg list) option) outcome" where
  "scan_int longm hexm src ap =
     (case strtol src (if hexm then 16 else 10) of
        Some (read, Some eptr, _) \<Rightarrow>
          if length eptr = length src then Ret None
          else (case (longm, ap) of
              (True, PLong # ap') \<Rightarrow> Ret (Some (SLong read, eptr, ap'))
            | (False, PInt # ap') \<Rightarrow> Ret (Some (SInt (ucast read), eptr, ap'))
            | _ \<Rightarrow> Fault)
      | _ \<Rightarrow> Fault)"

definition scan_float :: "fpu \<Rightarrow> bool \<Rightarrow> byte list \<Rightarrow> sarg list \<Rightarrow> ((sval \<times> byte list \<times> sarg list) option) outcome" where
  "scan_float F longm src ap =
     bind_out (strtold F src) (\<lambda>(read, eptr).
       if length eptr = length src then Ret None
       else (case (longm, ap) of
           (True, PDouble # ap') \<Rightarrow> Ret (Some (SDouble (narrow (rnd_d F) read), eptr, ap'))
         | (False, PFloat # ap') \<Rightarrow> Ret (Some (SFloat (narrow (rnd_f F) read), eptr, ap'))
         | _ \<Rightarrow> Fault))"

text \<open>The loop \<open>while (!done)\<close>, from behind the percent sign.\<close>

fun scan_conv ::
  "fpu \<Rightarrow> bool \<Rightarrow> byte list \<Rightarrow> byte list \<Rightarrow> sarg list \<Rightarrow> ((byte list \<times> sval list \<times> byte list \<times> sarg list) option) outcome"
where
  "scan_conv F longm [] src ap = Fault"
| "scan_conv F longm (c # fmt) src ap =
     (if c = 37 then
        (case src of [] \<Rightarrow> Fault | s # src' \<Rightarrow> Ret (if s \<noteq> 37 then None else Some (fmt, [], src', ap)))
      else if c = 108 then scan_conv F True fmt src ap
      else if c = 120 \<or> c = 117 \<or> c = 100 then
        bind_out (scan_int longm (c = 120) src ap) (\<lambda>r. Ret (map_option (\<lambda>(v, s, a). (fmt, [v], s, a)) r))
      else if c = 103 \<or> c = 102 then
        bind_out (scan_float F longm src ap) (\<lambda>r. Ret (map_option (\<lambda>(v, s, a). (fmt, [v], s, a)) r))
      else Errx (- 1) ''unsupported scanf format: %c'')"

lemma scan_conv_length:
  "scan_conv F longm fmt src ap = Ret (Some (fmt', r)) \<Longrightarrow> length fmt' < length fmt"
  by (induction F longm fmt src ap rule: scan_conv.induct)
    (auto simp: bind_out_Ret_iff split: if_splits list.splits)

text \<open>\<open>e\<close> is the number of bytes from \<open>end\<close> to the end of the object, so that \<open>src < end\<close> compares lengths.\<close>

function s_vscanf ::
  "fpu \<Rightarrow> nat \<Rightarrow> byte list \<Rightarrow> byte list \<Rightarrow> sarg list \<Rightarrow> cint \<Rightarrow> sval list \<Rightarrow> (cint \<times> sval list) outcome"
where
  "s_vscanf F e src [] ap ret vs = Fault"
| "s_vscanf F e src (c # fmt) ap ret vs =
     (if c = 0 \<or> \<not> length src > e then Ret (ret, vs)
      else if isspace (sint c) then
        (case skip_space src of None \<Rightarrow> Fault | Some src' \<Rightarrow> s_vscanf F e src' fmt ap ret vs)
      else if c \<noteq> 37 then
        (case src of [] \<Rightarrow> Fault
         | s # src' \<Rightarrow> if s \<noteq> c then Ret (ret, vs) else s_vscanf F e src' fmt ap ret vs)
      else (case scan_conv F False fmt src ap of
          Ret None \<Rightarrow> Ret (ret, vs)
        | Ret (Some (fmt', vs', src', ap')) \<Rightarrow>
            s_vscanf F e src' fmt' ap' (ret + word_of_nat (length vs')) (vs @ vs')
        | Errx x m \<Rightarrow> Errx x m
        | Fault \<Rightarrow> Fault
        | Block \<Rightarrow> Block))"
  by pat_completeness auto
termination
  by (relation "measure (\<lambda>(F, e, src, fmt, ap, ret, vs). length fmt)") (auto dest: scan_conv_length)

definition vsscanf :: "fpu \<Rightarrow> byte list \<Rightarrow> byte list \<Rightarrow> sarg list \<Rightarrow> (cint \<times> sval list) outcome" where
  "vsscanf F src fmt ap =
     (case strchr src 0 of None \<Rightarrow> Fault
      | Some None \<Rightarrow> Errx (- 1) ''no null''
      | Some (Some e) \<Rightarrow> s_vscanf F (length e) src fmt ap 0 [])"

definition sscanf :: "fpu \<Rightarrow> byte list \<Rightarrow> byte list \<Rightarrow> sarg list \<Rightarrow> (cint \<times> sval list) outcome" where
  "sscanf F src fmt ap = vsscanf F src fmt ap"

section \<open>Options\<close>

record opts =
  optarg :: "byte list option"
  optind :: cint

text \<open>\<open>argv[i]\<close>; the inner option is \<open>NULL\<close>.\<close>

definition argv_at :: "byte list option list \<Rightarrow> cint \<Rightarrow> byte list option option" where
  "argv_at argv i = (if \<not> i <s 0 \<and> unat i < length argv then Some (argv ! unat i) else None)"

definition char_at :: "byte list \<Rightarrow> nat \<Rightarrow> byte outcome" where
  "char_at p i = (if i < length p then Ret (p ! i) else Fault)"

function getopt_skip :: "cint \<Rightarrow> byte list option list \<Rightarrow> cint \<Rightarrow> cint outcome" where
  "getopt_skip argc argv i =
     (if i <s argc then
        (case argv_at argv i of None \<Rightarrow> Fault
         | Some (Some _) \<Rightarrow> Ret i
         | Some None \<Rightarrow> getopt_skip argc argv (i + 1))
      else Ret i)"
  by pat_completeness auto
termination
proof (relation "measure (\<lambda>(argc, argv, i). nat (sint argc - sint i))")
  fix argc i :: cint and argv :: "byte list option list"
  assume "i <s argc"
  then have l: "sint i < sint argc" by (simp add: word_sless_alt)
  have "sint i < 2 ^ 31 - 1" using l sint_less[of argc] by simp
  then have "sint (i + 1) = sint i + 1"
    using sint_ge[of i] by (simp add: signed_take_bit_int_eq_self flip: sint_word_ariths(1)) (simp add: sint_word_ariths signed_take_bit_int_eq_self)
  then show "((argc, argv, i + 1), argc, argv, i) \<in> measure (\<lambda>(argc, argv, i). nat (sint argc - sint i))"
    using l by simp
qed simp

declare getopt_skip.simps [simp del]

text \<open>An option that takes an argument: the rest of the word, or the next word.\<close>

definition getopt_arg ::
  "cint \<Rightarrow> byte list option list \<Rightarrow> byte list \<Rightarrow> byte list \<Rightarrow> byte \<Rightarrow> opts \<Rightarrow> (cint \<times> opts) outcome"
where
  "getopt_arg argc argv optstring ca c st =
     bind_out (char_at ca 2) (\<lambda>c2.
       if c2 \<noteq> 0 then Ret (scast c, st\<lparr>optarg := Some (drop 2 ca)\<rparr>)
       else bind_out (char_at optstring 0) (\<lambda>o0.
         let argwut = (if o0 = 58 then 58 else 63) in
         if \<not> optind st <s argc then Ret (argwut, st)
         else (case argv_at argv (optind st) of
             Some (Some w) \<Rightarrow>
               bind_out (char_at w 0) (\<lambda>w0.
                 if w0 = 45 then Ret (argwut, st)
                 else Ret (scast c, st\<lparr>optarg := Some w, optind := optind st + 1\<rparr>))
           | _ \<Rightarrow> Fault)))"

definition getopt ::
  "cint \<Rightarrow> byte list option list \<Rightarrow> byte list \<Rightarrow> opts \<Rightarrow> (cint \<times> opts) outcome"
where
  "getopt argc argv optstring st =
     bind_out (getopt_skip argc argv (optind st)) (\<lambda>i.
       let st1 = \<lparr>optarg = None, optind = i\<rparr> in
       if \<not> i <s argc then Ret (- 1, st1)
       else (case argv_at argv i of
           Some (Some ca) \<Rightarrow>
             bind_out (char_at ca 0) (\<lambda>c0.
               if c0 \<noteq> 45 then Ret (- 1, st1)
               else
                 let st2 = st1\<lparr>optind := i + 1\<rparr> in
                 bind_out (char_at ca 1) (\<lambda>c.
                   case strchr optstring (sint c) of None \<Rightarrow> Fault
                   | Some None \<Rightarrow> Ret (63, st2)
                   | Some (Some o1) \<Rightarrow>
                       bind_out (char_at o1 1) (\<lambda>o2.
                         if o2 \<noteq> 58 then Ret (scast c, st2) else getopt_arg argc argv optstring ca c st2)))
         | _ \<Rightarrow> Fault))"

section \<open>Printing and reading back\<close>

definition ld_text :: "long \<Rightarrow> byte list" where
  "ld_text n = (if n <s 0 then [45] else []) @ the (num_bytes (if n <s 0 then - n else n) 10)"

text \<open>The format \<open>%ld %ld ... %ld\<close>.\<close>

fun ld_fmt :: "nat \<Rightarrow> string" where
  "ld_fmt 0 = []"
| "ld_fmt (Suc 0) = ''%ld''"
| "ld_fmt (Suc (Suc n)) = ''%ld '' @ ld_fmt (Suc n)"

fun ld_texts :: "long list \<Rightarrow> byte list" where
  "ld_texts [] = []"
| "ld_texts [n] = ld_text n"
| "ld_texts (n # m # ns) = ld_text n @ 32 # ld_texts (m # ns)"

lemma putn_buf_length: "putn_buf n b i = Some ds \<Longrightarrow> length ds \<le> 21 - i"
proof (induction n b i arbitrary: ds rule: putn_buf.induct)
  case (1 n b i)
  show ?case
  proof (cases "n = 0 \<or> b \<le> 1 \<or> 21 \<le> i")
    case True
    then show ?thesis using "1.prems" by (auto simp: putn_buf.simps[of n b i] split: if_splits)
  next
    case False
    then obtain ds' where d: "putn_buf (n div b) b (Suc i) = Some ds'" "length ds = Suc (length ds')"
      using "1.prems" by (auto simp: putn_buf.simps[of n b i])
    have "length ds' \<le> 21 - Suc i" using "1.IH"[OF _ _ d(1)] False by simp
    then show ?thesis using d(2) False by linarith
  qed
qed

lemma ld_text_digits:
  obtains sg ds where "ld_text n = sg @ ds" "sg = [] \<or> sg = [45]" "ds \<noteq> []" "\<forall>d \<in> set ds. isdigit (sint d)"
    "word_of_int ((if sg = [45] then - 1 else 1) * digits_val 10 ds) = n"
    "num_bytes (if n <s 0 then - n else n) 10 = Some ds" "sg = (if n <s 0 then [45] else [])" "length ds \<le> 21"
proof -
  let ?k = "if n <s 0 then - n else n" and ?sg = "if n <s 0 then [45 :: byte] else []"
  obtain ds where ds: "num_bytes ?k 10 = Some ds" "ds \<noteq> []" "\<forall>d \<in> set ds. isdigit (sint d)"
    "digits_val 10 ds = uint ?k" by (rule num_bytes_decimal)
  have l: "length ds \<le> 21" using ds(1) putn_buf_length[of ?k 10 0] by (auto simp: num_bytes_def split: if_splits)
  have "word_of_int ((if ?sg = [45] then - 1 else 1) * digits_val 10 ds) = n" by (simp add: ds(4))
  then show thesis using that[of ?sg ds] ds l by (simp add: ld_text_def)
qed

lemma ld_text_length: "length (ld_text n) \<le> 22"
  by (rule ld_text_digits[of n]) auto

lemma ld_texts_length: "length (ld_texts ns) \<le> 23 * length ns"
proof (induction ns rule: ld_texts.induct)
  case (2 n)
  then show ?case using ld_text_length[of n] by simp
next
  case (3 n m ns)
  then show ?case using ld_text_length[of n] by simp
qed simp

lemma print_ld:
  "vprintf_loop list_sink rnd (37 # 108 # 100 # fmt) (VLong n # ap) out = vprintf_loop list_sink rnd fmt ap (out @ ld_text n)"
proof (rule ld_text_digits[of n])
  fix sg ds
  assume "ld_text n = sg @ ds" "num_bytes (if n <s 0 then - n else n) 10 = Some ds" "sg = (if n <s 0 then [45] else [])"
  then show ?thesis
    by (cases "n <s 0") (simp_all add: read_prec_def put_conv_def put_d_def list_sink_def init_flags_def isspace_def)
qed

lemma ld_fmt_lit:
  "lit (ld_fmt 0) = [0]" "lit (ld_fmt (length [n])) = [37, 108, 100, 0]"
  "lit (ld_fmt (length (n # m # ns))) = 37 # 108 # 100 # 32 # lit (ld_fmt (length (m # ns)))"
  by (simp_all add: lit_def bytes_of_def)

lemma print_lds:
  "vprintf_loop list_sink rnd (lit (ld_fmt (length ns))) (map VLong ns) out = Some (out @ ld_texts ns)"
proof (induction ns arbitrary: out rule: ld_texts.induct)
  case (3 n m ns)
  have "vprintf_loop list_sink rnd (32 # f) ap o1 = vprintf_loop list_sink rnd f ap (o1 @ [32])" for f ap o1
    by (simp add: list_sink_def)
  then show ?case unfolding ld_fmt_lit list.map print_ld using "3.IH" by simp
next
  case (2 n)
  show ?case unfolding ld_fmt_lit list.map print_ld by simp
qed (simp add: lit_def bytes_of_def)

lemma scan_ld:
  assumes "\<not> isdigit (sint c)" "0 \<in> set (c # rest)" "e \<le> length (c # rest)"
  shows "s_vscanf F e (ld_text n @ c # rest) (37 # 108 # 100 # fmt) (PLong # ap) ret vs =
    s_vscanf F e (c # rest) fmt ap (ret + 1) (vs @ [SLong n])"
proof (rule ld_text_digits[of n])
  fix sg ds
  assume d: "ld_text n = sg @ ds" "sg = [] \<or> sg = [45]" "ds \<noteq> []" "\<forall>d \<in> set ds. isdigit (sint d)"
    "word_of_int ((if sg = [45] then - 1 else 1) * digits_val 10 ds) = n"
  have s: "strtol ([] @ sg @ ds @ c # rest) 10 = Some (n, Some (c # rest), None)"
    unfolding d(5)[symmetric] using d(2-4) assms(1,2) by (intro strtol_num[of 10 isdigit]) auto
  have l: "0 < length ds" using d(3) by simp
  have "scan_int True False (ld_text n @ c # rest) (PLong # ap) = Ret (Some (SLong n, c # rest, ap))"
    using s l d(1) by (simp add: scan_int_def)
  moreover have "e < length (ld_text n @ c # rest)" unfolding d(1) length_append using l assms(3) by linarith
  ultimately show ?thesis by (simp add: isspace_def)
qed

lemma skip_ld: "skip_space (32 # ld_text n @ rest) = Some (ld_text n @ rest)"
proof (rule ld_text_digits[of n])
  fix sg ds
  assume d: "ld_text n = sg @ ds" "sg = [] \<or> sg = [45]" "ds \<noteq> []" "\<forall>d \<in> set ds. isdigit (sint d)"
  obtain a as where a: "sg @ ds = a # as" "\<not> isspace (sint a)"
    using d(2-4) by (cases ds) (auto simp: isspace_def isdigit_def)
  then show ?thesis unfolding d(1) by (simp add: isspace_def)
qed

lemma ld_texts_hd: "\<exists>r. ld_texts (n # ns) = ld_text n @ r"
  by (cases ns) auto

lemma scan_lds:
  "s_vscanf F (Suc (length r)) (ld_texts ns @ 0 # r) (lit (ld_fmt (length ns))) (replicate (length ns) PLong) ret vs =
    Ret (ret + word_of_nat (length ns), vs @ map SLong ns)"
proof (induction ns arbitrary: ret vs rule: ld_texts.induct)
  case 1
  show ?case by (simp add: lit_def bytes_of_def)
next
  case (2 n)
  have "\<not> isdigit (sint (0 :: byte))" by (simp add: isdigit_def)
  from scan_ld[OF this, of r "Suc (length r)"] show ?case unfolding ld_fmt_lit by simp
next
  case (3 n m ns)
  have z: "\<not> isdigit (sint (32 :: byte))" by (simp add: isdigit_def)
  let ?t = "ld_texts (m # ns) @ 0 # r"
  obtain q where q: "ld_texts (m # ns) = ld_text m @ q" using ld_texts_hd by blast
  have k: "skip_space (32 # ?t) = Some ?t" unfolding q using skip_ld[of m "q @ 0 # r"] by simp
  have "s_vscanf F (Suc (length r)) (ld_text n @ 32 # ?t) (37 # 108 # 100 # 32 # f) (PLong # ap) ret vs =
      s_vscanf F (Suc (length r)) ?t f ap (ret + 1) (vs @ [SLong n])" for f ap
    using scan_ld[OF z, of ?t "Suc (length r)"] k by (simp add: isspace_def)
  then show ?case unfolding ld_fmt_lit using "3.IH" by simp
qed

lemma ld_texts_nz: "0 \<notin> set (ld_texts ns)"
proof -
  have t: "0 \<notin> set (ld_text n)" for n
  proof (rule ld_text_digits[of n])
    fix sg ds
    assume "ld_text n = sg @ ds" "sg = [] \<or> sg = [45]" "\<forall>d \<in> set ds. isdigit (sint d)"
    then show ?thesis by (auto simp: isdigit_def)
  qed
  show ?thesis by (induction ns rule: ld_texts.induct) (simp_all add: t)
qed

section \<open>What the calls of getopt return\<close>

lemma index_less: "i < 2 ^ 31 \<Longrightarrow> n < 2 ^ 31 \<Longrightarrow> (word_of_nat i :: cint) <s word_of_nat n \<longleftrightarrow> i < n"
  by (simp only: word_sless_alt sint_index of_nat_less_iff)

lemma argv_at_index:
  assumes "i < length argv" "length argv < 2 ^ 31"
  shows "argv_at argv (word_of_nat i) = Some (argv ! i)"
proof -
  have i: "i < 2 ^ 31" using assms by simp
  have "\<not> (word_of_nat i :: cint) <s 0" by (simp only: word_sless_alt sint_index(1)[OF i]) simp
  then show ?thesis using assms(1) unfolding argv_at_def sint_index(2)[OF i] by simp
qed

text \<open>A command line: options without argument, with the argument in the same word, and with it in the next word.\<close>

datatype opt = Flag byte | Attached byte "byte list" | Separate byte "byte list"

fun opt_argv :: "opt \<Rightarrow> byte list option list" where
  "opt_argv (Flag c) = [Some [45, c, 0]]"
| "opt_argv (Attached c a) = [Some (45 # c # a @ [0])]"
| "opt_argv (Separate c a) = [Some [45, c, 0], Some (a @ [0])]"

fun opt_val :: "opt \<Rightarrow> cint \<times> byte list option" where
  "opt_val (Flag c) = (scast c, None)"
| "opt_val (Attached c a) = (scast c, Some (a @ [0]))"
| "opt_val (Separate c a) = (scast c, Some (a @ [0]))"

text \<open>Whether the letter is in the option string, and whether a colon follows it.\<close>

fun takes_arg :: "byte list \<Rightarrow> byte \<Rightarrow> bool option" where
  "takes_arg [] c = None"
| "takes_arg (x # xs) c = (if x = c then Some (xs \<noteq> [] \<and> hd xs = 58) else takes_arg xs c)"

fun opt_ok :: "byte list \<Rightarrow> opt \<Rightarrow> bool" where
  "opt_ok s (Flag c) \<longleftrightarrow> c \<noteq> 0 \<and> takes_arg s c = Some False"
| "opt_ok s (Attached c a) \<longleftrightarrow> c \<noteq> 0 \<and> takes_arg s c = Some True \<and> a \<noteq> [] \<and> 0 \<notin> set a"
| "opt_ok s (Separate c a) \<longleftrightarrow> c \<noteq> 0 \<and> takes_arg s c = Some True \<and> 0 \<notin> set a \<and> (a = [] \<or> hd a \<noteq> 45)"

text \<open>What a program sees that calls \<open>getopt\<close> \<open>n\<close> times.\<close>

fun getopt_run ::
  "nat \<Rightarrow> cint \<Rightarrow> byte list option list \<Rightarrow> byte list \<Rightarrow> opts \<Rightarrow> ((cint \<times> byte list option) list \<times> opts) outcome"
where
  "getopt_run 0 argc argv os st = Ret ([], st)"
| "getopt_run (Suc n) argc argv os st =
     bind_out (getopt argc argv os st) (\<lambda>(r, st1).
     bind_out (getopt_run n argc argv os st1) (\<lambda>(rs, st2). Ret ((r, optarg st1) # rs, st2)))"

lemma sint_byte_inj: "sint (a :: byte) = sint b \<longleftrightarrow> a = b"
  by (metis signed_word_eqI)

lemma strchr_takes:
  assumes "cstr os s" "c \<noteq> 0"
  shows "case takes_arg s c of None \<Rightarrow> strchr os (sint c) = Some None
    | Some b \<Rightarrow> \<exists>x y o1. strchr os (sint c) = Some (Some (x # y # o1)) \<and> (y = 58 \<longleftrightarrow> b)"
  using assms(1)
proof (induction s arbitrary: os)
  case Nil
  have "sint c \<noteq> 0" using assms(2) sint_byte_inj[of c 0] by simp
  then show ?case using Nil by (cases os) auto
next
  case (Cons x s)
  then obtain os' where o: "os = x # os'" "x \<noteq> 0" "cstr os' s" by (cases os) auto
  show ?case
  proof (cases "x = c")
    case True
    then show ?thesis using o by (cases os'; cases s) auto
  next
    case False
    then have "strchr os (sint c) = strchr os' (sint c)" "takes_arg (x # s) c = takes_arg s c" using o by (simp_all add: sint_byte_inj)
    then show ?thesis using Cons.IH[OF o(3)] by (simp only:)
  qed
qed

lemma getopt_skip_at:
  assumes "i < length argv" "length argv < 2 ^ 31" "argv ! i = Some w"
  shows "getopt_skip (word_of_nat (length argv)) argv (word_of_nat i) = Ret (word_of_nat i)"
  using assms by (subst getopt_skip.simps) (simp add: argv_at_index)

lemma getopt_end:
  assumes "length argv < 2 ^ 31"
  shows "getopt (word_of_nat (length argv)) argv os \<lparr>optarg = a, optind = word_of_nat (length argv)\<rparr> =
    Ret (- 1, \<lparr>optarg = None, optind = word_of_nat (length argv)\<rparr>)"
  using assms by (simp add: getopt_def getopt_skip.simps index_less)

lemma getopt_operand:
  assumes "i < length argv" "length argv < 2 ^ 31" "argv ! i = Some (c # w)" "c \<noteq> 45"
  shows "getopt (word_of_nat (length argv)) argv os \<lparr>optarg = a, optind = word_of_nat i\<rparr> =
    Ret (- 1, \<lparr>optarg = None, optind = word_of_nat i\<rparr>)"
  using assms by (simp add: getopt_def getopt_skip_at argv_at_index index_less char_at_def)

lemma getopt_step:
  assumes "cstr os s" "opt_ok s o1" "argv = pre @ opt_argv o1 @ post" "length argv < 2 ^ 31"
  shows "getopt (word_of_nat (length argv)) argv os \<lparr>optarg = a, optind = word_of_nat (length pre)\<rparr> =
    Ret (fst (opt_val o1), \<lparr>optarg = snd (opt_val o1), optind = word_of_nat (length pre + length (opt_argv o1))\<rparr>)"
proof -
  let ?i = "length pre" and ?n = "word_of_nat (length argv) :: cint"
  have c: "c \<noteq> 0 \<Longrightarrow> takes_arg s c = Some b \<Longrightarrow>
      \<exists>x y o1. strchr os (sint c) = Some (Some (x # y # o1)) \<and> (y = 58 \<longleftrightarrow> b)" for c b
    using strchr_takes[OF assms(1), of c] by simp
  obtain o0 os' where os: "os = o0 # os'" using assms(1) by (cases os) auto
  have w: "(word_of_nat ?i + 1 :: cint) = word_of_nat (Suc ?i)" "(word_of_nat ?i + 2 :: cint) = word_of_nat (Suc (Suc ?i))" by simp_all
  show ?thesis
  proof (cases o1)
    case (Flag c0)
    then have "?i < length argv" "argv ! ?i = Some [45, c0, 0]" using assms(3) by simp_all
    moreover obtain x y o2 where "strchr os (sint c0) = Some (Some (x # y # o2))" "y \<noteq> 58" using c[of c0 False] assms(2) unfolding Flag opt_ok.simps by blast
    ultimately show ?thesis using Flag assms(4)
      by (simp add: getopt_def getopt_skip_at argv_at_index index_less char_at_def w)
  next
    case (Attached c0 b)
    then have "?i < length argv" "argv ! ?i = Some (45 # c0 # b @ [0])" using assms(3) by simp_all
    moreover obtain x o2 where "strchr os (sint c0) = Some (Some (x # 58 # o2))" using c[of c0 True] assms(2) unfolding Attached opt_ok.simps by blast
    moreover obtain b0 b' where "b = b0 # b'" "b0 \<noteq> 0" using assms(2) Attached by (cases b) auto
    ultimately show ?thesis using Attached assms(4)
      by (simp add: getopt_def getopt_arg_def getopt_skip_at argv_at_index index_less char_at_def w)
  next
    case (Separate c0 b)
    then have "?i < length argv" "argv ! ?i = Some [45, c0, 0]" "Suc ?i < length argv" "argv ! Suc ?i = Some (b @ [0])"
      using assms(3) by (simp_all add: nth_append)
    moreover obtain x o2 where "strchr os (sint c0) = Some (Some (x # 58 # o2))" using c[of c0 True] assms(2) unfolding Separate opt_ok.simps by blast
    moreover have "(b @ [0]) ! 0 \<noteq> 45" using assms(2) Separate by (cases b) auto
    moreover have "(word_of_nat ?i + 1 :: cint) <s word_of_nat (length argv)" "argv_at argv (word_of_nat ?i + 1) = Some (argv ! Suc ?i)"
      unfolding w(1) using index_less[of "Suc ?i" "length argv"] argv_at_index[of "Suc ?i" argv] calculation(3) assms(4) by (simp_all del: of_nat_Suc)
    moreover have "char_at os 0 = Ret o0" by (simp add: os char_at_def)
    ultimately show ?thesis using Separate assms(4)
      by (simp add: getopt_def getopt_arg_def getopt_skip_at argv_at_index index_less char_at_def Let_def)
  qed
qed

lemma getopt_run_ok:
  assumes "cstr os s" "\<forall>o1 \<in> set oo. opt_ok s o1" "argv = pre @ concat (map opt_argv oo) @ post" "length argv < 2 ^ 31"
  shows "\<exists>a'. getopt_run (length oo) (word_of_nat (length argv)) argv os \<lparr>optarg = a, optind = word_of_nat (length pre)\<rparr> =
    Ret (map opt_val oo, \<lparr>optarg = a', optind = word_of_nat (length pre + length (concat (map opt_argv oo)))\<rparr>)"
  using assms(2,3)
proof (induction oo arbitrary: pre a)
  case (Cons o1 oo)
  let ?pre = "pre @ opt_argv o1"
  have s: "getopt (word_of_nat (length argv)) argv os \<lparr>optarg = a, optind = word_of_nat (length pre)\<rparr> =
      Ret (fst (opt_val o1), \<lparr>optarg = snd (opt_val o1), optind = word_of_nat (length ?pre)\<rparr>)"
    using getopt_step[OF assms(1), of o1 argv pre "concat (map opt_argv oo) @ post" a] Cons.prems assms(4) by simp
  have "argv = ?pre @ concat (map opt_argv oo) @ post" using Cons.prems(2) by simp
  from Cons.IH[OF _ this, of "snd (opt_val o1)"] Cons.prems(1) obtain a' where
    r: "getopt_run (length oo) (word_of_nat (length argv)) argv os \<lparr>optarg = snd (opt_val o1), optind = word_of_nat (length ?pre)\<rparr> =
      Ret (map opt_val oo, \<lparr>optarg = a', optind = word_of_nat (length ?pre + length (concat (map opt_argv oo)))\<rparr>)" by auto
  have l: "length ?pre + length (concat (map opt_argv oo)) = length pre + length (concat (map opt_argv (o1 # oo)))" by simp
  show ?case unfolding list.size(4) add_Suc_right add_0_right getopt_run.simps s bind_out.simps prod.case r[unfolded l]
    by (auto simp del: of_nat_add)
qed auto

section \<open>Properties\<close>

text \<open>
  C19: what \<open>vsnprintf\<close> prints \<open>sscanf\<close> reads. Any list of \<open>long\<close> values printed with the format \<open>%ld %ld ... %ld\<close> into a
  buffer of at least 23 bytes for each and one more is read back by the same format as the same values, and all of them
  are counted.
\<close>

theorem printf_scanf_roundtrip:
  assumes "23 * length ns < sz" "sz \<le> length m"
  shows "\<exists>k m'. vsnprintf rnd 0 sz (lit (ld_fmt (length ns))) (map VLong ns) m = Some (k, m') \<and>
    sscanf F m' (lit (ld_fmt (length ns))) (replicate (length ns) PLong) = Ret (word_of_nat (length ns), map SLong ns)"
proof -
  let ?t = "ld_texts ns" and ?f = "lit (ld_fmt (length ns))" and ?r = "drop (length (ld_texts ns) + 1) m"
  have "format_ref rnd ?f (map VLong ns) = Some ?t" using print_lds[of rnd ns "[]"] by (simp add: format_ref_def)
  moreover have "length ?t < sz" using ld_texts_length[of ns] assms(1) by simp
  ultimately have "vsnprintf rnd 0 sz ?f (map VLong ns) m = Some (length ?t, ?t @ 0 # ?r)"
    using vsnprintf_short[of rnd ?f "map VLong ns" ?t sz 0 m] assms(2) by simp
  moreover have "cstr (?t @ 0 # ?r) ?t" using ld_texts_nz by (auto simp: cstr_def)
  then have "strchr (?t @ 0 # ?r) 0 = Some (Some (0 # ?r))" using strchr_nul by fastforce
  then have "sscanf F (?t @ 0 # ?r) ?f (replicate (length ns) PLong) = Ret (word_of_nat (length ns), map SLong ns)"
    using scan_lds[of F ?r ns 0 "[]"] by (simp add: sscanf_def vsscanf_def)
  ultimately show ?thesis by blast
qed

definition fpu0 :: fpu where "fpu0 = \<lparr>rnd_ld = LFin, rnd_d = LFin, rnd_f = LFin\<rparr>"

theorem printf_scanf_roundtrip_witness:
  "\<exists>k m'. vsnprintf id 0 60 (lit ''%ld %ld'') [VLong (- 7), VLong 42] (replicate 60 0) = Some (k, m') \<and>
    sscanf fpu0 m' (lit ''%ld %ld'') [PLong, PLong] = Ret (2, [SLong (- 7), SLong 42])"
proof -
  have l: "23 * length [- 7 :: long, 42] < 60" "60 \<le> length (replicate 60 (0 :: byte))" by simp_all
  have f: "ld_fmt (length [- 7 :: long, 42]) = ''%ld %ld''" "replicate (length [- 7 :: long, 42]) PLong = [PLong, PLong]"
    "word_of_nat (length [- 7 :: long, 42]) = (2 :: cint)" by (simp_all add: numeral_2_eq_2)
  show ?thesis using printf_scanf_roundtrip[OF l, of id fpu0, unfolded f list.map] .
qed

text \<open>
  C18: \<open>getopt\<close>. On a command line of options from the option string, without argument, with the argument in the same
  word or in the next one, the calls return exactly these options with their arguments, in order; the call behind the last
  option returns -1 with \<open>optind\<close> at the first operand.
\<close>

theorem getopt_parses:
  assumes "cstr os s" "\<forall>o1 \<in> set oo. opt_ok s o1" "argv = pre @ concat (map opt_argv oo) @ post" "length argv < 2 ^ 31"
    and "post = [] \<or> (\<exists>c w. hd post = Some (c # w) \<and> c \<noteq> 45)"
  shows "\<exists>a'. let argc = word_of_nat (length argv); i = word_of_nat (length argv - length post) in
    getopt_run (length oo) argc argv os \<lparr>optarg = a, optind = word_of_nat (length pre)\<rparr> =
      Ret (map opt_val oo, \<lparr>optarg = a', optind = i\<rparr>) \<and>
    getopt argc argv os \<lparr>optarg = a', optind = i\<rparr> = Ret (- 1, \<lparr>optarg = None, optind = i\<rparr>)"
proof -
  let ?i = "length pre + length (concat (map opt_argv oo))"
  have i: "length argv - length post = ?i" using assms(3) by simp
  have e: "getopt (word_of_nat (length argv)) argv os \<lparr>optarg = a', optind = word_of_nat ?i\<rparr> = Ret (- 1, \<lparr>optarg = None, optind = word_of_nat ?i\<rparr>)"
    for a'
  proof (cases "post = []")
    case True
    then have "?i = length argv" using assms(3) by simp
    then show ?thesis using getopt_end[OF assms(4)] by simp
  next
    case False
    then obtain c w post' where p: "post = Some (c # w) # post'" "c \<noteq> 45" using assms(5) by (cases post) auto
    have "argv ! ?i = Some (c # w)" "?i < length argv" unfolding assms(3) p(1)
      by (metis append_assoc length_append nth_append_length) simp
    then show ?thesis using getopt_operand assms(4) p(2) by blast
  qed
  show ?thesis unfolding i Let_def using getopt_run_ok[OF assms(1-4)] e by blast
qed

theorem getopt_parses_witness:
  "\<exists>a'. getopt_run 2 4 [Some (lit ''prog''), Some (lit ''-v''), Some (lit ''-ofile''), Some (lit ''x'')] (lit ''vo:'')
      \<lparr>optarg = None, optind = 1\<rparr> =
    Ret ([(118, None), (111, Some (lit ''file''))], \<lparr>optarg = a', optind = 3\<rparr>)"
proof -
  let ?oo = "[Flag 118, Attached 111 (bytes_of ''file'')]" and ?pre = "[Some (lit ''prog'')]" and ?post = "[Some (lit ''x'')]"
  let ?argv = "?pre @ concat (map opt_argv ?oo) @ ?post"
  have c: "cstr (lit ''vo:'') (bytes_of ''vo:'')" by (simp add: lit_def bytes_of_def)
  have o: "\<forall>o1 \<in> set ?oo. opt_ok (bytes_of ''vo:'') o1" by (simp add: bytes_of_def)
  have a: "?argv = [Some (lit ''prog''), Some (lit ''-v''), Some (lit ''-ofile''), Some (lit ''x'')]"
    by (simp add: lit_def bytes_of_def)
  have p: "?post = [] \<or> (\<exists>c w. hd ?post = Some (c # w) \<and> c \<noteq> 45)" by (simp add: lit_def bytes_of_def)
  have v: "map opt_val ?oo = [(118, None), (111, Some (lit ''file''))]" by (simp add: lit_def)
  have l: "length ?argv < 2 ^ 31" "word_of_nat (length ?argv) = (4 :: cint)" "word_of_nat (length ?argv - length ?post) = (3 :: cint)"
    "word_of_nat (length ?pre) = (1 :: cint)" "length ?oo = 2" by (simp_all add: lit_def bytes_of_def)
  from getopt_parses[OF c o refl l(1) p, of None, unfolded Let_def l(2-5) v] show ?thesis unfolding a by blast
qed

text \<open>
  C40: the word \<open>-\<close> alone, which by convention stands for the standard input, makes \<open>getopt\<close> read behind the option
  string: the search for the terminating zero of the word succeeds, and the byte behind it is tested for a colon.
\<close>

theorem getopt_dash:
  assumes "0 \<notin> set s" "i < length argv" "length argv < 2 ^ 31" "argv ! i = Some [45, 0]"
  shows "getopt (word_of_nat (length argv)) argv (s @ [0]) \<lparr>optarg = a, optind = word_of_nat i\<rparr> = Fault"
proof -
  have "strchr (s @ [0]) (sint (0 :: byte)) = Some (Some [0])" using strchr_nul[OF cstr_canonical[OF assms(1)]] by simp
  then show ?thesis using assms(2-4) by (simp add: getopt_def getopt_skip_at argv_at_index index_less char_at_def)
qed

theorem getopt_dash_witness:
  "getopt 2 [Some (lit ''cat''), Some (lit ''-'')] (lit ''n'') \<lparr>optarg = None, optind = 1\<rparr> = Fault"
proof -
  let ?argv = "[Some (lit ''cat''), Some (lit ''-'')]"
  have "argv = ?argv \<Longrightarrow> word_of_nat (length argv) = (2 :: cint)" for argv by simp
  then show ?thesis using getopt_dash[of "bytes_of ''n''" 1 ?argv None] by (simp add: lit_def bytes_of_def)
qed

lemma pow10_exact: "pow_loop fpu0 n (LFin 10) (LFin q) = LFin (q * 10 ^ n)"
  by (induction n arbitrary: q) (simp_all add: fpu0_def mult.assoc)

lemma pow_c_exact: "0 < n \<Longrightarrow> n < 2 ^ 63 \<Longrightarrow> pow_c fpu0 (LFin 10) (rnd_d fpu0 (of_nat n)) = Ret (LFin (10 ^ n))"
  using pow10_exact[of n 1] by (simp add: pow_c_def Let_def) (simp add: fpu0_def fsub_def)

lemma sint_word_of_int: "- (2 ^ 63) \<le> i \<Longrightarrow> i < 2 ^ 63 \<Longrightarrow> sint (word_of_int i :: long) = i"
  by (simp add: sint_sbintrunc' signed_take_bit_int_eq_self)

lemma digits_val_nonneg: "\<forall>d \<in> set ds. isdigit (sint d) \<Longrightarrow> 0 \<le> digits_val 10 ds"
proof (induction ds rule: rev_induct)
  case (snoc d ds)
  have "0 \<le> digit_val d" using snoc.prems by (auto simp: digit_val_def isdigit_def tolower_def isalpha_def isupper_def islower_def)
  then show ?case using snoc by (simp add: digits_val_snoc)
qed (simp add: digits_val_def)

lemma strtol_digits10:
  assumes "sg = [] \<or> sg = [45]" "ds \<noteq> []" "\<forall>d \<in> set ds. isdigit (sint d)" "\<not> isdigit (sint c)" "0 \<in> set (c # rest)"
    and "digits_val 10 ds < 2 ^ 63"
  shows "\<exists>v. strtol (sg @ ds @ c # rest) 10 = Some (v, Some (c # rest), None) \<and>
    sint v = (if sg = [45] then - digits_val 10 ds else digits_val 10 ds)"
proof -
  let ?v = "(if sg = [45] then - 1 else 1) * digits_val 10 ds"
  have "strtol ([] @ sg @ ds @ c # rest) 10 = Some (word_of_int ?v, Some (c # rest), None)"
    using assms(1-5) by (intro strtol_num[of 10 isdigit]) auto
  moreover have "sint (word_of_int ?v :: long) = ?v"
    using assms(6) digits_val_nonneg[OF assms(3)] by (intro sint_word_of_int) (auto split: if_splits)
  ultimately show ?thesis by auto
qed

text \<open>
  reading a decimal fraction. With exact arithmetic, \<open>strtold\<close> of digits, a point and digits gives their value, unless
  the number is negative and its integer part is 0; it stops behind the digits.
\<close>

theorem strtold_decimal:
  assumes "sg = [] \<or> sg = [45]" "ds \<noteq> []" "\<forall>d \<in> set (ds @ fs). isdigit (sint d)" "fs \<noteq> []"
    and "digits_val 10 ds < 2 ^ 63" "digits_val 10 fs < 2 ^ 63" "length fs < 2 ^ 63"
    and "\<not> isdigit (sint c)" "tolower (sint c) \<noteq> 101" "0 \<in> set (c # rest)" "sg = [45] \<longrightarrow> 0 < digits_val 10 ds"
  shows "strtold fpu0 (sg @ ds @ 46 # fs @ c # rest) =
    Ret (LFin ((if sg = [45] then - 1 else 1) * (of_int (digits_val 10 ds) + of_int (digits_val 10 fs) / 10 ^ length fs)), c # rest)"
proof -
  let ?x = "if sg = [45] then - digits_val 10 ds else digits_val 10 ds"
  have p: "\<not> isdigit (sint (46 :: byte))" "0 \<in> set (46 # fs @ c # rest)" using assms(10) by (auto simp: isdigit_def)
  have d: "\<forall>d \<in> set ds. isdigit (sint d)" "\<forall>d \<in> set fs. isdigit (sint d)" using assms(3) by auto
  obtain v where v: "strtol (sg @ ds @ 46 # fs @ c # rest) 10 = Some (v, Some (46 # fs @ c # rest), None)" "sint v = ?x"
    using strtol_digits10[OF assms(1,2) d(1) p assms(5)] by blast
  obtain w where w: "strtol (fs @ c # rest) 10 = Some (w, Some (c # rest), None)" "sint w = digits_val 10 fs"
    using strtol_digits10[OF _ assms(4) d(2) assms(8,10,6), of "[]"] by auto
  have l: "0 < length fs" using assms(4) by simp
  have n: "negative (LFin (of_int ?x)) \<longleftrightarrow> sg = [45]" using assms(11) digits_val_nonneg[OF d(1)] by auto
  have "strtold_frac fpu0 (LFin (of_int ?x)) (46 # fs @ c # rest) =
      Ret (LFin ((if sg = [45] then - 1 else 1) * (of_int (digits_val 10 ds) + of_int (digits_val 10 fs) / 10 ^ length fs)), c # rest)"
    using w pow_c_exact[OF l assms(7)] n l
    by (simp add: strtold_frac_def Let_def) (simp add: fpu0_def fsub_def)
  then show ?thesis using v assms(9) by (simp add: strtold_def strtold_exp_def)
qed

theorem strtold_decimal_witness: "strtold fpu0 (lit ''-12.50;'') = Ret (LFin (- (25 / 2)), lit '';'')"
proof -
  have e: "lit ''-12.50;'' = [45] @ bytes_of ''12'' @ 46 # bytes_of ''50'' @ 59 # [0]" "lit '';'' = [59, 0]" by (simp_all add: lit_def bytes_of_def)
  have d: "bytes_of ''12'' = [49, 50]" "bytes_of ''50'' = [53, 48]" by (simp_all add: bytes_of_def)
  have v: "digits_val 10 (bytes_of ''12'') = 12" "digits_val 10 (bytes_of ''50'') = 50" by code_simp+
  have "strtold fpu0 ([45] @ bytes_of ''12'' @ 46 # bytes_of ''50'' @ 59 # [0]) =
      Ret (LFin ((if [45 :: byte] = [45] then - 1 else 1) * (of_int (digits_val 10 (bytes_of ''12'')) +
        of_int (digits_val 10 (bytes_of ''50'')) / 10 ^ length (bytes_of ''50''))), [59, 0])"
    by (rule strtold_decimal) (simp_all add: v, simp_all add: d isdigit_def tolower_def isalpha_def isupper_def islower_def)
  then show ?thesis unfolding e v by (simp add: d)
qed

text \<open>The exception is real: the sign of \<open>-0.5\<close> is lost.\<close>

lemma strtold_minus_zero: "strtold fpu0 (lit ''-0.5'') = Ret (LFin (1 / 2), [0])"
  by code_simp

end
