(* ===== verification/Litc_Dir.thy ===== *)
theory Litc_Dir
  imports Litc_Stdio
begin

unbundle bit_operations_syntax

text \<open>
  Directory streams (\<open>litc.c\<close>): \<open>fdopendir\<close>, \<open>opendir\<close>, \<open>readdir\<close>, \<open>readdir_r\<close>, \<open>rewinddir\<close>, \<open>closedir\<close>.

  \<open>fdopendir\<close> reads the directory twice: it counts the entries, allocates, and copies them. A \<open>DIR\<close> is a record in a
  store; its flexible array is the list of bytes that the allocation has room for, so that a store behind it is \<open>Fault\<close>.
  The array and the buffer on the stack are not initialised; they are zero here. The loops over the buffers and
  over the records of a buffer need not end (a record may have the length 0); their results are options.
\<close>

section \<open>State\<close>

definition SEEK_SET :: cint where "SEEK_SET = 1"
definition ENOTDIR :: cint where "ENOTDIR = 20"
definition BSIZE :: nat where "BSIZE = 4096"
definition s_POSIX_NAME_MAX :: nat where "s_POSIX_NAME_MAX = 14"

definition S_ISDIR_c :: "cint \<Rightarrow> bool" where "S_ISDIR_c m \<longleftrightarrow> m AND 0xf000 = 0x4000"

text \<open>\<open>sizeof(DIR)\<close> and \<open>sizeof(struct dirent)\<close>: an inode number, the name, and two bytes of padding.\<close>

definition DIRSZ :: nat where "DIRSZ = 16"
definition DIRENTSZ :: nat where "DIRENTSZ = 24"

record DIR_c =
  d_fd :: cint
  cent :: cint
  nent :: cint
  dents :: mem

record 'k dio =
  dmem :: "'k mstate"
  dirs :: "long \<Rightarrow> DIR_c option"

abbreviation dproc :: "'k dio \<Rightarrow> 'k proc" where "dproc st \<equiv> mproc (dmem st)"

definition dset :: "'k proc \<Rightarrow> 'k dio \<Rightarrow> 'k dio" where
  "dset p st = st\<lparr>dmem := (dmem st)\<lparr>mproc := p\<rparr>\<rparr>"

text \<open>The fields of \<open>struct _dirent64_t\<close>, which is packed, at an offset of the buffer.\<close>

definition de_inode :: "byte list \<Rightarrow> nat \<Rightarrow> long" where
  "de_inode buf i = from_le (take 8 (drop i buf))"

definition de_reclen :: "byte list \<Rightarrow> nat \<Rightarrow> nat" where
  "de_reclen buf i = unat (from_le (take 2 (drop (i + 16) buf)) :: 16 word)"

definition de_name :: "byte list \<Rightarrow> nat \<Rightarrow> byte list" where
  "de_name buf i = drop (i + 19) buf"

section \<open>Reading a directory\<close>

text \<open>The loop \<open>while (i < r)\<close> over the records of a buffer, with what is done for each record as a parameter.\<close>

partial_function (option) ent_scan ::
  "(byte list \<Rightarrow> nat \<Rightarrow> 's \<Rightarrow> 's outcome) \<Rightarrow> byte list \<Rightarrow> nat \<Rightarrow> nat \<Rightarrow> 's \<Rightarrow> 's outcome option"
where
  "ent_scan step buf r i s =
     (if i < r then
        if i + 19 < length buf then
          bind_loop (step buf i s) (\<lambda>s'. ent_scan step buf r (i + de_reclen buf i) s')
        else Some Fault
      else Some (Ret s))"

definition count_step :: "byte list \<Rightarrow> nat \<Rightarrow> nat \<Rightarrow> nat outcome" where
  "count_step buf i c = Ret (if buf ! (i + 19) \<noteq> 0 then c + 1 else c)"

definition fill_step :: "byte list \<Rightarrow> nat \<Rightarrow> nat \<times> mem \<Rightarrow> (nat \<times> mem) outcome" where
  "fill_step buf i jm =
     (case jm of (j, m) \<Rightarrow>
        if buf ! (i + 19) \<noteq> 0 then
          (case storen m (DIRENTSZ * j) (to_le 8 (de_inode buf i)) of None \<Rightarrow> Fault
           | Some m1 \<Rightarrow> (case strncpy (DIRENTSZ * j + 8) (de_name buf i) s_POSIX_NAME_MAX m1 of None \<Rightarrow> Fault
               | Some (_, m2) \<Rightarrow> Ret (j + 1, m2)))
        else Ret (j, m))"

text \<open>The loop \<open>while ((r = getdents64(fd, buf, sizeof(buf))) > 0)\<close>: the last result, the state, the buffer.\<close>

partial_function (option) dir_scan ::
  "'k kernel \<Rightarrow> cint \<Rightarrow> (byte list \<Rightarrow> nat \<Rightarrow> 's \<Rightarrow> 's outcome) \<Rightarrow> byte list \<Rightarrow> 's \<Rightarrow> 'k proc \<Rightarrow>
   (long \<times> 's \<times> byte list \<times> 'k proc) outcome option"
where
  "dir_scan K fd step buf s p =
     (case getdents64 K fd (SP buf) (word_of_nat BSIZE) p of (r, as, p1) \<Rightarrow>
        if 0 <s r then
          Option.bind (ent_scan step (obj (as ! 1)) (unat r) 0 s) (\<lambda>o1.
            bind_loop o1 (\<lambda>s'. dir_scan K fd step (obj (as ! 1)) s' p1))
        else Some (Ret (r, s, obj (as ! 1), p1)))"

text \<open>The label \<open>out\<close>.\<close>

definition dir_out :: "'k kernel \<Rightarrow> long \<Rightarrow> 'k dio \<Rightarrow> (long \<times> 'k dio) outcome" where
  "dir_out K ret st = bind_out (free K ret (dmem st)) (\<lambda>ms. Ret (0, st\<lparr>dmem := ms\<rparr>))"

text \<open>The second pass, into the object at \<open>ret\<close> with room for \<open>c\<close> entries.\<close>

definition fdopendir_fill ::
  "'k kernel \<Rightarrow> cint \<Rightarrow> nat \<Rightarrow> long \<Rightarrow> byte list \<Rightarrow> 'k dio \<Rightarrow> (long \<times> 'k dio) outcome option"
where
  "fdopendir_fill K fd c ret buf st =
     (case lseek K fd 0 SEEK_SET (dproc st) of (o1, _, p1) \<Rightarrow>
        if o1 = - 1 then Some (dir_out K ret (dset p1 st))
        else
          Option.bind (dir_scan K fd fill_step buf (0, replicate (DIRENTSZ * c) 0) p1) (\<lambda>o2.
            bind_loop o2 (\<lambda>(r, (_, m), _, p2).
              let st2 = dset p2 st in
              if r = - 1 then Some (dir_out K ret st2)
              else Some (Ret (ret, st2\<lparr>dirs := (dirs st2)(ret \<mapsto> \<lparr>d_fd = fd, cent = 0, nent = word_of_nat c, dents = m\<rparr>)\<rparr>)))))"

definition fdopendir :: "'k kernel \<Rightarrow> cint \<Rightarrow> 'k dio \<Rightarrow> (long \<times> 'k dio) outcome option" where
  "fdopendir K fd st =
     (case fstat K fd (SP (replicate STATSZ 0)) (dproc st) of (r, as, p) \<Rightarrow>
        if r = - 1 then Some (Ret (0, dset p st))
        else if \<not> S_ISDIR_c (stat_mode (obj (as ! 1))) then Some (Ret (0, dset (p\<lparr>errno := ENOTDIR\<rparr>) st))
        else (case lseek K fd 0 SEEK_SET p of (o1, _, p1) \<Rightarrow>
          if o1 = - 1 then Some (Ret (0, dset p1 st))
          else
            Option.bind (dir_scan K fd count_step (replicate BSIZE 0) 0 p1) (\<lambda>o2.
              bind_loop o2 (\<lambda>(r, c, buf, p2).
                let st2 = dset p2 st in
                if r = - 1 then Some (Ret (0, st2))
                else if c > (2 ^ 64 - 1 - DIRSZ) div DIRENTSZ then Some (Errx (- 1) ''very fat dir'')
                else bind_loop (malloc K (word_of_nat (DIRSZ + c * DIRENTSZ)) (dmem st2)) (\<lambda>(ret, ms).
                  if ret = 0 then Some (Ret (0, st2\<lparr>dmem := ms\<rparr>))
                  else fdopendir_fill K fd c ret buf (st2\<lparr>dmem := ms\<rparr>))))))"

definition opendir_c :: "'k kernel \<Rightarrow> byte list \<Rightarrow> 'k dio \<Rightarrow> (long \<times> 'k dio) outcome option" where
  "opendir_c K path st =
     (case open_c K path (O_RDONLY OR O_DIRECTORY) 0 (dproc st) of (fd, _, p) \<Rightarrow>
        if fd = - 1 then Some (Ret (0, dset p st)) else fdopendir K fd (dset p st))"

definition closedir_c :: "'k kernel \<Rightarrow> long \<Rightarrow> 'k dio \<Rightarrow> (cint \<times> 'k dio) outcome" where
  "closedir_c K d st =
     (case dirs st d of None \<Rightarrow> Fault
      | Some x \<Rightarrow>
          bind_out (free K d (dmem st)) (\<lambda>ms.
            case close K (d_fd x) (mproc ms) of (r, _, p) \<Rightarrow>
              Ret (r, dset p (st\<lparr>dmem := ms, dirs := (dirs st)(d := None)\<rparr>))))"

text \<open>The entry is copied to the caller's object: \<open>None\<close> is the null pointer in \<open>*ret\<close>. The result is always 0.\<close>

definition readdir_r :: "long \<Rightarrow> 'k dio \<Rightarrow> (byte list option \<times> 'k dio) outcome" where
  "readdir_r d st =
     (case dirs st d of None \<Rightarrow> Fault
      | Some x \<Rightarrow>
          if cent x = nent x then Ret (None, st)
          else (case loadn (dents x) (DIRENTSZ * unat (cent x)) DIRENTSZ of None \<Rightarrow> Fault
            | Some e \<Rightarrow> Ret (Some e, st\<lparr>dirs := (dirs st)(d \<mapsto> x\<lparr>cent := cent x + 1\<rparr>)\<rparr>)))"

definition readdir_c :: "long \<Rightarrow> 'k dio \<Rightarrow> (byte list option \<times> 'k dio) outcome" where
  "readdir_c d st = readdir_r d st"

definition rewinddir :: "long \<Rightarrow> 'k dio \<Rightarrow> ('k dio) outcome" where
  "rewinddir d st =
     (case dirs st d of None \<Rightarrow> Fault | Some x \<Rightarrow> Ret (st\<lparr>dirs := (dirs st)(d \<mapsto> x\<lparr>cent := 0\<rparr>)\<rparr>))"

section \<open>What the kernel delivers\<close>

text \<open>A directory is a list of inode numbers and names; a record of the kernel's format for an entry.\<close>

definition dirent_rec :: "long \<times> byte list \<Rightarrow> byte list \<Rightarrow> bool" where
  "dirent_rec e rec \<longleftrightarrow> 20 \<le> length rec \<and> length rec < 65536 \<and> take 8 rec = to_le 8 (fst e) \<and>
     take 2 (drop 16 rec) = to_le 2 (word_of_nat (length rec) :: 16 word) \<and> cstr (drop 19 rec) (snd e)"

text \<open>
  \<open>ents\<close> is the directory behind \<open>fd\<close> and \<open>left\<close> what is still to be read: \<open>lseek\<close> starts again, and
  \<open>getdents64\<close> delivers records of some entries, at least one as long as there is any.
\<close>

definition lists_dir :: "'k kernel \<Rightarrow> cint \<Rightarrow> (long \<times> byte list) list \<Rightarrow> ('k \<Rightarrow> (long \<times> byte list) list) \<Rightarrow> bool" where
  "lists_dir K fd ents left \<longleftrightarrow>
     (\<forall>w k r as k'. K SYS_LSEEK [SAi fd, SA 0, SAi SEEK_SET, w, SA 0, SA 0] k = (r, as, k') \<longrightarrow> r = 0 \<and> left k' = ents) \<and>
     (\<forall>buf w k r as k'. K SYS_GETDENTS64 [SAi fd, SP buf, SA (word_of_nat BSIZE), w, SA 0, SA 0] k = (r, as, k') \<longrightarrow>
        length buf = BSIZE \<longrightarrow>
        (\<exists>es rs as'. left k = es @ left k' \<and> (es = [] \<longrightarrow> left k = []) \<and> list_all2 dirent_rec es rs \<and>
           length (concat rs) \<le> BSIZE \<and> r = word_of_nat (length (concat rs)) \<and>
           as = SAi fd # SP (concat rs @ drop (length (concat rs)) buf) # as'))"

text \<open>The entries that the library shows, and an entry as the library stores it.\<close>

abbreviation named :: "(long \<times> byte list) list \<Rightarrow> (long \<times> byte list) list" where
  "named es \<equiv> filter (\<lambda>e. snd e \<noteq> []) es"

definition dirent_of :: "long \<times> byte list \<Rightarrow> byte list \<Rightarrow> bool" where
  "dirent_of e b \<longleftrightarrow> length b = DIRENTSZ \<and> take 8 b = to_le 8 (fst e) \<and> cstr (drop 8 b) (take s_POSIX_NAME_MAX (snd e))"

definition filled :: "(long \<times> byte list) list \<Rightarrow> mem \<Rightarrow> bool" where
  "filled es m \<longleftrightarrow> (\<forall>i < length es. dirent_of (es ! i) (take DIRENTSZ (drop (DIRENTSZ * i) m)))"

fun readdir_run :: "nat \<Rightarrow> long \<Rightarrow> 'k dio \<Rightarrow> (byte list option list \<times> 'k dio) outcome" where
  "readdir_run 0 d st = Ret ([], st)"
| "readdir_run (Suc n) d st =
     bind_out (readdir_c d st) (\<lambda>(e, st1). bind_out (readdir_run n d st1) (\<lambda>(es, st2). Ret (e # es, st2)))"

section \<open>The loops\<close>

lemma rec_pos:
  assumes "dirent_rec e rec"
  shows "20 \<le> length rec" "length rec < 65536" "cstr (drop 19 rec @ x) (snd e)"
  using assms by (auto simp: dirent_rec_def cstr_def)

lemma rec_name:
  assumes "dirent_rec e rec"
  shows "(pre @ rec @ post) ! (length pre + 19) \<noteq> 0 \<longleftrightarrow> snd e \<noteq> []" "de_reclen (pre @ rec @ post) (length pre) = length rec"
    "de_inode (pre @ rec @ post) (length pre) = fst e" "cstr (de_name (pre @ rec @ post) (length pre)) (snd e)"
proof -
  note l = rec_pos(1,2)[OF assms]
  have t: "take 8 rec = to_le 8 (fst e)" "take 2 (drop 16 rec) = to_le 2 (word_of_nat (length rec) :: 16 word)"
    "cstr (drop 19 rec) (snd e)" using assms by (auto simp: dirent_rec_def)
  obtain c cs where c: "drop 19 rec = c # cs" using l(1) by (cases "drop 19 rec") auto
  have "rec ! 19 = c" using c l(1) nth_via_drop by fastforce
  then have "(pre @ rec @ post) ! (length pre + 19) = c" using l(1) by (simp add: nth_append)
  moreover have "c = 0 \<longleftrightarrow> snd e = []" using t(3) c by (cases "snd e") auto
  ultimately show "(pre @ rec @ post) ! (length pre + 19) \<noteq> 0 \<longleftrightarrow> snd e \<noteq> []" by simp
  have a: "take 2 (drop (length pre + 16) (pre @ rec @ post)) = to_le 2 (word_of_nat (length rec) :: 16 word)" using l(1) t(2) by simp
  have "unat (word_of_nat (length rec) :: 16 word) = length rec" using l(2) by (simp add: unat_of_nat)
  then show "de_reclen (pre @ rec @ post) (length pre) = length rec" unfolding de_reclen_def a by (simp add: from_le_to_le)
  have b: "take 8 (drop (length pre) (pre @ rec @ post)) = to_le 8 (fst e)" using l(1) t(1) by simp
  show "de_inode (pre @ rec @ post) (length pre) = fst e" unfolding de_inode_def b by (simp add: from_le_to_le)
  show "cstr (de_name (pre @ rec @ post) (length pre)) (snd e)" using l(1) rec_pos(3)[OF assms] by (simp add: de_name_def)
qed

text \<open>
  \<open>P es s\<close> is what a step needs of the state \<open>s\<close> when the entries \<open>es\<close> are still to come; \<open>f\<close> is what it does.
\<close>

lemma ent_scan_ok:
  assumes step: "\<And>pre e rec post es s. dirent_rec e rec \<Longrightarrow> P (e # es) s \<Longrightarrow>
      step (pre @ rec @ post) (length pre) s = Ret (f e s) \<and> P es (f e s)"
    and "list_all2 dirent_rec es rs" "P (es @ es2) s"
  shows "ent_scan step (pre @ concat rs @ post) (length pre + length (concat rs)) (length pre) s = Some (Ret (fold f es s)) \<and>
    P es2 (fold f es s)"
  using assms(2,3)
proof (induction arbitrary: pre s rule: list_all2_induct)
  case Nil
  then show ?case by (subst ent_scan.simps) simp
next
  case (Cons e es rec rs)
  let ?buf = "pre @ rec @ concat rs @ post"
  note n = rec_name[OF Cons.hyps(1), of pre "concat rs @ post"]
  have s: "step ?buf (length pre) s = Ret (f e s)" "P (es @ es2) (f e s)"
    using step[OF Cons.hyps(1), of "es @ es2" s pre "concat rs @ post"] Cons.prems by simp_all
  have "ent_scan step ((pre @ rec) @ concat rs @ post) (length (pre @ rec) + length (concat rs)) (length (pre @ rec)) (f e s) =
      Some (Ret (fold f es (f e s))) \<and> P es2 (fold f es (f e s))" by (rule Cons.IH[OF s(2)])
  moreover have "ent_scan step ?buf (length pre + length (concat (rec # rs))) (length pre) s =
      ent_scan step ?buf (length pre + length (concat (rec # rs))) (length pre + length rec) (f e s)"
  proof -
    have "length pre < length pre + length (concat (rec # rs))" "length pre + 19 < length ?buf"
      unfolding concat.simps length_append using rec_pos(1)[OF Cons.hyps(1)] by linarith+
    then show ?thesis using n(2) s(1) by (subst ent_scan.simps) (simp only: if_True bind_loop.simps)
  qed
  ultimately show ?case by (simp add: add.assoc)
qed

lemma getdents_lists:
  assumes "lists_dir K fd ents left" "length buf = BSIZE"
  shows "\<exists>es rs as k. getdents64 K fd (SP buf) (word_of_nat BSIZE) p = (word_of_nat (length (concat rs)), as, p\<lparr>kern := k\<rparr>) \<and>
    left (kern p) = es @ left k \<and> (es = [] \<longrightarrow> left (kern p) = []) \<and> list_all2 dirent_rec es rs \<and> length (concat rs) \<le> BSIZE \<and>
    obj (as ! 1) = concat rs @ drop (length (concat rs)) buf"
proof -
  let ?w = "case arch p of X86_64 rsp \<Rightarrow> SA rsp | AArch64 \<Rightarrow> SA 0"
  obtain r as k where K: "K SYS_GETDENTS64 [SAi fd, SP buf, SA (word_of_nat BSIZE), ?w, SA 0, SA 0] (kern p) = (r, as, k)"
    by (cases "K SYS_GETDENTS64 [SAi fd, SP buf, SA (word_of_nat BSIZE), ?w, SA 0, SA 0] (kern p)")
  then obtain es rs as' where e: "left (kern p) = es @ left k" "es = [] \<longrightarrow> left (kern p) = []" "list_all2 dirent_rec es rs"
    "length (concat rs) \<le> BSIZE" "r = word_of_nat (length (concat rs))" "as = SAi fd # SP (concat rs @ drop (length (concat rs)) buf) # as'"
    using assms unfolding lists_dir_def by blast
  have "length (concat rs) < 2 ^ 31" using e(4) by (simp add: BSIZE_def)
  then have u: "unat r < 2 ^ 31" unfolding e(5) by (simp add: unat_word_of_nat_small)
  have "syscall K [SAi fd, SP buf, SA (word_of_nat BSIZE), SA 0, SA 0] SYS_GETDENTS64 p = (r, as, p\<lparr>kern := k\<rparr>)" using K by (simp add: syscall_5)
  moreover have "\<not> r <s 0" using u by (intro long_nonneg) simp
  ultimately have "getdents64 K fd (SP buf) (word_of_nat BSIZE) p = (r, as, p\<lparr>kern := k\<rparr>)"
    by (simp add: getdents64_def sys_neg_l_def ERRNO_NEG_l_def)
  then show ?thesis using e by (intro exI[of _ es] exI[of _ rs] exI[of _ as] exI[of _ k]) simp
qed

lemma lseek_lists:
  assumes "lists_dir K fd ents left"
  shows "\<exists>as k. lseek K fd 0 SEEK_SET p = (0, as, p\<lparr>kern := k\<rparr>) \<and> left k = ents"
proof -
  let ?w = "case arch p of X86_64 rsp \<Rightarrow> SA rsp | AArch64 \<Rightarrow> SA 0"
  obtain r as k where K: "K SYS_LSEEK [SAi fd, SA 0, SAi SEEK_SET, ?w, SA 0, SA 0] (kern p) = (r, as, k)"
    by (cases "K SYS_LSEEK [SAi fd, SA 0, SAi SEEK_SET, ?w, SA 0, SA 0] (kern p)")
  then have r: "r = 0" "left k = ents" using assms unfolding lists_dir_def by blast+
  have "syscall K [SAi fd, SA 0, SAi SEEK_SET, SA 0, SA 0] SYS_LSEEK p = (0, as, p\<lparr>kern := k\<rparr>)" using K r(1) by (simp add: syscall_5)
  from sys_neg_small[OF this] have "lseek K fd 0 SEEK_SET p = (0, as, p\<lparr>kern := k\<rparr>)" by (simp add: lseek_def)
  then show ?thesis using r(2) by blast
qed

lemma sys_neg_l_kern: "\<exists>bs. kern (snd (snd (sys_neg_l K as trap p))) = snd (snd (K trap bs (kern p)))"
  by (rule exI[of _ "case arch p of X86_64 rsp \<Rightarrow> (as @ [SA 0])[3 := SA rsp] | AArch64 \<Rightarrow> as @ [SA 0]"])
    (auto simp: sys_neg_l_def syscall_def syscall6_def ERRNO_NEG_l_def Let_def split: prod.split)

lemma getdents_maps:
  assumes "keeps_maps K maps" "getdents64 K fd b n p = (r, as, p')"
  shows "maps (kern p') = maps (kern p)"
proof -
  obtain bs where "kern (snd (snd (getdents64 K fd b n p))) = snd (snd (K SYS_GETDENTS64 bs (kern p)))"
    unfolding getdents64_def using sys_neg_l_kern by blast
  moreover have "SYS_GETDENTS64 \<noteq> SYS_MMAP" "SYS_GETDENTS64 \<noteq> SYS_MUNMAP" by (simp_all add: SYS_GETDENTS64_def SYS_MMAP_def SYS_MUNMAP_def)
  ultimately show ?thesis using assms unfolding keeps_maps_def by simp
qed

lemma dir_scan_ok:
  assumes step: "\<And>pre e rec post es s. dirent_rec e rec \<Longrightarrow> P (e # es) s \<Longrightarrow>
      step (pre @ rec @ post) (length pre) s = Ret (f e s) \<and> P es (f e s)"
    and K: "lists_dir K fd ents left" "keeps_maps K maps" and "length buf = BSIZE" "P (left (kern p)) s"
  shows "\<exists>buf' p'. dir_scan K fd step buf s p = Some (Ret (0, fold f (left (kern p)) s, buf', p')) \<and>
    P [] (fold f (left (kern p)) s) \<and> length buf' = BSIZE \<and> maps (kern p') = maps (kern p)"
  using assms(4,5)
proof (induction "length (left (kern p))" arbitrary: buf p s rule: less_induct)
  case less
  obtain es rs as k where g: "getdents64 K fd (SP buf) (word_of_nat BSIZE) p = (word_of_nat (length (concat rs)), as, p\<lparr>kern := k\<rparr>)"
    "left (kern p) = es @ left k" "es = [] \<longrightarrow> left (kern p) = []" "list_all2 dirent_rec es rs" "length (concat rs) \<le> BSIZE"
    "obj (as ! 1) = concat rs @ drop (length (concat rs)) buf" using getdents_lists[OF K(1) less.prems(1), of p] by blast
  let ?n = "length (concat rs)" and ?b = "concat rs @ drop (length (concat rs)) buf"
  have mp: "maps k = maps (kern p)" using getdents_maps[OF K(2) g(1)] by simp
  have b: "length ?b = BSIZE" using g(5) less.prems(1) by simp
  have u: "unat (word_of_nat ?n :: long) = ?n" using g(5) by (simp add: unat_word_of_nat_small BSIZE_def)
  show ?case
  proof (cases "es = []")
    case True
    then have "rs = []" "left (kern p) = []" using g(3,4) by auto
    then show ?thesis using g(1,6) mp b less.prems by (subst dir_scan.simps) auto
  next
    case False
    then obtain e es' where "es = e # es'" by (cases es) auto
    then obtain rec rs' where r: "rs = rec # rs'" "dirent_rec e rec" using g(4) by (auto simp: list_all2_Cons1)
    have "0 < ?n" unfolding r(1) concat.simps length_append using rec_pos(1)[OF r(2)] by linarith
    then have pos: "0 <s (word_of_nat ?n :: long)"
      using u g(5) sint_long_small[of "word_of_nat ?n"] by (simp add: word_sless_alt BSIZE_def uint_nat)
    have e: "ent_scan step ?b ?n 0 s = Some (Ret (fold f es s))" "P (left k) (fold f es s)"
      using ent_scan_ok[where P = P and step = step and f = f and pre = "[]" and post = "drop ?n buf", OF step g(4), of "left k" s] less.prems(2) g(2)
      by simp_all
    have "length (left k) < length (left (kern p))" using g(2) False by simp
    from less.hyps[of "p\<lparr>kern := k\<rparr>" ?b "fold f es s"] this b e(2) obtain buf' p' where
      i: "dir_scan K fd step ?b (fold f es s) (p\<lparr>kern := k\<rparr>) = Some (Ret (0, fold f (left k) (fold f es s), buf', p'))"
      "P [] (fold f (left k) (fold f es s))" "length buf' = BSIZE" "maps (kern p') = maps k" by auto
    have "dir_scan K fd step buf s p = dir_scan K fd step ?b (fold f es s) (p\<lparr>kern := k\<rparr>)"
      using g(1,6) pos e(1) u by (subst dir_scan.simps) simp
    then show ?thesis using i g(2) mp by simp
  qed
qed

subsection \<open>Counting and copying\<close>

definition countf :: "long \<times> byte list \<Rightarrow> nat \<Rightarrow> nat" where
  "countf e c = (if snd e \<noteq> [] then c + 1 else c)"

definition put_ent :: "long \<times> byte list \<Rightarrow> nat \<Rightarrow> mem \<Rightarrow> mem" where
  "put_ent e p m = take p m @ to_le 8 (fst e) @ take 14 (snd e) @ 0 # drop (p + 9 + min 14 (length (snd e))) m"

definition fillf :: "long \<times> byte list \<Rightarrow> nat \<times> mem \<Rightarrow> nat \<times> mem" where
  "fillf e jm = (if snd e \<noteq> [] then (fst jm + 1, put_ent e (DIRENTSZ * fst jm) (snd jm)) else jm)"

lemma fold_countf: "fold countf es c = c + length (named es)"
  by (induction es arbitrary: c) (simp_all add: countf_def)

lemma count_step_ok: "dirent_rec e rec \<Longrightarrow> count_step (pre @ rec @ post) (length pre) c = Ret (countf e c)"
  using rec_name(1) by (simp add: count_step_def countf_def)

lemma put_ent_facts:
  assumes "p + DIRENTSZ \<le> length m" "0 \<notin> set (snd e)"
  shows "length (put_ent e p m) = length m" "dirent_of e (take DIRENTSZ (drop p (put_ent e p m)))"
    "q + DIRENTSZ \<le> p \<Longrightarrow> take DIRENTSZ (drop q (put_ent e p m)) = take DIRENTSZ (drop q m)"
proof -
  let ?k = "min 14 (length (snd e))"
  have k: "length (take 14 (snd e)) = ?k" "?k \<le> 14" by simp_all
  have l: "p + 24 \<le> length m" using assms(1) by (simp add: DIRENTSZ_def)
  show "length (put_ent e p m) = length m" using l k(2) by (simp add: put_ent_def)
  have d: "drop p (put_ent e p m) = to_le 8 (fst e) @ take 14 (snd e) @ 0 # drop (p + 9 + ?k) m"
    using l by (simp add: put_ent_def)
  have "take DIRENTSZ (drop p (put_ent e p m)) = to_le 8 (fst e) @ take 14 (snd e) @ 0 # take (15 - ?k) (drop (p + 9 + ?k) m)"
    unfolding d DIRENTSZ_def by (simp add: take_Cons') (auto simp: min_def)
  then show "dirent_of e (take DIRENTSZ (drop p (put_ent e p m)))"
    using l k assms(2) by (auto simp: dirent_of_def DIRENTSZ_def s_POSIX_NAME_MAX_def cstr_def min_def dest: in_set_takeD)
  show "take DIRENTSZ (drop q (put_ent e p m)) = take DIRENTSZ (drop q m)" if "q + DIRENTSZ \<le> p"
    using that l by (simp add: put_ent_def DIRENTSZ_def take_drop)
qed

lemma fill_step_ok:
  assumes "dirent_rec e rec" "DIRENTSZ * j + DIRENTSZ \<le> length m \<or> snd e = []"
  shows "fill_step (pre @ rec @ post) (length pre) (j, m) = Ret (fillf e (j, m))"
proof (cases "snd e = []")
  case True
  then show ?thesis using rec_name(1)[OF assms(1)] by (simp add: fill_step_def fillf_def)
next
  case False
  let ?p = "DIRENTSZ * j" and ?k = "min 14 (length (snd e))"
  note n = rec_name[OF assms(1), of pre post]
  have l: "?p + 24 \<le> length m" using assms(2) False by (simp add: DIRENTSZ_def)
  let ?m1 = "take ?p m @ to_le 8 (fst e) @ drop (?p + 8) m"
  have s: "storen m ?p (to_le 8 (fst e)) = Some ?m1" using l by (simp add: storen_def)
  have "?p + 8 + s_POSIX_NAME_MAX < length ?m1" "0 < s_POSIX_NAME_MAX" using l by (simp_all add: s_POSIX_NAME_MAX_def)
  note c = strncpy_cstr[OF n(4) this(2,1)]
  have "take (?p + 8) ?m1 = take ?p m @ to_le 8 (fst e)" "drop (?p + 8 + ?k + 1) ?m1 = drop (?p + 9 + ?k) m" using l by (simp_all add: ac_simps)
  then have "strncpy (?p + 8) (de_name (pre @ rec @ post) (length pre)) s_POSIX_NAME_MAX ?m1 = Some (?p + 8, put_ent e ?p m)"
    unfolding c by (simp add: put_ent_def s_POSIX_NAME_MAX_def)
  then show ?thesis using False n(1,3) s by (simp add: fill_step_def fillf_def)
qed

definition filling :: "(long \<times> byte list) list \<Rightarrow> (long \<times> byte list) list \<Rightarrow> nat \<times> mem \<Rightarrow> bool" where
  "filling ents es jm \<longleftrightarrow> (\<exists>past. ents = past @ es \<and> fst jm = length (named past) \<and>
     length (snd jm) = DIRENTSZ * length (named ents) \<and> filled (named past) (snd jm))"

lemma filling_more:
  assumes "dirent_rec e rec" "filling ents (e # es) jm"
  shows "fill_step (pre @ rec @ post) (length pre) jm = Ret (fillf e jm) \<and> filling ents es (fillf e jm)"
proof -
  obtain j m where jm: "jm = (j, m)" by (cases jm)
  obtain past where p: "ents = past @ e # es" "j = length (named past)" "length m = DIRENTSZ * length (named ents)" "filled (named past) m"
    using assms(2) jm by (auto simp: filling_def)
  show ?thesis
  proof (cases "snd e = []")
    case True
    then have "filling ents es (fillf e jm)" unfolding filling_def fillf_def jm using p by (intro exI[of _ "past @ [e]"]) simp
    then show ?thesis using fill_step_ok[OF assms(1), of j m] True jm by simp
  next
    case False
    have "Suc j \<le> length (named ents)" using p(1,2) False by simp
    then have l: "DIRENTSZ * j + DIRENTSZ \<le> length m" unfolding p(3) by (metis mult_Suc_right mult_le_mono2 add.commute)
    have z: "0 \<notin> set (snd e)" using assms(1) by (auto simp: dirent_rec_def cstr_def)
    note f = put_ent_facts[OF l z]
    have "dirent_of (named (past @ [e]) ! i) (take DIRENTSZ (drop (DIRENTSZ * i) (put_ent e (DIRENTSZ * j) m)))" if "i < length (named (past @ [e]))" for i
    proof (cases "i = j")
      case True
      then show ?thesis using f(2) False p(2) by (simp add: nth_append)
    next
      case ne: False
      then have i: "i < j" using that False p(2) by simp
      then have "DIRENTSZ * i + DIRENTSZ \<le> DIRENTSZ * j" by (metis Suc_leI add.commute mult_Suc_right mult_le_mono2)
      then show ?thesis using f(3) p(2,4) i False by (simp add: filled_def nth_append)
    qed
    then have "filling ents es (fillf e jm)" unfolding filling_def fillf_def jm using p f(1) False
      by (intro exI[of _ "past @ [e]"]) (simp add: filled_def)
    then show ?thesis using fill_step_ok[OF assms(1), of j m] l jm by simp
  qed
qed

section \<open>Reading the entries\<close>

lemma readdir_run_ok:
  assumes "dirs st d = Some x" "cent x = word_of_nat i" "nent x = word_of_nat n" "i \<le> n" "n < 2 ^ 31" "length (dents x) = DIRENTSZ * n"
  shows "readdir_run (Suc (n - i)) d st =
    Ret (map (\<lambda>i. Some (take DIRENTSZ (drop (DIRENTSZ * i) (dents x)))) [i..<n] @ [None],
      st\<lparr>dirs := (dirs st)(d \<mapsto> x\<lparr>cent := word_of_nat n\<rparr>)\<rparr>)"
  using assms
proof (induction "n - i" arbitrary: i st x)
  case 0
  then have "i = n" by simp
  moreover have "x\<lparr>cent := word_of_nat n\<rparr> = x" using 0(3) calculation by simp
  ultimately show ?case using 0 by (simp add: readdir_c_def readdir_r_def fun_upd_idem)
next
  case (Suc k)
  have i: "i < n" using Suc.hyps(2) by simp
  have u: "unat (word_of_nat i :: cint) = i" "unat (word_of_nat n :: cint) = n"
    using i Suc.prems(5) by (simp_all add: unsigned_of_nat take_bit_nat_eq_self)
  have ne: "cent x \<noteq> nent x" using u i unfolding Suc.prems(2,3) by (metis less_irrefl)
  have le: "DIRENTSZ * i + DIRENTSZ \<le> length (dents x)" unfolding Suc.prems(6) using i
    by (metis Suc_leI add.commute mult_Suc_right mult_le_mono2)
  let ?x = "x\<lparr>cent := word_of_nat (Suc i)\<rparr>" and ?e = "take DIRENTSZ (drop (DIRENTSZ * i) (dents x))"
  have r: "readdir_c d st = Ret (Some ?e, st\<lparr>dirs := (dirs st)(d \<mapsto> ?x)\<rparr>)"
    using Suc.prems(1,2) ne le u(1) by (simp add: readdir_c_def readdir_r_def loadn_def add.commute)
  have "k = n - Suc i" using Suc.hyps(2) by simp
  from Suc.hyps(1)[OF this, of "st\<lparr>dirs := (dirs st)(d \<mapsto> ?x)\<rparr>" ?x] have
    "readdir_run (Suc k) d (st\<lparr>dirs := (dirs st)(d \<mapsto> ?x)\<rparr>) =
      Ret (map (\<lambda>i. Some (take DIRENTSZ (drop (DIRENTSZ * i) (dents x)))) [Suc i..<n] @ [None],
        st\<lparr>dirs := (dirs st)(d \<mapsto> x\<lparr>cent := word_of_nat n\<rparr>)\<rparr>)"
    using Suc.prems(3,5,6) i \<open>k = n - Suc i\<close> by simp
  then show ?case using r i unfolding Suc.hyps(2)[symmetric] upt_conv_Cons[OF i] by simp
qed

lemma lseek_maps: "keeps_maps K maps \<Longrightarrow> maps (kern (snd (snd (lseek K fd o1 w p)))) = maps (kern p)"
proof -
  assume a: "keeps_maps K maps"
  obtain bs where "kern (snd (snd (sys_neg K [SAi fd, SA o1, SAi w, SA 0, SA 0] SYS_LSEEK p))) = snd (snd (K SYS_LSEEK bs (kern p)))"
    using sys_kern(1) by blast
  moreover have "SYS_LSEEK \<noteq> SYS_MMAP" "SYS_LSEEK \<noteq> SYS_MUNMAP" by (simp_all add: SYS_LSEEK_def SYS_MMAP_def SYS_MUNMAP_def)
  moreover have "snd (snd (lseek K fd o1 w p)) = snd (snd (sys_neg K [SAi fd, SA o1, SAi w, SA 0, SA 0] SYS_LSEEK p))"
    by (simp add: lseek_def widen_def split: prod.split)
  ultimately show ?thesis using a unfolding keeps_maps_def by simp
qed

lemma heap_dset: "maps (kern p) = maps (kern (dproc st)) \<Longrightarrow> heap_ok K maps (dmem (dset p st)) l = heap_ok K maps (dmem st) l"
  "idle (dmem (dset p st)) = idle (dmem st)"
  by (simp_all add: dset_def heap_ok_mproc)

text \<open>The first pass counts the entries with a name.\<close>

lemma count_pass:
  assumes "lists_dir K fd ents left" "keeps_maps K maps"
  shows "\<exists>as p1 buf p2. lseek K fd 0 SEEK_SET p = (0, as, p1) \<and>
    dir_scan K fd count_step (replicate BSIZE 0) 0 p1 = Some (Ret (0, length (named ents), buf, p2)) \<and> length buf = BSIZE \<and>
    maps (kern p2) = maps (kern p)"
proof -
  obtain as k where l: "lseek K fd 0 SEEK_SET p = (0, as, p\<lparr>kern := k\<rparr>)" "left k = ents" using lseek_lists[OF assms(1)] by blast
  have "maps k = maps (kern p)" using lseek_maps[OF assms(2), of fd 0 SEEK_SET p] l(1) by simp
  moreover obtain buf p2 where "dir_scan K fd count_step (replicate BSIZE 0) 0 (p\<lparr>kern := k\<rparr>) = Some (Ret (0, fold countf (left k) 0, buf, p2))"
    "length buf = BSIZE" "maps (kern p2) = maps k"
    using dir_scan_ok[where P = "\<lambda>_ _. True" and f = countf and step = count_step and buf = "replicate BSIZE 0" and p = "p\<lparr>kern := k\<rparr>" and s = 0,
        OF _ assms] count_step_ok by auto
  ultimately show ?thesis using l by (auto simp: fold_countf)
qed

text \<open>The second pass stores them.\<close>

lemma fill_pass:
  assumes "lists_dir K fd ents left" "keeps_maps K maps" "length buf = BSIZE"
  shows "\<exists>m p2. fdopendir_fill K fd (length (named ents)) ret buf st =
      Some (Ret (ret, (dset p2 st)\<lparr>dirs := (dirs st)(ret \<mapsto> \<lparr>d_fd = fd, cent = 0, nent = word_of_nat (length (named ents)), dents = m\<rparr>)\<rparr>)) \<and>
    maps (kern p2) = maps (kern (dproc st)) \<and> length m = DIRENTSZ * length (named ents) \<and> filled (named ents) m"
proof -
  let ?n = "length (named ents)" and ?p = "dproc st"
  obtain as k where l: "lseek K fd 0 SEEK_SET ?p = (0, as, ?p\<lparr>kern := k\<rparr>)" "left k = ents" using lseek_lists[OF assms(1)] by blast
  have mk: "maps k = maps (kern ?p)" using lseek_maps[OF assms(2), of fd 0 SEEK_SET ?p] l(1) by simp
  let ?s = "(0 :: nat, replicate (DIRENTSZ * ?n) (0 :: byte))" and ?q = "?p\<lparr>kern := k\<rparr>"
  have kq: "kern ?q = k" by simp
  have "filling ents (left (kern ?q)) ?s" using l(2) by (auto simp: filling_def filled_def)
  from dir_scan_ok[where P = "filling ents" and f = fillf and step = fill_step and p = ?q and s = ?s, OF filling_more assms this]
  obtain buf' p2 where s: "dir_scan K fd fill_step buf ?s ?q = Some (Ret (0, fold fillf (left k) ?s, buf', p2))"
    "filling ents [] (fold fillf (left k) ?s)" "maps (kern p2) = maps k" unfolding kq by blast
  obtain j m where jm: "fold fillf (left k) ?s = (j, m)" by (cases "fold fillf (left k) ?s")
  have "length m = DIRENTSZ * ?n" "filled (named ents) m" using s(2) unfolding jm by (auto simp: filling_def)
  moreover have "dirs (dset p2 st) = dirs st" by (simp add: dset_def)
  ultimately show ?thesis using l(1) s(1,3) mk unfolding jm by (intro exI[of _ m] exI[of _ p2]) (simp add: fdopendir_fill_def Let_def)
qed

lemma fdopendir_ok:
  assumes "heap_ok K maps (dmem st) live" "idle (dmem st)" "keeps_maps K maps" "lists_dir K fd ents left"
    and "fstat K fd (SP (replicate STATSZ 0)) (dproc st) = (0, as, p)" "S_ISDIR_c (stat_mode (obj (as ! 1)))" "length (named ents) < 2 ^ 31"
  shows "\<exists>d st1. fdopendir K fd st = Some (Ret (d, st1)) \<and> idle (dmem st1) \<and>
    (if d = 0 then heap_ok K maps (dmem st1) live
     else \<exists>m n. live d = None \<and> heap_ok K maps (dmem st1) (live(d \<mapsto> n)) \<and> length m = DIRENTSZ * length (named ents) \<and> filled (named ents) m \<and>
       dirs st1 d = Some \<lparr>d_fd = fd, cent = 0, nent = word_of_nat (length (named ents)), dents = m\<rparr>)"
proof -
  let ?n = "length (named ents)" and ?sz = "word_of_nat (DIRSZ + length (named ents) * DIRENTSZ) :: long"
  obtain bs where "kern p = snd (snd (K SYS_FSTAT bs (kern (dproc st))))" using fstat_kern[of K fd "SP (replicate STATSZ 0)" "dproc st"] assms(5) by auto
  then have mp: "maps (kern p) = maps (kern (dproc st))" using assms(3) by (simp add: keeps_maps_def SYS_FSTAT_def SYS_MMAP_def SYS_MUNMAP_def)
  obtain as1 p1 buf p2 where c: "lseek K fd 0 SEEK_SET p = (0, as1, p1)"
    "dir_scan K fd count_step (replicate BSIZE 0) 0 p1 = Some (Ret (0, ?n, buf, p2))" "length buf = BSIZE" "maps (kern p2) = maps (kern p)"
    using count_pass[OF assms(4,3), of p] by (elim exE conjE) (rule that)
  let ?st2 = "dset p2 st"
  have h2: "heap_ok K maps (dmem ?st2) live" "idle (dmem ?st2)" using assms(1,2) c(4) mp by (simp_all add: heap_dset)
  have fat: "\<not> ?n > (2 ^ 64 - 1 - DIRSZ) div DIRENTSZ" using assms(7) by (simp add: DIRSZ_def DIRENTSZ_def)
  have "unat ?sz = DIRSZ + ?n * DIRENTSZ" using assms(7) by (intro unat_word_of_nat_small) (simp add: DIRSZ_def DIRENTSZ_def)
  then have "good_size ?sz" using assms(7) by (auto simp: good_size_def DIRSZ_def DIRENTSZ_def)
  then obtain r ms where m: "malloc K ?sz (dmem ?st2) = Ret (r, ms)" "idle ms" "r = 0 \<longrightarrow> heap_ok K maps ms live"
    "r \<noteq> 0 \<longrightarrow> live r = None \<and> heap_ok K maps ms (live(r \<mapsto> unat (round8 ?sz)))"
    by (rule malloc_spec[OF h2]) blast
  have run: "fdopendir K fd st = (if r = 0 then Some (Ret (0, ?st2\<lparr>dmem := ms\<rparr>)) else fdopendir_fill K fd ?n r buf (?st2\<lparr>dmem := ms\<rparr>))"
    using assms(5,6) c(1,2) fat m(1) by (simp add: fdopendir_def Let_def)
  show ?thesis
  proof (cases "r = 0")
    case True
    then show ?thesis using run m(2,3) by simp
  next
    case False
    obtain mm p3 where f: "fdopendir_fill K fd ?n r buf (?st2\<lparr>dmem := ms\<rparr>) =
        Some (Ret (r, (dset p3 (?st2\<lparr>dmem := ms\<rparr>))\<lparr>dirs := (dirs (?st2\<lparr>dmem := ms\<rparr>))(r \<mapsto> \<lparr>d_fd = fd, cent = 0, nent = word_of_nat ?n, dents = mm\<rparr>)\<rparr>))"
      "maps (kern p3) = maps (kern (mproc ms))" "length mm = DIRENTSZ * ?n" "filled (named ents) mm"
      using fill_pass[OF assms(4,3) c(3), of r "?st2\<lparr>dmem := ms\<rparr>"] by auto
    have "heap_ok K maps (dmem (dset p3 (?st2\<lparr>dmem := ms\<rparr>))) (live(r \<mapsto> unat (round8 ?sz)))" "idle (dmem (dset p3 (?st2\<lparr>dmem := ms\<rparr>)))"
      using m(2,4) False f(2) by (simp_all add: heap_dset)
    moreover define st1 where "st1 = (dset p3 (?st2\<lparr>dmem := ms\<rparr>))\<lparr>dirs := (dirs (?st2\<lparr>dmem := ms\<rparr>))(r \<mapsto> \<lparr>d_fd = fd, cent = 0, nent = word_of_nat ?n, dents = mm\<rparr>)\<rparr>"
    have "dmem st1 = dmem (dset p3 (?st2\<lparr>dmem := ms\<rparr>))" "dirs st1 r = Some \<lparr>d_fd = fd, cent = 0, nent = word_of_nat ?n, dents = mm\<rparr>"
      by (simp_all add: st1_def)
    moreover have "fdopendir K fd st = Some (Ret (r, st1))" using run False f(1) by (simp add: st1_def)
    ultimately show ?thesis using False f(3,4) m(4) by (metis (no_types, lifting))
  qed
qed

lemma closedir_ok:
  assumes "heap_ok K maps (dmem st) live" "idle (dmem st)" "keeps_maps K maps" "live d = Some n" "dirs st d = Some x"
  shows "\<exists>r st'. closedir_c K d st = Ret (r, st') \<and> heap_ok K maps (dmem st') (live(d := None)) \<and> idle (dmem st') \<and> dirs st' d = None"
proof -
  obtain ms where f: "free K d (dmem st) = Ret ms" "idle ms" "heap_ok K maps ms (live(d := None))"
    by (rule free_spec[OF assms(1,2,4)])
  obtain r as p where c: "close K (d_fd x) (mproc ms) = (r, as, p)" by (cases "close K (d_fd x) (mproc ms)")
  obtain bs where "kern p = snd (snd (K SYS_CLOSE bs (kern (mproc ms))))"
    using sys_kern(2)[of K "[SAi (d_fd x), SA 0, SA 0, SA 0, SA 0]" SYS_CLOSE "mproc ms"] c unfolding close_def by auto
  then have "maps (kern p) = maps (kern (mproc ms))" using assms(3) by (simp add: keeps_maps_def SYS_CLOSE_def SYS_MMAP_def SYS_MUNMAP_def)
  then show ?thesis using f c assms(5) by (simp add: closedir_c_def heap_dset) (simp add: dset_def)
qed

lemma filled_all2: "filled es m \<Longrightarrow> list_all2 dirent_of es (map (\<lambda>i. take DIRENTSZ (drop (DIRENTSZ * i) m)) [0..<length es])"
  by (simp add: filled_def list_all2_conv_all_nth)

section \<open>Properties\<close>


text \<open>A kernel with one directory, which it delivers at once.\<close>

definition enc_ent :: "long \<times> byte list \<Rightarrow> byte list" where
  "enc_ent e = to_le 8 (fst e) @ replicate 8 0 @ to_le 2 (word_of_nat (20 + length (snd e)) :: 16 word) @ [0] @ snd e @ [0]"

definition dots :: "(long \<times> byte list) list" where
  "dots = [(1, bytes_of ''.''), (7, []), (2, bytes_of ''notes'')]"

type_synonym dirk = "(long \<times> long) list \<times> bool"

definition dots_left :: "dirk \<Rightarrow> (long \<times> byte list) list" where
  "dots_left k = (if snd k then [] else dots)"

definition dir_kernel :: "dirk kernel" where
  "dir_kernel trap as k =
     (if trap = SYS_MMAP \<or> trap = SYS_MUNMAP then (case top_kernel trap as (fst k) of (r, as', ms) \<Rightarrow> (r, as', (ms, snd k)))
      else if trap = SYS_LSEEK then (0, as, (fst k, False))
      else if trap = SYS_FSTAT then (0, as[1 := SP (replicate 24 0 @ to_le 4 (0x41ed :: cint) @ replicate 92 0)], k)
      else if trap = SYS_GETDENTS64 then
        (let b = concat (map enc_ent (dots_left k)) in
         (word_of_nat (length b), [as ! 0, SP (b @ drop (length b) (obj (as ! 1)))], (fst k, True)))
      else (0, as, k))"

lemma enc_ent_rec: "length (snd e) < 60000 \<Longrightarrow> 0 \<notin> set (snd e) \<Longrightarrow> dirent_rec e (enc_ent e)"
  by (auto simp: dirent_rec_def enc_ent_def cstr_def)

lemma dots_recs: "list_all2 dirent_rec (dots_left k) (map enc_ent (dots_left k))" "length (concat (map enc_ent (dots_left k))) \<le> BSIZE"
  by (auto simp: dots_left_def dots_def bytes_of_def BSIZE_def intro!: enc_ent_rec) (simp add: enc_ent_def)

lemma dir_kernel_lists: "lists_dir dir_kernel fd dots dots_left"
  unfolding lists_dir_def
proof (intro conjI allI impI, goal_cases)
  case (1 w k r as k')
  then show ?case by (simp add: dir_kernel_def SYS_LSEEK_def SYS_MMAP_def SYS_MUNMAP_def)
next
  case (2 w k r as k')
  then show ?case by (auto simp: dir_kernel_def SYS_LSEEK_def SYS_MMAP_def SYS_MUNMAP_def dots_left_def)
next
  case (3 buf w k r as k')
  let ?b = "concat (map enc_ent (dots_left k))"
  have e: "r = word_of_nat (length ?b)" "as = [SAi fd, SP (?b @ drop (length ?b) buf)]" "k' = (fst k, True)"
    using 3(1) by (auto simp: dir_kernel_def SYS_GETDENTS64_def SYS_FSTAT_def SYS_LSEEK_def SYS_MMAP_def SYS_MUNMAP_def Let_def)
  have "dots_left k' = []" by (simp add: e(3) dots_left_def)
  then show ?case using e dots_recs[of k]
    by (intro exI[of _ "dots_left k"] exI[of _ "map enc_ent (dots_left k)"] exI[of _ "[]"]) simp
qed

lemma dir_kernel_maps: "keeps_maps dir_kernel (\<lambda>k. set (fst k))"
  by (auto simp: keeps_maps_def dir_kernel_def Let_def)

lemma mm_dir_kernel: "mm_kernel dir_kernel (\<lambda>k. set (fst k))"
proof -
  have t: "top_kernel trap as (fst k) = (r, as', fst k')" if "dir_kernel trap as k = (r, as', k')" "trap = SYS_MMAP \<or> trap = SYS_MUNMAP" for trap as k r as' k'
    using that by (auto simp: dir_kernel_def split: prod.splits)
  show ?thesis
    unfolding mm_kernel_def
  proof (intro conjI allI impI, goal_cases)
    case (1 len pr fl fd off k r as k')
    then have "top_kernel SYS_MMAP [SA 0, SA len, pr, fl, fd, off] (fst k) = (r, as, fst k')" using t by blast
    then show ?case using mm_top_kernel unfolding mm_kernel_def by blast
  next
    case (2 a len w k r as k')
    then have "top_kernel SYS_MUNMAP [SA a, SA len, SA 0, w, SA 0, SA 0] (fst k) = (r, as, fst k')" using t by blast
    then show ?case using 2(2) mm_top_kernel unfolding mm_kernel_def by blast
  next
    case (3 a len w k r as k')
    then have "top_kernel SYS_MUNMAP [SA a, SA len, SA 0, w, SA 0, SA 0] (fst k) = (r, as, fst k')" using t by blast
    then show ?case using 3(2) mm_top_kernel unfolding mm_kernel_def by blast
  qed
qed

definition dio0 :: "dirk dio" where
  "dio0 = \<lparr>dmem = \<lparr>mproc = \<lparr>errno = 0, kern = ([], False), diag = [], arch = AArch64\<rparr>, hdrs = Map.empty, allh = 0, curh = 0,
     bump = 0, biglock = 0, dolock = True, ram = (\<lambda>_. 0)\<rparr>, dirs = Map.empty\<rparr>"

lemma dio0_ok: "heap_ok dir_kernel (\<lambda>k. set (fst k)) (dmem dio0) Map.empty" "idle (dmem dio0)"
proof -
  have "links (dmem dio0) []" by (simp add: links_def dio0_def)
  then show "heap_ok dir_kernel (\<lambda>k. set (fst k)) (dmem dio0) Map.empty"
    using mm_dir_kernel by (auto simp: heap_ok_def hinv_def seg_disj_def blk_disj_def pay_def dio0_def)
  show "idle (dmem dio0)" by (simp add: idle_def dio0_def)
qed


end
