(* ===== verification/Litc_Select.thy ===== *)
theory Litc_Select
  imports Litc_Stdio
begin

unbundle bit_operations_syntax

text \<open>
  \<open>select\<close> on top of \<open>poll\<close> (\<open>litc.c\<close>), with the macros for descriptor sets.

  A descriptor set is the list of its 16 words; \<open>None\<close> is an access outside it. The array of \<open>struct pollfd\<close> is a
  list of records, and its bytes are what the system call sees.
\<close>

section \<open>Descriptor sets\<close>

definition FD_WORDS :: nat where "FD_WORDS = 16"
definition FD_SETSIZE :: nat where "FD_SETSIZE = FD_WORDS * 8 * 8"
definition POLLIN :: "16 word" where "POLLIN = 0x1 OR 0x2"
definition POLLOUT :: "16 word" where "POLLOUT = 0x8"
definition POLLERR :: "16 word" where "POLLERR = 0x20"
definition POLLHUP :: "16 word" where "POLLHUP = 0x40"
definition POLLNVAL :: "16 word" where "POLLNVAL = 0x80"

type_synonym fd_set = "long list"

definition FD_ZERO :: fd_set where "FD_ZERO = replicate FD_WORDS 0"

definition FD_SET :: "nat \<Rightarrow> fd_set \<Rightarrow> fd_set option" where
  "FD_SET n ft = (if n div 64 < length ft then Some (ft[n div 64 := ft ! (n div 64) OR push_bit (n mod 64) 1]) else None)"

definition FD_CLR :: "nat \<Rightarrow> fd_set \<Rightarrow> fd_set option" where
  "FD_CLR n ft = (if n div 64 < length ft then Some (ft[n div 64 := ft ! (n div 64) AND NOT (push_bit (n mod 64) 1)]) else None)"

definition FD_ISSET :: "nat \<Rightarrow> fd_set \<Rightarrow> bool option" where
  "FD_ISSET n ft = (if n div 64 < length ft then Some (ft ! (n div 64) AND push_bit (n mod 64) 1 \<noteq> 0) else None)"

definition s_fdisset :: "nat \<Rightarrow> fd_set option \<Rightarrow> bool option" where
  "s_fdisset fd fds = (case fds of None \<Rightarrow> Some False | Some ft \<Rightarrow> FD_ISSET fd ft)"

section \<open>The array for poll\<close>

record pollfd =
  pfd_fd :: cint
  events :: "16 word"
  revents :: "16 word"

definition enc_pfd :: "pollfd \<Rightarrow> byte list" where
  "enc_pfd p = to_le 4 (pfd_fd p) @ to_le 2 (events p) @ to_le 2 (revents p)"

fun dec_pfds :: "nat \<Rightarrow> byte list \<Rightarrow> pollfd list" where
  "dec_pfds 0 b = []"
| "dec_pfds (Suc n) b =
     \<lparr>pfd_fd = from_le (take 4 b), events = from_le (take 2 (drop 4 b)), revents = from_le (take 2 (drop 6 b))\<rparr> # dec_pfds n (drop 8 b)"

text \<open>\<open>_fdisset(i, rfds) || _fdisset(i, wfds) || _fdisset(i, efds)\<close>.\<close>

definition fd_wanted :: "fd_set option \<Rightarrow> fd_set option \<Rightarrow> fd_set option \<Rightarrow> nat \<Rightarrow> bool option" where
  "fd_wanted r w e i =
     (case s_fdisset i r of None \<Rightarrow> None | Some True \<Rightarrow> Some True
      | Some False \<Rightarrow> (case s_fdisset i w of None \<Rightarrow> None | Some True \<Rightarrow> Some True | Some False \<Rightarrow> s_fdisset i e))"

fun sel_count :: "fd_set option \<Rightarrow> fd_set option \<Rightarrow> fd_set option \<Rightarrow> nat list \<Rightarrow> nat \<Rightarrow> nat option" where
  "sel_count r w e [] nfds = Some nfds"
| "sel_count r w e (i # is) nfds =
     (case fd_wanted r w e i of None \<Rightarrow> None | Some b \<Rightarrow> sel_count r w e is (if b then nfds + 1 else nfds))"

definition sel_events :: "fd_set option \<Rightarrow> fd_set option \<Rightarrow> fd_set option \<Rightarrow> nat \<Rightarrow> 16 word option" where
  "sel_events r w e i =
     (case (s_fdisset i r, s_fdisset i w, s_fdisset i e) of
        (Some a, Some b, Some c) \<Rightarrow>
          Some ((if a then POLLIN else 0) OR (if b then POLLOUT else 0) OR (if c then POLLERR else 0))
      | _ \<Rightarrow> None)"

text \<open>The second loop; the array has \<open>nfds\<close> elements. It leaves \<open>revents\<close> unset; \<open>poll\<close> clears it before the call.\<close>

fun sel_fill :: "fd_set option \<Rightarrow> fd_set option \<Rightarrow> fd_set option \<Rightarrow> nat \<Rightarrow> nat list \<Rightarrow> pollfd list \<Rightarrow> pollfd list option" where
  "sel_fill r w e nfds [] pfds = Some pfds"
| "sel_fill r w e nfds (i # is) pfds =
     (case fd_wanted r w e i of None \<Rightarrow> None
      | Some False \<Rightarrow> sel_fill r w e nfds is pfds
      | Some True \<Rightarrow>
          (case sel_events r w e i of None \<Rightarrow> None
           | Some ev \<Rightarrow>
               if length pfds < nfds then sel_fill r w e nfds is (pfds @ [\<lparr>pfd_fd = word_of_nat i, events = ev, revents = 0\<rparr>])
               else None))"

section \<open>select\<close>

text \<open>\<open>_PTOS(pf, fds)\<close>.\<close>

definition s_PTOS :: "16 word \<Rightarrow> pollfd \<Rightarrow> fd_set option \<times> cint \<Rightarrow> (fd_set option \<times> cint) option" where
  "s_PTOS pf p fc =
     (case fc of (fds, selret) \<Rightarrow>
        if revents p AND pf \<noteq> 0 \<and> events p AND pf \<noteq> 0 then
          (case fds of None \<Rightarrow> None | Some ft \<Rightarrow> map_option (\<lambda>ft'. (Some ft', selret + 1)) (FD_SET (unat (pfd_fd p)) ft))
        else Some (fds, selret))"

text \<open>The last loop; the boolean tells whether it returned because of \<open>POLLNVAL\<close>.\<close>

fun sel_out ::
  "pollfd list \<Rightarrow> fd_set option \<Rightarrow> fd_set option \<Rightarrow> fd_set option \<Rightarrow> cint \<Rightarrow>
   (bool \<times> fd_set option \<times> fd_set option \<times> fd_set option \<times> cint) option"
where
  "sel_out [] r w e selret = Some (False, r, w, e, selret)"
| "sel_out (p # ps) r w e selret =
     (if events p AND POLLNVAL \<noteq> 0 then Some (True, r, w, e, selret)
      else
        Option.bind (s_PTOS POLLIN p (r, selret)) (\<lambda>(r1, s1).
        Option.bind (s_PTOS POLLHUP p (r1, s1)) (\<lambda>(r2, s2).
        Option.bind (s_PTOS POLLOUT p (w, s2)) (\<lambda>(w1, s3).
        Option.bind (s_PTOS POLLERR p (e, s3)) (\<lambda>(e1, s4). sel_out ps r2 w1 e1 s4)))))"

text \<open>\<open>toms\<close>: the timeout in milliseconds, as an \<open>int\<close>; a division cuts off towards 0.\<close>

definition sel_timeout :: "(long \<times> long) option \<Rightarrow> cint" where
  "sel_timeout tv =
     (case tv of None \<Rightarrow> - 1
      | Some (s, us) \<Rightarrow> ucast (s * 1000 + word_of_int (if sint us < 0 then - (- sint us div 1000) else sint us div 1000)))"

definition select ::
  "'k kernel \<Rightarrow> cint \<Rightarrow> fd_set option \<Rightarrow> fd_set option \<Rightarrow> fd_set option \<Rightarrow> (long \<times> long) option \<Rightarrow> 'k proc \<Rightarrow>
   (cint \<times> fd_set option \<times> fd_set option \<times> fd_set option \<times> 'k proc) outcome"
where
  "select K maxfd rfds wfds efds timeout p =
     (let is = [0..<nat (sint maxfd)] in
      case sel_count rfds wfds efds is 0 of None \<Rightarrow> Fault
      | Some nfds \<Rightarrow> (case sel_fill rfds wfds efds nfds is [] of None \<Rightarrow> Fault
      | Some pfds \<Rightarrow>
          let zero = map_option (\<lambda>_. FD_ZERO); r0 = zero rfds; w0 = zero wfds; e0 = zero efds in
          case poll K (concat (map enc_pfd pfds)) (word_of_nat nfds) (sel_timeout timeout) p of None \<Rightarrow> Fault
          | Some (ret, as, p1) \<Rightarrow>
              if ret \<le>s 0 then Ret (ret, r0, w0, e0, p1)
              else (case sel_out (dec_pfds nfds (obj (as ! 0))) r0 w0 e0 0 of None \<Rightarrow> Fault
                | Some (True, r, w, e, s) \<Rightarrow> Ret (- 1, r, w, e, p1\<lparr>errno := EINVAL\<rparr>)
                | Some (False, r, w, e, s) \<Rightarrow> Ret (s, r, w, e, p1))))"

section \<open>Lemmas\<close>

definition fds_of :: "fd_set option \<Rightarrow> nat set" where
  "fds_of f = (case f of None \<Rightarrow> {} | Some ft \<Rightarrow> {n. n div 64 < length ft \<and> bit (ft ! (n div 64)) (n mod 64)})"

definition fds_ok :: "fd_set option \<Rightarrow> bool" where
  "fds_ok f \<longleftrightarrow> (case f of None \<Rightarrow> True | Some ft \<Rightarrow> length ft = FD_WORDS)"

lemma and_push_bit: "(x :: long) AND push_bit n 1 \<noteq> 0 \<longleftrightarrow> bit x n"
  using bit_iff_and_push_bit_not_eq_0[of x n] by blast

lemma fdisset_iff:
  assumes "fds_ok f" "n < FD_SETSIZE"
  shows "s_fdisset n f = Some (n \<in> fds_of f)"
proof (cases f)
  case (Some ft)
  have "n div 64 < length ft" using assms Some by (simp add: fds_ok_def FD_SETSIZE_def FD_WORDS_def)
  then show ?thesis using Some and_push_bit[of "ft ! (n div 64)" "n mod 64"] by (simp add: s_fdisset_def FD_ISSET_def fds_of_def)
qed (simp add: s_fdisset_def fds_of_def)

lemma FD_SET_of:
  assumes "length ft = FD_WORDS" "n < FD_SETSIZE"
  shows "\<exists>ft'. FD_SET n ft = Some ft' \<and> length ft' = FD_WORDS \<and> fds_of (Some ft') = insert n (fds_of (Some ft))"
proof -
  let ?i = "n div 64" and ?ft = "ft[n div 64 := ft ! (n div 64) OR push_bit (n mod 64) 1]"
  have i: "?i < length ft" using assms by (simp add: FD_SETSIZE_def FD_WORDS_def)
  have b: "bit (ft ! ?i OR push_bit (n mod 64) 1 :: long) k \<longleftrightarrow> bit (ft ! ?i) k \<or> k = n mod 64" if "k < 64" for k
    using that by (auto simp: bit_or_iff bit_exp_iff)
  have e: "m div 64 = ?i \<Longrightarrow> m mod 64 = n mod 64 \<longleftrightarrow> m = n" for m by (metis div_mult_mod_eq)
  have "m \<in> fds_of (Some ?ft) \<longleftrightarrow> m \<in> insert n (fds_of (Some ft))" for m
  proof (cases "m div 64 = ?i")
    case True
    then show ?thesis using b[of "m mod 64"] i e[OF True] by (auto simp: fds_of_def)
  next
    case False
    then have "m \<noteq> n" by auto
    then show ?thesis using False by (simp add: fds_of_def)
  qed
  then show ?thesis using i assms(1) by (auto simp: FD_SET_def)
qed

lemma fds_zero: "fds_of (map_option (\<lambda>_. FD_ZERO) f) = {}" "fds_ok (map_option (\<lambda>_. FD_ZERO) f)" "map_option (\<lambda>_. FD_ZERO) f = None \<longleftrightarrow> f = None"
  by (cases f; simp add: fds_of_def fds_ok_def FD_ZERO_def)+

lemma length_enc_pfd [simp]: "length (enc_pfd p) = 8"
  by (simp add: enc_pfd_def)

lemma dec_enc: "dec_pfds (length ps) (concat (map enc_pfd ps)) = ps"
proof (induction ps)
  case (Cons p ps)
  have "enc_pfd p = to_le 4 (pfd_fd p) @ to_le 2 (events p) @ to_le 2 (revents p)" by (simp add: enc_pfd_def)
  then have "take 4 (enc_pfd p @ x) = to_le 4 (pfd_fd p)" "take 2 (drop 4 (enc_pfd p @ x)) = to_le 2 (events p)"
    "take 2 (drop 6 (enc_pfd p @ x)) = to_le 2 (revents p)" "drop 8 (enc_pfd p @ x) = x" for x by simp_all
  then show ?case using Cons by (simp add: from_le_to_le)
qed simp

lemma clear_enc: "\<forall>p \<in> set ps. revents p = 0 \<Longrightarrow> clear_revents (length ps) (concat (map enc_pfd ps)) = Some (concat (map enc_pfd ps))"
proof (induction ps)
  case (Cons p ps)
  have "enc_pfd p = take 6 (enc_pfd p) @ [0, 0]" using Cons.prems by (simp add: enc_pfd_def numeral_2_eq_2)
  moreover have "take 6 (enc_pfd p @ x) = take 6 (enc_pfd p)" for x by simp
  ultimately have "take 6 (enc_pfd p @ x) @ [0, 0] @ x = enc_pfd p @ x" for x by (metis append.assoc)
  moreover have "drop 8 (enc_pfd p @ x) = x" for x by simp
  ultimately show ?case using Cons by simp
qed simp

definition ev_of :: "nat set \<Rightarrow> nat set \<Rightarrow> nat set \<Rightarrow> nat \<Rightarrow> 16 word" where
  "ev_of R W E i = (if i \<in> R then POLLIN else 0) OR (if i \<in> W then POLLOUT else 0) OR (if i \<in> E then POLLERR else 0)"

lemma ev_of_bits:
  "ev_of R W E i AND POLLIN \<noteq> 0 \<longleftrightarrow> i \<in> R" "ev_of R W E i AND POLLOUT \<noteq> 0 \<longleftrightarrow> i \<in> W" "ev_of R W E i AND POLLERR \<noteq> 0 \<longleftrightarrow> i \<in> E"
  "ev_of R W E i AND POLLHUP = 0" "ev_of R W E i AND POLLNVAL = 0"
  by (cases "i \<in> R"; cases "i \<in> W"; cases "i \<in> E"; simp add: ev_of_def POLLIN_def POLLOUT_def POLLERR_def POLLHUP_def POLLNVAL_def)+

definition pfd_of :: "nat set \<Rightarrow> nat set \<Rightarrow> nat set \<Rightarrow> (nat \<Rightarrow> 16 word) \<Rightarrow> nat \<Rightarrow> pollfd" where
  "pfd_of R W E re i = \<lparr>pfd_fd = word_of_nat i, events = ev_of R W E i, revents = re i\<rparr>"

lemma wanted_iff:
  assumes "fds_ok r" "fds_ok w" "fds_ok e" "i < FD_SETSIZE"
  shows "fd_wanted r w e i = Some (i \<in> fds_of r \<union> fds_of w \<union> fds_of e)"
    "sel_events r w e i = Some (ev_of (fds_of r) (fds_of w) (fds_of e) i)"
  using assms by (simp_all add: fd_wanted_def sel_events_def ev_of_def fdisset_iff split: bool.split)

lemma sel_count_ok:
  assumes "fds_ok r" "fds_ok w" "fds_ok e" "\<forall>i \<in> set is. i < FD_SETSIZE"
  shows "sel_count r w e is n = Some (n + length (filter (\<lambda>i. i \<in> fds_of r \<union> fds_of w \<union> fds_of e) is))"
  using assms(4) by (induction "is" arbitrary: n) (simp_all add: wanted_iff[OF assms(1-3)])

lemma sel_fill_ok:
  assumes "fds_ok r" "fds_ok w" "fds_ok e" "\<forall>i \<in> set is. i < FD_SETSIZE"
    and "length pfds + length (filter (\<lambda>i. i \<in> fds_of r \<union> fds_of w \<union> fds_of e) is) \<le> n"
  shows "sel_fill r w e n is pfds =
    Some (pfds @ map (pfd_of (fds_of r) (fds_of w) (fds_of e) (\<lambda>_. 0)) (filter (\<lambda>i. i \<in> fds_of r \<union> fds_of w \<union> fds_of e) is))"
  using assms(4,5)
proof (induction "is" arbitrary: pfds)
  case (Cons i "is")
  note wi = wanted_iff[OF assms(1-3), of i]
  show ?case
  proof (cases "i \<in> fds_of r \<union> fds_of w \<union> fds_of e")
    case True
    then show ?thesis using Cons wi by (simp add: pfd_of_def)
  next
    case False
    then show ?thesis using Cons wi by simp
  qed
qed simp

lemma ptos_ok:
  assumes "fds_ok f" "unat (pfd_fd p) < FD_SETSIZE" "c \<longleftrightarrow> revents p AND pf \<noteq> 0 \<and> events p AND pf \<noteq> 0" "c \<longrightarrow> f \<noteq> None"
  shows "\<exists>f'. s_PTOS pf p (f, s) = Some (f', s + of_bool c) \<and> fds_ok f' \<and> (f' = None \<longleftrightarrow> f = None) \<and>
    fds_of f' = (if c then insert (unat (pfd_fd p)) (fds_of f) else fds_of f)"
proof (cases c)
  case True
  then obtain ft where f: "f = Some ft" "length ft = FD_WORDS" using assms(1,4) by (auto simp: fds_ok_def)
  from FD_SET_of[OF f(2) assms(2)] show ?thesis using True assms(3) f(1) by (auto simp: s_PTOS_def fds_ok_def)
next
  case False
  then show ?thesis using assms(1,3) by (auto simp: s_PTOS_def)
qed

lemma card_Cons_filter: "distinct (i # L) \<Longrightarrow> card {j \<in> set (i # L). P j} = of_bool (P i) + card {j \<in> set L. P j}"
proof -
  assume d: "distinct (i # L)"
  have "{j \<in> set (i # L). P j} = (if P i then insert i {j \<in> set L. P j} else {j \<in> set L. P j})" by auto
  then show ?thesis using d by simp
qed

lemma sel_out_ok:
  assumes "distinct L" "\<forall>i \<in> set L. i < FD_SETSIZE" "fds_ok r" "fds_ok w" "fds_ok e"
    and "R \<noteq> {} \<longrightarrow> r \<noteq> None" "W \<noteq> {} \<longrightarrow> w \<noteq> None" "E \<noteq> {} \<longrightarrow> e \<noteq> None"
  shows "\<exists>r' w' e'. sel_out (map (pfd_of R W E re) L) r w e s =
      Some (False, r', w', e', s + word_of_nat (card {i \<in> set L. i \<in> R \<and> re i AND POLLIN \<noteq> 0} +
        card {i \<in> set L. i \<in> W \<and> re i AND POLLOUT \<noteq> 0} + card {i \<in> set L. i \<in> E \<and> re i AND POLLERR \<noteq> 0})) \<and>
    fds_of r' = fds_of r \<union> {i \<in> set L. i \<in> R \<and> re i AND POLLIN \<noteq> 0} \<and>
    fds_of w' = fds_of w \<union> {i \<in> set L. i \<in> W \<and> re i AND POLLOUT \<noteq> 0} \<and>
    fds_of e' = fds_of e \<union> {i \<in> set L. i \<in> E \<and> re i AND POLLERR \<noteq> 0}"
  using assms
proof (induction L arbitrary: r w e s)
  case Nil
  then show ?case by simp
next
  case (Cons i L)
  let ?p = "pfd_of R W E re i"
  let ?a = "i \<in> R \<and> re i AND POLLIN \<noteq> 0" and ?b = "i \<in> W \<and> re i AND POLLOUT \<noteq> 0" and ?c = "i \<in> E \<and> re i AND POLLERR \<noteq> 0"
  have i: "i < FD_SETSIZE" using Cons.prems(2) by simp
  then have u: "unat (pfd_fd ?p) = i" "unat (pfd_fd ?p) < FD_SETSIZE" by (simp_all add: pfd_of_def FD_SETSIZE_def FD_WORDS_def unsigned_of_nat take_bit_nat_eq_self)
  have ev: "events ?p AND POLLIN \<noteq> 0 \<longleftrightarrow> i \<in> R" "events ?p AND POLLOUT \<noteq> 0 \<longleftrightarrow> i \<in> W" "events ?p AND POLLERR \<noteq> 0 \<longleftrightarrow> i \<in> E"
    "events ?p AND POLLHUP = 0" "events ?p AND POLLNVAL = 0" "revents ?p = re i" using ev_of_bits by (simp_all add: pfd_of_def)
  have cc: "?a \<longleftrightarrow> revents ?p AND POLLIN \<noteq> 0 \<and> events ?p AND POLLIN \<noteq> 0" "?b \<longleftrightarrow> revents ?p AND POLLOUT \<noteq> 0 \<and> events ?p AND POLLOUT \<noteq> 0"
    "?c \<longleftrightarrow> revents ?p AND POLLERR \<noteq> 0 \<and> events ?p AND POLLERR \<noteq> 0" "?a \<longrightarrow> r \<noteq> None" "?b \<longrightarrow> w \<noteq> None" "?c \<longrightarrow> e \<noteq> None"
    unfolding ev using Cons.prems(6-8) by blast+
  obtain r1 where r1: "s_PTOS POLLIN ?p (r, s) = Some (r1, s + of_bool ?a)" "fds_ok r1" "r1 = None \<longleftrightarrow> r = None"
    "fds_of r1 = (if ?a then insert i (fds_of r) else fds_of r)"
    using ptos_ok[OF Cons.prems(3) u(2) cc(1,4), of s] unfolding u(1) by (elim exE conjE) (rule that)
  have h: "s_PTOS POLLHUP ?p (r1, x) = Some (r1, x)" for x using ev(4) by (simp add: s_PTOS_def)
  obtain w1 where w1: "s_PTOS POLLOUT ?p (w, s + of_bool ?a) = Some (w1, s + of_bool ?a + of_bool ?b)" "fds_ok w1" "w1 = None \<longleftrightarrow> w = None"
    "fds_of w1 = (if ?b then insert i (fds_of w) else fds_of w)"
    using ptos_ok[OF Cons.prems(4) u(2) cc(2,5), of "s + of_bool ?a"] unfolding u(1) by (elim exE conjE) (rule that)
  obtain e1 where e1: "s_PTOS POLLERR ?p (e, s + of_bool ?a + of_bool ?b) = Some (e1, s + of_bool ?a + of_bool ?b + of_bool ?c)" "fds_ok e1"
    "e1 = None \<longleftrightarrow> e = None" "fds_of e1 = (if ?c then insert i (fds_of e) else fds_of e)"
    using ptos_ok[OF Cons.prems(5) u(2) cc(3,6), of "s + of_bool ?a + of_bool ?b"] unfolding u(1) by (elim exE conjE) (rule that)
  have st: "sel_out (map (pfd_of R W E re) (i # L)) r w e s = sel_out (map (pfd_of R W E re) L) r1 w1 e1 (s + of_bool ?a + of_bool ?b + of_bool ?c)"
    using ev(5) r1(1) h w1(1) e1(1) by simp
  have "distinct L" "\<forall>i \<in> set L. i < FD_SETSIZE" "R \<noteq> {} \<longrightarrow> r1 \<noteq> None" "W \<noteq> {} \<longrightarrow> w1 \<noteq> None" "E \<noteq> {} \<longrightarrow> e1 \<noteq> None"
    using Cons.prems r1(3) w1(3) e1(3) by simp_all
  note ih = Cons.IH[OF this(1,2) r1(2) w1(2) e1(2) this(3-5), of "s + of_bool ?a + of_bool ?b + of_bool ?c"]
  note cd = card_Cons_filter[OF Cons.prems(1)]
  have sets: "{j \<in> set (i # L). P j} = (if P i then insert i {j \<in> set L. P j} else {j \<in> set L. P j})" for P by auto
  from ih obtain r' w' e' where o: "sel_out (map (pfd_of R W E re) L) r1 w1 e1 (s + of_bool ?a + of_bool ?b + of_bool ?c) =
      Some (False, r', w', e', s + of_bool ?a + of_bool ?b + of_bool ?c + word_of_nat (card {i \<in> set L. i \<in> R \<and> re i AND POLLIN \<noteq> 0} +
        card {i \<in> set L. i \<in> W \<and> re i AND POLLOUT \<noteq> 0} + card {i \<in> set L. i \<in> E \<and> re i AND POLLERR \<noteq> 0}))"
    "fds_of r' = fds_of r1 \<union> {i \<in> set L. i \<in> R \<and> re i AND POLLIN \<noteq> 0}"
    "fds_of w' = fds_of w1 \<union> {i \<in> set L. i \<in> W \<and> re i AND POLLOUT \<noteq> 0}"
    "fds_of e' = fds_of e1 \<union> {i \<in> set L. i \<in> E \<and> re i AND POLLERR \<noteq> 0}" by (elim exE conjE) (rule that)
  have num: "s + of_bool a + of_bool b + of_bool c + word_of_nat (x + y + z) = s + (word_of_nat ((of_bool a + x) + (of_bool b + y) + (of_bool c + z)) :: cint)"
    for s a b c x y z by (simp add: ac_simps)
  have un: "(if c then insert i A else A) \<union> B = A \<union> (if c then insert i B else B)" for c A B by simp
  show ?case
    unfolding st o(1) cd num by (intro exI[of _ r'] exI[of _ w'] exI[of _ e'] conjI refl) (simp_all only: o(2-4) r1(4) w1(4) e1(4) sets un)
qed

text \<open>
  What \<open>poll\<close> does: it stores in each entry the events \<open>re\<close> of its descriptor, and returns the number of entries
  with any.
\<close>

definition polls :: "'k kernel \<Rightarrow> (nat \<Rightarrow> 16 word) \<Rightarrow> bool" where
  "polls K re \<longleftrightarrow>
     (\<forall>ps n tm w k r as k'. K SYS_POLL [SP (concat (map enc_pfd ps)), SA n, tm, w, SA 0, SA 0] k = (r, as, k') \<longrightarrow>
        r = word_of_nat (length (filter (\<lambda>p. re (unat (pfd_fd p)) \<noteq> 0) ps)) \<and>
        (\<exists>as'. as = SP (concat (map (\<lambda>p. enc_pfd (p\<lparr>revents := re (unat (pfd_fd p))\<rparr>)) ps)) # as'))"

lemma poll_polls:
  assumes "polls K re" "\<forall>p \<in> set ps. revents p = 0" "length ps < 2 ^ 31"
  shows "\<exists>as p'. poll K (concat (map enc_pfd ps)) (word_of_nat (length ps)) tm p =
      Some (word_of_nat (length (filter (\<lambda>p. re (unat (pfd_fd p)) \<noteq> 0) ps)), as, p') \<and>
    obj (as ! 0) = concat (map enc_pfd (map (\<lambda>p. p\<lparr>revents := re (unat (pfd_fd p))\<rparr>) ps))"
proof -
  let ?b = "concat (map enc_pfd ps)" and ?w = "case arch p of X86_64 rsp \<Rightarrow> SA rsp | AArch64 \<Rightarrow> SA 0" and ?n = "word_of_nat (length ps) :: long"
  let ?c = "length (filter (\<lambda>p. re (unat (pfd_fd p)) \<noteq> 0) ps)"
  have "unat ?n = length ps" using assms(3) by (intro unat_word_of_nat_small) simp
  then have cl: "clear_revents (unat ?n) ?b = Some ?b" using clear_enc[OF assms(2)] by simp
  obtain r as k where K: "K SYS_POLL [SP ?b, SA ?n, SAi tm, ?w, SA 0, SA 0] (kern p) = (r, as, k)"
    by (cases "K SYS_POLL [SP ?b, SA ?n, SAi tm, ?w, SA 0, SA 0] (kern p)")
  then have r: "r = word_of_nat ?c" "\<exists>as'. as = SP (concat (map (\<lambda>p. enc_pfd (p\<lparr>revents := re (unat (pfd_fd p))\<rparr>)) ps)) # as'"
    using assms(1) unfolding polls_def by blast+
  have c: "?c < 2 ^ 31" using assms(3) length_filter_le[of _ ps] by (rule order.strict_trans1[rotated])
  then have u: "unat r < 2 ^ 31" unfolding r(1) by (simp add: unat_word_of_nat_small)
  have "syscall K [SP ?b, SA ?n, SAi tm, SA 0, SA 0] SYS_POLL p = (r, as, p\<lparr>kern := k\<rparr>)" using K by (simp add: syscall_5)
  moreover have "(ucast r :: cint) = word_of_nat ?c" unfolding r(1) by (rule bit_word_eqI) (auto simp: bit_simps)
  ultimately have "poll K ?b ?n tm p = Some (word_of_nat ?c, as, p\<lparr>kern := k\<rparr>)"
    using ucast_small_nonneg[OF u] cl by (simp add: poll_def sys_neg_def ERRNO_NEG_def)
  moreover have "obj (as ! 0) = concat (map enc_pfd (map (\<lambda>p. p\<lparr>revents := re (unat (pfd_fd p))\<rparr>) ps))" using r(2) by (auto simp: comp_def)
  ultimately show ?thesis by blast
qed

lemma select_ok:
  assumes "polls K re" "fds_ok r" "fds_ok w" "fds_ok e" "sint maxfd \<le> int FD_SETSIZE"
  shows "\<exists>r' w' e' p'. select K maxfd r w e tv p =
      Ret (word_of_nat (card {i \<in> fds_of r. int i < sint maxfd \<and> re i AND POLLIN \<noteq> 0} +
        card {i \<in> fds_of w. int i < sint maxfd \<and> re i AND POLLOUT \<noteq> 0} +
        card {i \<in> fds_of e. int i < sint maxfd \<and> re i AND POLLERR \<noteq> 0}), r', w', e', p') \<and>
    fds_of r' = {i \<in> fds_of r. int i < sint maxfd \<and> re i AND POLLIN \<noteq> 0} \<and>
    fds_of w' = {i \<in> fds_of w. int i < sint maxfd \<and> re i AND POLLOUT \<noteq> 0} \<and>
    fds_of e' = {i \<in> fds_of e. int i < sint maxfd \<and> re i AND POLLERR \<noteq> 0}"
proof -
  let ?is = "[0..<nat (sint maxfd)]" and ?R = "fds_of r" and ?W = "fds_of w" and ?E = "fds_of e"
  define L where "L = filter (\<lambda>i. i \<in> ?R \<union> ?W \<union> ?E) ?is"
  let ?z = "map_option (\<lambda>_ :: fd_set. FD_ZERO)"
  have lim: "\<forall>i \<in> set ?is. i < FD_SETSIZE" using assms(5) by auto
  have L: "distinct L" "\<forall>i \<in> set L. i < FD_SETSIZE" using lim by (auto simp: L_def)
  have L3: "length L \<le> 1024" using assms(5) length_filter_le[of "\<lambda>i. i \<in> ?R \<union> ?W \<union> ?E" ?is] unfolding L_def FD_SETSIZE_def FD_WORDS_def by simp
  have mem: "i \<in> set L \<longleftrightarrow> int i < sint maxfd \<and> i \<in> ?R \<union> ?W \<union> ?E" for i by (auto simp: L_def)
  let ?ps = "map (pfd_of ?R ?W ?E (\<lambda>_. 0)) L"
  have c: "sel_count r w e ?is 0 = Some (length L)" using sel_count_ok[OF assms(2-4) lim] by (simp add: L_def)
  have f: "sel_fill r w e (length L) ?is [] = Some ?ps" using sel_fill_ok[OF assms(2-4) lim, of "[]" "length L"] by (simp add: L_def)
  have u: "unat (word_of_nat i :: cint) = i" if "i \<in> set L" for i
    using bspec[OF L(2) that] by (simp add: FD_SETSIZE_def FD_WORDS_def unsigned_of_nat take_bit_nat_eq_self)
  have pm: "map (\<lambda>p. p\<lparr>revents := re (unat (pfd_fd p))\<rparr>) ?ps = map (pfd_of ?R ?W ?E re) L" using u by (simp add: pfd_of_def)
  have fl: "length (filter (\<lambda>p. re (unat (pfd_fd p)) \<noteq> 0) ?ps) = length (filter (\<lambda>i. re i \<noteq> 0) L)"
    using u by (simp add: filter_map comp_def pfd_of_def cong: filter_cong)
  obtain as p' where po: "poll K (concat (map enc_pfd ?ps)) (word_of_nat (length L)) (sel_timeout tv) p = Some (word_of_nat (length (filter (\<lambda>i. re i \<noteq> 0) L)), as, p')"
    "obj (as ! 0) = concat (map enc_pfd (map (pfd_of ?R ?W ?E re) L))"
    using poll_polls[OF assms(1), of ?ps "sel_timeout tv" p] L3 unfolding pm fl by (auto simp: pfd_of_def)
  have de: "dec_pfds (length L) (obj (as ! 0)) = map (pfd_of ?R ?W ?E re) L" unfolding po(2) using dec_enc[of "map (pfd_of ?R ?W ?E re) L"] by simp
  have S: "{i \<in> set L. i \<in> ?R \<and> P i} = {i \<in> ?R. int i < sint maxfd \<and> P i}" "{i \<in> set L. i \<in> ?W \<and> P i} = {i \<in> ?W. int i < sint maxfd \<and> P i}"
    "{i \<in> set L. i \<in> ?E \<and> P i} = {i \<in> ?E. int i < sint maxfd \<and> P i}" for P unfolding mem by auto
  have none: "A \<noteq> {} \<longrightarrow> ?z g \<noteq> None" if "A = fds_of g" for A g using that by (cases g) (auto simp: fds_of_def)
  obtain r' w' e' where o: "sel_out (map (pfd_of ?R ?W ?E re) L) (?z r) (?z w) (?z e) 0 =
      Some (False, r', w', e', word_of_nat (card {i \<in> ?R. int i < sint maxfd \<and> re i AND POLLIN \<noteq> 0} +
        card {i \<in> ?W. int i < sint maxfd \<and> re i AND POLLOUT \<noteq> 0} + card {i \<in> ?E. int i < sint maxfd \<and> re i AND POLLERR \<noteq> 0}))"
    "fds_of r' = {i \<in> ?R. int i < sint maxfd \<and> re i AND POLLIN \<noteq> 0}" "fds_of w' = {i \<in> ?W. int i < sint maxfd \<and> re i AND POLLOUT \<noteq> 0}"
    "fds_of e' = {i \<in> ?E. int i < sint maxfd \<and> re i AND POLLERR \<noteq> 0}"
    using sel_out_ok[OF L(1,2) fds_zero(2) fds_zero(2) fds_zero(2) none[OF refl] none[OF refl] none[OF refl], of r w e re 0, unfolded S fds_zero(1)]
    unfolding add_0 Un_empty_left by (elim exE conjE) (rule that)
  let ?c = "length (filter (\<lambda>i. re i \<noteq> 0) L)"
  show ?thesis
  proof (cases "?c = 0")
    case True
    then have z: "re i = 0" if "i \<in> set L" for i using that by (auto simp: filter_empty_conv)
    have E0: "{i \<in> ?R. int i < sint maxfd \<and> re i AND POLLIN \<noteq> 0} = {}" "{i \<in> ?W. int i < sint maxfd \<and> re i AND POLLOUT \<noteq> 0} = {}"
      "{i \<in> ?E. int i < sint maxfd \<and> re i AND POLLERR \<noteq> 0} = {}" using z unfolding mem by auto
    have "select K maxfd r w e tv p = Ret (0, ?z r, ?z w, ?z e, p')"
      using c f po(1) True by (simp add: select_def Let_def)
    then show ?thesis unfolding E0 using fds_zero(1) by auto
  next
    case False
    have "?c < 2 ^ 31" by (intro order.strict_trans1[OF order.trans[OF length_filter_le L3]]) simp
    then have "sint (word_of_nat ?c :: cint) = int ?c" by (rule sint_index)
    then have "\<not> (word_of_nat ?c :: cint) \<le>s 0" using False by (simp add: word_sle_eq)
    then have "select K maxfd r w e tv p =
        Ret (word_of_nat (card {i \<in> ?R. int i < sint maxfd \<and> re i AND POLLIN \<noteq> 0} +
        card {i \<in> ?W. int i < sint maxfd \<and> re i AND POLLOUT \<noteq> 0} + card {i \<in> ?E. int i < sint maxfd \<and> re i AND POLLERR \<noteq> 0}), r', w', e', p')"
      using c f po(1) de o(1) unfolding select_def Let_def by simp
    then show ?thesis using o(2-4) by blast
  qed
qed

section \<open>A kernel for the witnesses\<close>

definition poll_kernel :: "(nat \<Rightarrow> 16 word) \<Rightarrow> unit kernel" where
  "poll_kernel re trap as k =
     (case as of
        SP b # _ \<Rightarrow>
          let ps = dec_pfds (length b div 8) b in
          (word_of_nat (length (filter (\<lambda>p. re (unat (pfd_fd p)) \<noteq> 0) ps)),
           [SP (concat (map (\<lambda>p. enc_pfd (p\<lparr>revents := re (unat (pfd_fd p))\<rparr>)) ps))], k)
      | _ \<Rightarrow> (0, [], k))"

lemma length_enc_pfds: "length (concat (map enc_pfd ps)) div 8 = length ps"
  by (induction ps) simp_all

lemma poll_kernel_polls: "polls (poll_kernel re) re"
  by (simp add: polls_def poll_kernel_def Let_def length_enc_pfds dec_enc)

definition proc_sel :: "unit proc" where
  "proc_sel = \<lparr>errno = 0, kern = (), diag = [], arch = AArch64\<rparr>"

definition events_0 :: "nat \<Rightarrow> 16 word" where
  "events_0 i = (if i = 3 then POLLIN OR POLLOUT else if i = 70 then POLLERR else 0)"

definition fds_0 :: fd_set where "fds_0 = [0x28, 0x40] @ replicate 14 0"

lemma fds_0_ok: "fds_ok (Some fds_0)" "fds_ok None"
  by (simp_all add: fds_ok_def fds_0_def FD_WORDS_def)

section \<open>Properties\<close>



text \<open>
  C39: a descriptor whose peer hung up is dropped. When \<open>poll\<close> reports nothing but \<open>POLLHUP\<close>, \<open>select\<close> returns 0 and
  empties the sets although the kernel reported the descriptors ready: the test for \<open>POLLHUP\<close> also wants it among the
  events asked for, where it never is, so the comment that a hang-up counts as ready for reading does not hold.
\<close>

theorem select_drops_hup:
  assumes "polls K re" "fds_ok r" "fds_ok w" "fds_ok e" "sint maxfd \<le> int FD_SETSIZE"
    and "\<forall>i. re i = 0 \<or> re i = POLLHUP"
  shows "\<exists>r' w' e' p'. select K maxfd r w e tv p = Ret (0, r', w', e', p') \<and> fds_of r' = {} \<and> fds_of w' = {} \<and> fds_of e' = {}"
proof -
  have "re i AND POLLIN = 0" "re i AND POLLOUT = 0" "re i AND POLLERR = 0" for i
    using assms(6)[rule_format, of i] by (auto simp: POLLIN_def POLLOUT_def POLLERR_def POLLHUP_def)
  then show ?thesis using select_ok[OF assms(1-5), of tv p] by simp
qed

theorem select_drops_hup_witness:
  "\<exists>r' w' e' p'. select (poll_kernel (\<lambda>_. POLLHUP)) 71 (Some fds_0) None None None proc_sel = Ret (0, r', w', e', p') \<and>
    fds_of r' = {} \<and> fds_of w' = {} \<and> fds_of e' = {}"
  by (rule select_drops_hup[OF poll_kernel_polls fds_0_ok(1) fds_0_ok(2) fds_0_ok(2)]) (simp_all add: FD_SETSIZE_def FD_WORDS_def)

end
