(* ===== verification/Litc_Qsort.thy ===== *)
theory Litc_Qsort
  imports Litc_Mem
begin

text \<open>
  \<open>qsort\<close> of \<open>litc.c\<close> (lines 2776 to 2840), at the level of bytes: \<open>base\<close>, the scratch area and the pivot are
  addresses in one memory, elements are moved with the \<open>memmove\<close> of the library, and the comparison
  function sees the \<open>esz\<close> bytes at its two pointers. \<open>None\<close> is an access outside the memory.

  The reference is \<open>qs\<close>, the same sort on a list; \<open>s_qsort\<close> refines it, and \<open>qs\<close> sorts for every
  comparison that is a total preorder.
\<close>

section \<open>The code\<close>

type_synonym cmp = "byte list \<Rightarrow> byte list \<Rightarrow> int"

definition mv :: "mem \<Rightarrow> nat \<Rightarrow> nat \<Rightarrow> nat \<Rightarrow> mem option" where
  "mv m d s n = map_option snd (memmove m d s n)"

definition cmp_at :: "cmp \<Rightarrow> nat \<Rightarrow> mem \<Rightarrow> nat \<Rightarrow> nat \<Rightarrow> int option" where
  "cmp_at cmp esz m p q =
     (case (loadn m p esz, loadn m q esz) of (Some x, Some y) \<Rightarrow> Some (cmp x y) | _ \<Rightarrow> None)"

text \<open>
  \<open>for (i = 1; i < elms; i++, cur += esz)\<close>: \<open>k\<close> elements are left; the result is the memory and the
  numbers of elements below and not below the pivot.
\<close>

fun part_loop :: "cmp \<Rightarrow> nat \<Rightarrow> nat \<Rightarrow> nat \<Rightarrow> mem \<Rightarrow> nat \<Rightarrow> nat \<Rightarrow> nat \<Rightarrow> nat \<Rightarrow> nat \<Rightarrow> (mem \<times> nat \<times> nat) option"
where
  "part_loop cmp esz pivot 0 m cur lh hh l h = Some (m, l, h)"
| "part_loop cmp esz pivot (Suc k) m cur lh hh l h =
     (case cmp_at cmp esz m cur pivot of
        None \<Rightarrow> None
      | Some c \<Rightarrow>
          if c < 0 then
            (case mv m lh cur esz of None \<Rightarrow> None
             | Some m' \<Rightarrow> part_loop cmp esz pivot k m' (cur + esz) (lh + esz) hh (Suc l) h)
          else
            (case mv m hh cur esz of None \<Rightarrow> None
             | Some m' \<Rightarrow> part_loop cmp esz pivot k m' (cur + esz) lh (hh - esz) l (Suc h)))"

lemma part_loop_count: "part_loop cmp esz pivot k m cur lh hh l h = Some (m', l', h') \<Longrightarrow> l' + h' = l + h + k"
  by (induction k arbitrary: m cur lh hh l h) (auto split: option.splits if_splits)

definition swap2 :: "cmp \<Rightarrow> nat \<Rightarrow> nat \<Rightarrow> mem \<Rightarrow> nat \<Rightarrow> mem option" where
  "swap2 cmp esz pivot m base =
     (case cmp_at cmp esz m base (base + esz) of
        None \<Rightarrow> None
      | Some c \<Rightarrow>
          if c > 0 then
            (case mv m pivot base esz of None \<Rightarrow> None | Some m1 \<Rightarrow>
             case mv m1 base (base + esz) esz of None \<Rightarrow> None | Some m2 \<Rightarrow>
             mv m2 (base + esz) pivot esz)
          else Some m)"

text \<open>The pivot is saved, the others are sorted into the scratch area, and all is copied back.\<close>

definition partition_step :: "cmp \<Rightarrow> nat \<Rightarrow> nat \<Rightarrow> nat \<Rightarrow> mem \<Rightarrow> nat \<Rightarrow> nat \<Rightarrow> (mem \<times> nat \<times> nat) option" where
  "partition_step cmp esz scratch pivot m base elms =
     (case mv m pivot base esz of None \<Rightarrow> None | Some m1 \<Rightarrow>
      case part_loop cmp esz pivot (elms - 1) m1 (base + esz) scratch (scratch + (elms - 1) * esz) 0 0 of
        None \<Rightarrow> None
      | Some (m2, l, h) \<Rightarrow>
          (case mv m2 base scratch (l * esz) of None \<Rightarrow> None | Some m3 \<Rightarrow>
           case mv m3 (base + l * esz) pivot esz of None \<Rightarrow> None | Some m4 \<Rightarrow>
           case mv m4 (base + l * esz + esz) (scratch + (elms - h) * esz) (h * esz) of
             None \<Rightarrow> None | Some m5 \<Rightarrow> Some (m5, l, h)))"

lemma partition_step_count:
  "partition_step cmp esz scratch pivot m base elms = Some (m', l, h) \<Longrightarrow> l + h = elms - 1"
  by (auto simp: partition_step_def split: option.splits dest: part_loop_count)

function s_qsort :: "cmp \<Rightarrow> nat \<Rightarrow> nat \<Rightarrow> nat \<Rightarrow> mem \<Rightarrow> nat \<Rightarrow> nat \<Rightarrow> mem option" where
  "s_qsort cmp esz scratch pivot m base elms =
     (if elms \<le> 1 then Some m
      else if elms = 2 then swap2 cmp esz pivot m base
      else case partition_step cmp esz scratch pivot m base elms of
        None \<Rightarrow> None
      | Some (m1, l, h) \<Rightarrow>
          (case s_qsort cmp esz scratch pivot m1 base l of
             None \<Rightarrow> None
           | Some m2 \<Rightarrow> s_qsort cmp esz scratch pivot m2 (base + l * esz + esz) h))"
  by pat_completeness auto
termination
  by (relation "measure (\<lambda>(cmp, esz, scratch, pivot, m, base, elms). elms)")
    (auto dest!: partition_step_count)

declare s_qsort.simps [simp del]

text \<open>
  The scratch area of \<open>elms + 1\<close> elements comes from \<open>calloc\<close>: a fresh zeroed object, here behind the
  memory, and gone after \<open>free\<close>. \<open>calloc\<close> fails when the product does not fit in 64 bits, or for lack
  of memory (\<open>avail\<close>).
\<close>

definition qsort :: "bool \<Rightarrow> cmp \<Rightarrow> mem \<Rightarrow> nat \<Rightarrow> nat \<Rightarrow> nat \<Rightarrow> mem outcome" where
  "qsort avail cmp m base elms esz =
     (if \<not> avail \<or> 2 ^ 64 \<le> (elms + 1) * esz then Errx (- 1) ''qsort calloc''
      else
        (let scratch = length m; m0 = m @ replicate ((elms + 1) * esz) 0 in
         case s_qsort cmp esz scratch (scratch + elms * esz) m0 base elms of
           None \<Rightarrow> Fault
         | Some m' \<Rightarrow> Ret (take (length m) m')))"

section \<open>The reference\<close>

function qs :: "('a \<Rightarrow> 'a \<Rightarrow> int) \<Rightarrow> 'a list \<Rightarrow> 'a list" where
  "qs cmp [] = []"
| "qs cmp [x] = [x]"
| "qs cmp [x, y] = (if cmp x y > 0 then [y, x] else [x, y])"
| "qs cmp (p # x # y # xs) =
     qs cmp (filter (\<lambda>z. cmp z p < 0) (x # y # xs)) @ p #
     qs cmp (rev (filter (\<lambda>z. \<not> cmp z p < 0) (x # y # xs)))"
  by pat_completeness auto
termination
  by (relation "measure (\<lambda>(cmp, xs). length xs)") (auto simp: less_Suc_eq_le intro: le_SucI length_filter_le)

text \<open>The comparisons \<open>qsort\<close> is specified for.\<close>

definition total_preorder :: "('a \<Rightarrow> 'a \<Rightarrow> int) \<Rightarrow> bool" where
  "total_preorder cmp \<longleftrightarrow>
     (\<forall>x y. cmp x y > 0 \<longleftrightarrow> cmp y x < 0) \<and>
     (\<forall>x y z. cmp x y \<le> 0 \<longrightarrow> cmp y z \<le> 0 \<longrightarrow> cmp x z \<le> 0)"

lemma mset_qs [simp]: "mset (qs cmp xs) = mset xs"
  by (induction cmp xs rule: qs.induct) (auto simp: add_mset_commute)

lemma set_qs [simp]: "set (qs cmp xs) = set xs"
  using mset_qs by (metis set_mset_mset)

lemma sorted_qs:
  assumes "total_preorder cmp"
  shows "sorted_wrt (\<lambda>x y. cmp x y \<le> 0) (qs cmp xs)"
  using assms
proof (induction cmp xs rule: qs.induct)
  case (3 cmp x y)
  then have "0 < cmp x y \<Longrightarrow> cmp y x \<le> 0" unfolding total_preorder_def by (metis less_le)
  then show ?case by auto
next
  case (4 cmp p x y xs)
  have lt: "cmp z p \<le> 0 \<and> cmp p w \<le> 0 \<and> cmp z w \<le> 0" if "cmp z p < 0" "\<not> cmp w p < 0" for z w
    using "4.prems" that unfolding total_preorder_def by (meson less_le not_le)
  have hi: "cmp p w \<le> 0" if "\<not> cmp w p < 0" for w
    using "4.prems" that unfolding total_preorder_def by (meson not_le)
  from 4 show ?case
    by (auto simp: sorted_wrt_append dest: lt hi simp del: filter.simps)
qed simp_all

section \<open>Regions\<close>

definition rd :: "mem \<Rightarrow> nat \<Rightarrow> nat \<Rightarrow> byte list" where
  "rd m a k = take k (drop a m)"

definition elems :: "mem \<Rightarrow> nat \<Rightarrow> nat \<Rightarrow> nat \<Rightarrow> byte list list" where
  "elems m base n esz = map (\<lambda>i. rd m (base + i * esz) esz) [0..<n]"

text \<open>\<open>m'\<close> differs from \<open>m\<close> at most in the bytes from \<open>lo\<close> to \<open>hi\<close>.\<close>

definition upto_range :: "nat \<Rightarrow> nat \<Rightarrow> mem \<Rightarrow> mem \<Rightarrow> bool" where
  "upto_range lo hi m m' \<longleftrightarrow> length m' = length m \<and> (\<forall>i < length m. i < lo \<or> hi \<le> i \<longrightarrow> m' ! i = m ! i)"

lemma upto_rangeD: "upto_range lo hi m m' \<Longrightarrow> length m' = length m"
  by (simp add: upto_range_def)

lemma rd_upto:
  assumes "upto_range lo hi m m'" "a + k \<le> lo \<or> hi \<le> a" "a + k \<le> length m"
  shows "rd m' a k = rd m a k"
  using assms by (intro nth_equalityI) (auto simp: rd_def upto_range_def)

lemma upto_range_refl [simp]: "upto_range lo hi m m"
  by (simp add: upto_range_def)

lemma upto_range_mono: "upto_range lo hi m m' \<Longrightarrow> lo' \<le> lo \<Longrightarrow> hi \<le> hi' \<Longrightarrow> upto_range lo' hi' m m'"
  by (auto simp: upto_range_def)

lemma mv_blit: "s + n \<le> length m \<Longrightarrow> d + n \<le> length m \<Longrightarrow> mv m d s n = Some (blit m d s n)"
  by (simp add: mv_def memmove_blit)

lemma upto_range_blit: "s + n \<le> length m \<Longrightarrow> d + n \<le> length m \<Longrightarrow> upto_range d (d + n) m (blit m d s n)"
  by (auto simp: upto_range_def nth_blit)

lemma rd_blit_in:
  assumes "s + n \<le> length m" "d + n \<le> length m" "off + k \<le> n"
  shows "rd (blit m d s n) (d + off) k = rd m (s + off) k"
  using assms by (intro nth_equalityI) (auto simp: rd_def nth_blit add.assoc)

lemma rd_blit_out:
  assumes "s + n \<le> length m" "d + n \<le> length m" "a + k \<le> d \<or> d + n \<le> a" "a + k \<le> length m"
  shows "rd (blit m d s n) a k = rd m a k"
  using rd_upto[OF upto_range_blit] assms by blast

lemma cmp_at_rd: "p + esz \<le> length m \<Longrightarrow> q + esz \<le> length m \<Longrightarrow>
  cmp_at cmp esz m p q = Some (cmp (rd m p esz) (rd m q esz))"
  by (simp add: cmp_at_def loadn_def rd_def)

text \<open>Two slots of an array do not overlap.\<close>

lemma slot_apart:
  fixes i j esz :: nat
  assumes "i \<noteq> j"
  shows "a + i * esz + esz \<le> a + j * esz \<or> a + j * esz + esz \<le> a + i * esz"
proof -
  have "Suc i \<le> j \<or> Suc j \<le> i" using assms by linarith
  then have "Suc i * esz \<le> j * esz \<or> Suc j * esz \<le> i * esz" using mult_le_mono1 by blast
  then show ?thesis by (simp add: add.commute)
qed

lemma slot_bound: "i < n \<Longrightarrow> i * esz + esz \<le> n * (esz :: nat)"
  by (metis Suc_leI add.commute mult_Suc mult_le_mono1)

text \<open>One element is written to slot \<open>t\<close> of an array of \<open>n\<close>.\<close>

lemma slot_write:
  assumes "t < n" "scr + n * esz \<le> length m" "cur + esz \<le> length m"
  shows "mv m (scr + t * esz) cur esz = Some (blit m (scr + t * esz) cur esz)"
    and "rd (blit m (scr + t * esz) cur esz) (scr + t * esz) esz = rd m cur esz"
    and "i < n \<Longrightarrow> i \<noteq> t \<Longrightarrow> rd (blit m (scr + t * esz) cur esz) (scr + i * esz) esz = rd m (scr + i * esz) esz"
    and "upto_range scr (scr + n * esz) m (blit m (scr + t * esz) cur esz)"
proof -
  have sb: "scr + i * esz + esz \<le> length m" if "i < n" for i using slot_bound[OF that, of esz] assms(2) by linarith
  note tb = sb[OF assms(1)]
  show "mv m (scr + t * esz) cur esz = Some (blit m (scr + t * esz) cur esz)"
    by (rule mv_blit[OF assms(3) tb])
  show "rd (blit m (scr + t * esz) cur esz) (scr + t * esz) esz = rd m cur esz"
    using rd_blit_in[OF assms(3) tb, of 0 esz] by simp
  show "rd (blit m (scr + t * esz) cur esz) (scr + i * esz) esz = rd m (scr + i * esz) esz"
    if "i < n" "i \<noteq> t" for i
    using rd_blit_out[OF assms(3) tb] slot_apart[OF that(2), of scr esz] sb[OF that(1)] by blast
  show "upto_range scr (scr + n * esz) m (blit m (scr + t * esz) cur esz)"
    using upto_range_mono[OF upto_range_blit[OF assms(3) tb]] slot_bound[OF assms(1), of esz] by simp
qed

text \<open>The scratch area holds \<open>L\<close> from the front and \<open>H\<close> from the back.\<close>

definition filled :: "mem \<Rightarrow> nat \<Rightarrow> nat \<Rightarrow> nat \<Rightarrow> byte list list \<Rightarrow> byte list list \<Rightarrow> bool" where
  "filled m scr esz n L H \<longleftrightarrow>
     (\<forall>i < length L. rd m (scr + i * esz) esz = L ! i) \<and>
     (\<forall>j < length H. rd m (scr + (n - 1 - j) * esz) esz = H ! j)"

lemma filled_low:
  assumes "filled m scr esz n L H" "length L + length H < n" "scr + n * esz \<le> length m" "cur + esz \<le> length m"
  shows "filled (blit m (scr + length L * esz) cur esz) scr esz n (L @ [rd m cur esz]) H"
proof -
  have l: "length L < n" using assms(2) by simp
  note w = slot_write[OF l assms(3,4)]
  show ?thesis
    using assms(1,2) w(2) w(3) by (auto simp: filled_def nth_append less_Suc_eq)
qed

lemma filled_high:
  assumes "filled m scr esz n L H" "length L + length H < n" "scr + n * esz \<le> length m" "cur + esz \<le> length m"
  shows "filled (blit m (scr + (n - 1 - length H) * esz) cur esz) scr esz n L (H @ [rd m cur esz])"
proof -
  have l: "n - 1 - length H < n" using assms(2) by simp
  note w = slot_write[OF l assms(3,4)]
  show ?thesis
    using assms(1,2) w(2) w(3) by (auto simp: filled_def nth_append less_Suc_eq)
qed

lemma elems_Suc: "elems m a (Suc k) esz = rd m a esz # elems m (a + esz) k esz"
  by (simp add: elems_def upt_conv_Cons map_Suc_upt[symmetric] algebra_simps o_def del: upt_Suc)

lemma elems_upto:
  assumes "upto_range lo hi m m'" "a + k * esz \<le> lo \<or> hi \<le> a" "a + k * esz \<le> length m"
  shows "elems m' a k esz = elems m a k esz"
  unfolding elems_def
proof (rule map_cong[OF refl])
  fix i assume "i \<in> set [0..<k]"
  then have "i * esz + esz \<le> k * esz" using slot_bound by simp
  then show "rd m' (a + i * esz) esz = rd m (a + i * esz) esz"
    using assms(2,3) by (intro rd_upto[OF assms(1)]) auto
qed

lemma upto_range_trans: "upto_range lo hi m m1 \<Longrightarrow> upto_range lo hi m1 m2 \<Longrightarrow> upto_range lo hi m m2"
  by (simp add: upto_range_def)

text \<open>The partition loop fills the scratch area from both ends.\<close>

lemma part_loop_spec:
  assumes "filled m scr esz n L H" "rd m pivot esz = p" "length L + length H + k < n"
    and "scr + n * esz \<le> pivot" "pivot + esz \<le> length m" "cur + k * esz \<le> length m"
    and "cur + k * esz \<le> scr \<or> scr + n * esz \<le> cur"
  shows "\<exists>m' lo hi. lo = filter (\<lambda>x. cmp x p < 0) (elems m cur k esz) \<and>
     hi = filter (\<lambda>x. \<not> cmp x p < 0) (elems m cur k esz) \<and>
     part_loop cmp esz pivot k m cur (scr + length L * esz) (scr + (n - 1 - length H) * esz) (length L) (length H) =
       Some (m', length (L @ lo), length (H @ hi)) \<and>
     filled m' scr esz n (L @ lo) (H @ hi) \<and> upto_range scr (scr + n * esz) m m'"
  using assms
proof (induction k arbitrary: m cur L H)
  case 0
  then show ?case by (simp add: elems_def)
next
  case (Suc k)
  let ?x = "rd m cur esz"
  have cb: "cur + esz \<le> length m" "scr + n * esz \<le> length m" using Suc.prems by auto
  have cmp: "cmp_at cmp esz m cur pivot = Some (cmp ?x p)"
    using Suc.prems(2,5) cb by (simp add: cmp_at_rd)
  have ln: "length L + length H < n" "length L < n" "n - 1 - length H < n" using Suc.prems(3) by auto
  have IH: "\<exists>m' lo hi. lo = filter (\<lambda>x. cmp x p < 0) (elems m (cur + esz) k esz) \<and>
     hi = filter (\<lambda>x. \<not> cmp x p < 0) (elems m (cur + esz) k esz) \<and>
     part_loop cmp esz pivot k m1 (cur + esz) (scr + length L1 * esz) (scr + (n - 1 - length H1) * esz) (length L1) (length H1) =
       Some (m', length (L1 @ lo), length (H1 @ hi)) \<and>
     filled m' scr esz n (L1 @ lo) (H1 @ hi) \<and> upto_range scr (scr + n * esz) m m'"
    if f: "filled m1 scr esz n L1 H1" and u: "upto_range scr (scr + n * esz) m m1"
      and len: "length L1 + length H1 = Suc (length L + length H)" for m1 L1 H1
  proof -
    have "rd m1 pivot esz = p" using rd_upto[OF u] Suc.prems(2,4,5) by simp
    moreover have "elems m1 (cur + esz) k esz = elems m (cur + esz) k esz"
      using Suc.prems(6,7) by (intro elems_upto[OF u]) auto
    ultimately show ?thesis
      using Suc.IH[OF f, of "cur + esz"] upto_rangeD[OF u] len Suc.prems(3-7) upto_range_trans[OF u] by fastforce
  qed
  show ?case
  proof (cases "cmp ?x p < 0")
    case True
    from IH[OF filled_low[OF Suc.prems(1) ln(1) cb(2,1)] slot_write(4)[OF ln(2) cb(2,1)]] True
    show ?thesis by (auto simp: elems_Suc cmp slot_write(1)[OF ln(2) cb(2,1)] add.assoc add.commute[of esz])
  next
    case False
    have "n - 1 - length H = Suc (n - 1 - length (H @ [?x]))" using Suc.prems(3) by simp
    then have hh: "scr + (n - 1 - length H) * esz - esz = scr + (n - 1 - length (H @ [?x])) * esz"
      by (simp only: mult_Suc)
    from IH[OF filled_high[OF Suc.prems(1) ln(1) cb(2,1)] slot_write(4)[OF ln(3) cb(2,1)]] False
    show ?thesis
      by (simp only: part_loop.simps cmp option.case if_False slot_write(1)[OF ln(3) cb(2,1)] hh elems_Suc) auto
  qed
qed

lemma elems_blit:
  assumes "s + k * esz \<le> length m" "d + k * esz \<le> length m"
  shows "elems (blit m d s (k * esz)) d k esz = elems m s k esz"
  unfolding elems_def
proof (rule map_cong[OF refl])
  fix i assume "i \<in> set [0..<k]"
  then show "rd (blit m d s (k * esz)) (d + i * esz) esz = rd m (s + i * esz) esz"
    using slot_bound by (intro rd_blit_in[OF assms]) simp
qed

lemma filled_elems:
  assumes "filled m scr esz n L H" "length L + length H < n"
  shows "elems m scr (length L) esz = L" "elems m (scr + (n - length H) * esz) (length H) esz = rev H"
proof -
  show "elems m scr (length L) esz = L"
    using assms(1) by (intro nth_equalityI) (simp_all add: elems_def filled_def)
  show "elems m (scr + (n - length H) * esz) (length H) esz = rev H"
  proof (rule nth_equalityI)
    fix j assume "j < length (elems m (scr + (n - length H) * esz) (length H) esz)"
    then have j: "j < length H" by (simp add: elems_def)
    let ?q = "length H - 1 - j"
    have "n - 1 - ?q = n - length H + j" using j assms(2) by simp
    moreover have "rd m (scr + (n - 1 - ?q) * esz) esz = H ! ?q"
      using assms(1)[unfolded filled_def, THEN conjunct2, rule_format, of ?q] j by simp
    ultimately have "rd m (scr + (n - length H + j) * esz) esz = rev H ! j" using j by (simp add: rev_nth)
    then show "elems m (scr + (n - length H) * esz) (length H) esz ! j = rev H ! j"
      using j by (simp add: elems_def add_mult_distrib add.assoc)
  qed (simp add: elems_def)
qed

text \<open>Where an array of \<open>n\<close> elements and its scratch area with the pivot lie.\<close>

definition qregion :: "mem \<Rightarrow> nat \<Rightarrow> nat \<Rightarrow> nat \<Rightarrow> nat \<Rightarrow> nat \<Rightarrow> bool" where
  "qregion m base n esz scr piv \<longleftrightarrow> base + n * esz \<le> length m \<and> scr + n * esz \<le> piv \<and>
     piv + esz \<le> length m \<and> (base + n * esz \<le> scr \<or> piv + esz \<le> base)"

text \<open>Nothing outside these two areas changes.\<close>

definition qframe :: "nat \<Rightarrow> nat \<Rightarrow> nat \<Rightarrow> nat \<Rightarrow> mem \<Rightarrow> mem \<Rightarrow> bool" where
  "qframe b e scr f m m' \<longleftrightarrow> length m' = length m \<and>
     (\<forall>i < length m. \<not> (b \<le> i \<and> i < e) \<longrightarrow> \<not> (scr \<le> i \<and> i < f) \<longrightarrow> m' ! i = m ! i)"

lemma qframe_refl [simp]: "qframe b e s f m m"
  by (simp add: qframe_def)

lemma qframe_trans: "qframe b e s f m m1 \<Longrightarrow> qframe b e s f m1 m2 \<Longrightarrow> qframe b e s f m m2"
  by (simp add: qframe_def)

lemma qframe_upto: "upto_range lo hi m m' \<Longrightarrow> b \<le> lo \<and> hi \<le> e \<or> s \<le> lo \<and> hi \<le> f \<Longrightarrow> qframe b e s f m m'"
  unfolding upto_range_def qframe_def by (metis less_le_trans not_le order_trans)

lemma qframe_mono: "qframe b e s f m m' \<Longrightarrow> b' \<le> b \<Longrightarrow> e \<le> e' \<Longrightarrow> qframe b' e' s f m m'"
  by (auto simp: qframe_def)

lemma rd_qframe:
  assumes "qframe b e s f m m'" "a + k \<le> b \<or> e \<le> a" "a + k \<le> s \<or> f \<le> a" "a + k \<le> length m"
  shows "rd m' a k = rd m a k"
  using assms by (intro nth_equalityI) (auto simp: rd_def qframe_def)

lemma elems_qframe:
  assumes "qframe b e s f m m'" "a + k * esz \<le> b \<or> e \<le> a" "a + k * esz \<le> s \<or> f \<le> a" "a + k * esz \<le> length m"
  shows "elems m' a k esz = elems m a k esz"
  unfolding elems_def
proof (rule map_cong[OF refl])
  fix i assume "i \<in> set [0..<k]"
  then have "i * esz + esz \<le> k * esz" using slot_bound by simp
  then show "rd m' (a + i * esz) esz = rd m (a + i * esz) esz"
    using assms(2-4) by (intro rd_qframe[OF assms(1)]) auto
qed

lemma mv_upto: "s + n \<le> length m \<Longrightarrow> d + n \<le> length m \<Longrightarrow>
  mv m d s n = Some (blit m d s n) \<and> upto_range d (d + n) m (blit m d s n) \<and> length (blit m d s n) = length m"
  by (simp add: mv_blit upto_range_blit)

text \<open>The three copies back from the scratch area.\<close>

lemma copy_back:
  assumes f: "filled m scr esz n L H" and n: "length L + length H + 1 = n"
    and q: "qregion m base n esz scr piv" and p: "rd m piv esz = p"
  defines "l \<equiv> length L" and "h \<equiv> length H"
  defines "m3 \<equiv> blit m base scr (l * esz)"
  defines "m4 \<equiv> blit m3 (base + l * esz) piv esz"
  defines "m5 \<equiv> blit m4 (base + l * esz + esz) (scr + (n - h) * esz) (h * esz)"
  shows "mv m base scr (l * esz) = Some m3" "mv m3 (base + l * esz) piv esz = Some m4"
    "mv m4 (base + l * esz + esz) (scr + (n - h) * esz) (h * esz) = Some m5"
    "elems m5 base l esz = L" "rd m5 (base + l * esz) esz = p" "elems m5 (base + l * esz + esz) h esz = rev H"
    "qframe base (base + n * esz) scr (piv + esz) m m5"
proof -
  have nl: "l * esz + esz + h * esz = n * esz" "(n - h) * esz + h * esz = n * esz"
    using n unfolding l_def h_def by (auto simp: algebra_simps simp flip: n)
  have b: "base + n * esz \<le> length m" "scr + n * esz \<le> piv" "piv + esz \<le> length m"
    "base + n * esz \<le> scr \<or> piv + esz \<le> base" using q by (simp_all add: qregion_def)
  have 3: "mv m base scr (l * esz) = Some m3 \<and> upto_range base (base + l * esz) m m3 \<and> length m3 = length m"
    unfolding m3_def using b nl by (intro mv_upto) linarith+
  have 4: "mv m3 (base + l * esz) piv esz = Some m4 \<and> upto_range (base + l * esz) (base + l * esz + esz) m3 m4 \<and> length m4 = length m3"
    unfolding m4_def using 3 b nl by (intro mv_upto) linarith+
  have 5: "mv m4 (base + l * esz + esz) (scr + (n - h) * esz) (h * esz) = Some m5 \<and>
      upto_range (base + l * esz + esz) (base + l * esz + esz + h * esz) m4 m5 \<and> length m5 = length m4"
    unfolding m5_def using 3 4 b nl by (intro mv_upto) linarith+
  show "mv m base scr (l * esz) = Some m3" "mv m3 (base + l * esz) piv esz = Some m4"
    "mv m4 (base + l * esz + esz) (scr + (n - h) * esz) (h * esz) = Some m5" using 3 4 5 by blast+
  have "elems m3 base l esz = L"
    unfolding m3_def l_def using filled_elems(1)[OF f] n b nl by (subst elems_blit) (auto simp: l_def)
  moreover have "elems m4 base l esz = elems m3 base l esz"
    using 3 4 b nl by (intro elems_upto[of "base + l * esz" "base + l * esz + esz"]) auto
  moreover have "elems m5 base l esz = elems m4 base l esz"
    using 3 4 5 b nl by (intro elems_upto[of "base + l * esz + esz" "base + l * esz + esz + h * esz"]) auto
  ultimately show "elems m5 base l esz = L" by simp
  have "rd m3 piv esz = p" using 3 b nl p rd_upto[of base "base + l * esz" m m3 piv esz] by auto
  then have "rd m4 (base + l * esz) esz = p"
    unfolding m4_def using 3 b nl rd_blit_in[of piv esz m3 "base + l * esz" 0 esz] by simp
  moreover have "rd m5 (base + l * esz) esz = rd m4 (base + l * esz) esz"
    using 3 4 5 b nl by (intro rd_upto[of "base + l * esz + esz" "base + l * esz + esz + h * esz"]) auto
  ultimately show "rd m5 (base + l * esz) esz = p" by simp
  show fr: "qframe base (base + n * esz) scr (piv + esz) m m5"
  proof -
    have "l \<le> n" using n by (simp add: l_def)
    then have "qframe base (base + n * esz) scr (piv + esz) m m3" using 3 by (intro qframe_upto) auto
    moreover have "qframe base (base + n * esz) scr (piv + esz) m3 m4" using 4 nl by (intro qframe_upto) auto
    moreover have "qframe base (base + n * esz) scr (piv + esz) m4 m5" using 5 nl by (intro qframe_upto) auto
    ultimately show ?thesis using qframe_trans by blast
  qed
  have "elems m4 (scr + (n - h) * esz) h esz = elems m (scr + (n - h) * esz) h esz"
  proof -
    have "upto_range base (base + l * esz + esz) m m4"
      using 3 4 upto_range_mono[of _ _ m m3 base "base + l * esz + esz"] upto_range_mono[of _ _ m3 m4 base "base + l * esz + esz"]
        upto_range_trans by fastforce
    then show ?thesis using b nl by (intro elems_upto) auto
  qed
  then show "elems m5 (base + l * esz + esz) h esz = rev H"
    unfolding m5_def h_def using filled_elems(2)[OF f] n 3 4 b nl by (subst elems_blit) (auto simp: h_def)
qed

lemma qregion_length: "qregion m base n esz scr piv \<Longrightarrow> length m' = length m \<Longrightarrow> qregion m' base n esz scr piv"
  by (simp add: qregion_def)

lemma qframe_length: "qframe b e s f m m' \<Longrightarrow> length m' = length m"
  by (simp add: qframe_def)

lemma partition_step_spec:
  fixes cmp :: cmp
  assumes q: "qregion m base n esz scr piv" and n: "elems m base n esz = p # xs"
  defines "lo \<equiv> filter (\<lambda>x. cmp x p < 0) xs" and "hi \<equiv> filter (\<lambda>x. \<not> cmp x p < 0) xs"
  obtains m' where "partition_step cmp esz scr piv m base n = Some (m', length lo, length hi)"
    "elems m' base (length lo) esz = lo" "rd m' (base + length lo * esz) esz = p"
    "elems m' (base + length lo * esz + esz) (length hi) esz = rev hi"
    "qframe base (base + n * esz) scr (piv + esz) m m'"
proof -
  from n obtain k where k: "n = Suc k" by (cases n) (auto simp: elems_def)
  have p: "rd m base esz = p" and xs: "elems m (base + esz) k esz = xs" using n by (simp_all add: k elems_Suc)
  have b: "base + n * esz \<le> length m" "scr + n * esz \<le> piv" "piv + esz \<le> length m"
    "base + n * esz \<le> scr \<or> piv + esz \<le> base" using q by (simp_all add: qregion_def)
  define m1 where "m1 = blit m piv base esz"
  have bz: "base + esz \<le> length m" using b(1) by (simp add: k)
  note m1 = mv_upto[OF bz b(3), folded m1_def]
  have p1: "rd m1 piv esz = p" using rd_blit_in[OF bz b(3), of 0 esz] p by (simp add: m1_def)
  have xs1: "elems m1 (base + esz) k esz = xs"
    using m1 b xs elems_upto[of piv "piv + esz" m m1 "base + esz" k esz] by (auto simp: k)
  have "filled m1 scr esz n [] []" by (simp add: filled_def)
  moreover have "base + esz + k * esz \<le> scr \<or> scr + n * esz \<le> base + esz" using b by (auto simp: k)
  ultimately obtain m2 where m2: "part_loop cmp esz piv k m1 (base + esz) scr (scr + k * esz) 0 0 =
      Some (m2, length lo, length hi)" "filled m2 scr esz n lo hi" "upto_range scr (scr + n * esz) m1 m2"
    using part_loop_spec[of m1 scr esz n "[]" "[]" piv p k "base + esz" cmp] p1 xs1 m1 b
    by (auto simp: k lo_def hi_def)
  have len: "length lo + length hi + 1 = n"
  proof -
    have "length xs = k" using xs by (auto simp: elems_def)
    then show ?thesis using sum_length_filter_compl[of "\<lambda>x. cmp x p < 0" xs] by (simp add: k lo_def hi_def)
  qed
  have "rd m2 piv esz = p" using rd_upto[OF m2(3)] p1 m1 b by simp
  moreover have l2: "length m2 = length m" using upto_rangeD[OF m2(3)] m1 by simp
  ultimately have cb: "filled m2 scr esz n lo hi" "length lo + length hi + 1 = n"
    "qregion m2 base n esz scr piv" "rd m2 piv esz = p"
    using m2(2) len qregion_length[OF q] by auto
  note c = copy_back[OF cb]
  have "qframe base (base + n * esz) scr (piv + esz) m m1" using m1 b by (intro qframe_upto) auto
  moreover have "qframe base (base + n * esz) scr (piv + esz) m1 m2"
    using b by (intro qframe_upto[OF m2(3)]) auto
  ultimately have fr: "qframe base (base + n * esz) scr (piv + esz) m m2" by (rule qframe_trans)
  show thesis
    by (rule that[OF _ c(4-6) qframe_trans[OF fr c(7)]])
      (use m1 m2(1) c(1-3) in \<open>simp add: partition_step_def k\<close>)
qed

text \<open>The code refines the reference.\<close>

lemma swap2_spec:
  assumes q: "qregion m base 2 esz scr piv"
  obtains m' where "swap2 cmp esz piv m base = Some m'"
    "elems m' base 2 esz = qs cmp (elems m base 2 esz)"
    "qframe base (base + 2 * esz) scr (piv + esz) m m'"
proof -
  let ?x = "rd m base esz" and ?y = "rd m (base + esz) esz"
  have b: "base + esz + esz \<le> length m" "scr + 2 * esz \<le> piv" "piv + esz \<le> length m"
    "base + 2 * esz \<le> scr \<or> piv + esz \<le> base" using q by (simp_all add: qregion_def)
  have e: "elems m' base 2 esz = [rd m' base esz, rd m' (base + esz) esz]" for m'
    by (simp add: elems_def numeral_2_eq_2)
  have cmp: "cmp_at cmp esz m base (base + esz) = Some (cmp ?x ?y)" using b by (simp add: cmp_at_rd)
  show thesis
  proof (cases "cmp ?x ?y > 0")
    case False
    then show thesis using cmp e by (intro that[of m]) (simp_all add: swap2_def)
  next
    case True
    define m1 m2 m3 where "m1 = blit m piv base esz" and "m2 = blit m1 base (base + esz) esz"
      and "m3 = blit m2 (base + esz) piv esz"
    have 1: "mv m piv base esz = Some m1 \<and> upto_range piv (piv + esz) m m1 \<and> length m1 = length m"
      unfolding m1_def using b by (intro mv_upto) linarith+
    have 2: "mv m1 base (base + esz) esz = Some m2 \<and> upto_range base (base + esz) m1 m2 \<and> length m2 = length m"
      unfolding m2_def using 1 b mv_upto[of "base + esz" esz m1 base] by simp
    have 3: "mv m2 (base + esz) piv esz = Some m3 \<and> upto_range (base + esz) (base + esz + esz) m2 m3 \<and> length m3 = length m"
      unfolding m3_def using 2 b mv_upto[of piv esz m2 "base + esz"] by simp
    have "rd m3 (base + esz) esz = rd m2 piv esz"
      unfolding m3_def using 2 b rd_blit_in[of piv esz m2 "base + esz" 0 esz] by simp
    also have "\<dots> = rd m1 piv esz" using 1 2 b rd_upto[of base "base + esz" m1 m2 piv esz] by auto
    also have "\<dots> = ?x" unfolding m1_def using b rd_blit_in[of base esz m piv 0 esz] by simp
    finally have x: "rd m3 (base + esz) esz = ?x" .
    have "rd m3 base esz = rd m2 base esz"
      using 2 3 b rd_upto[of "base + esz" "base + esz + esz" m2 m3 base esz] by auto
    also have "\<dots> = rd m1 (base + esz) esz"
      unfolding m2_def using 1 b rd_blit_in[of "base + esz" esz m1 base 0 esz] by simp
    also have "\<dots> = ?y" using 1 b rd_upto[of piv "piv + esz" m m1 "base + esz" esz] by auto
    finally have y: "rd m3 base esz = ?y" .
    have "qframe base (base + 2 * esz) scr (piv + esz) m m1" using 1 b by (intro qframe_upto) auto
    moreover have "qframe base (base + 2 * esz) scr (piv + esz) m1 m2" using 2 by (intro qframe_upto) auto
    moreover have "qframe base (base + 2 * esz) scr (piv + esz) m2 m3" using 3 by (intro qframe_upto) auto
    ultimately have "qframe base (base + 2 * esz) scr (piv + esz) m m3" using qframe_trans by blast
    then show thesis using True cmp e x y 1 2 3 by (intro that[of m3]) (simp_all add: swap2_def)
  qed
qed

lemma length_elems [simp]: "length (elems m a n esz) = n"
  by (simp add: elems_def)

lemma elems_0: "elems m a 0 esz = []"
  by (simp add: elems_def)

lemma elems_append: "elems m a (l + k) esz = elems m a l esz @ elems m (a + l * esz) k esz"
  by (induction l arbitrary: a) (simp_all add: elems_0 elems_Suc add.assoc)

lemma qs_partition:
  "2 \<le> length xs \<Longrightarrow> qs cmp (p # xs) =
     qs cmp (filter (\<lambda>z. cmp z p < 0) xs) @ p # qs cmp (rev (filter (\<lambda>z. \<not> cmp z p < 0) xs))"
  by (cases xs rule: remdups_adj.cases) auto

lemma qregion_sub:
  assumes "qregion m base n esz scr piv" "base \<le> base'" "base' + k * esz \<le> base + n * esz" "k \<le> n"
  shows "qregion m base' k esz scr piv"
proof -
  have "k * esz \<le> n * esz" using assms(4) by simp
  then show ?thesis using assms(1-3) unfolding qregion_def by linarith
qed

lemma s_qsort_spec:
  "qregion m base n esz scr piv \<Longrightarrow>
   \<exists>m'. s_qsort cmp esz scr piv m base n = Some m' \<and>
     elems m' base n esz = qs cmp (elems m base n esz) \<and>
     qframe base (base + n * esz) scr (piv + esz) m m'"
proof (induction n arbitrary: m base rule: less_induct)
  case (less n)
  consider "n = 0" | "n = 1" | "n = 2" | "3 \<le> n" by linarith
  then show ?case
  proof cases
    case 3
    with less.prems show ?thesis
      by (subst s_qsort.simps) (auto elim: swap2_spec[of m base esz scr piv cmp])
  next
    case 4
    then obtain p xs where e: "elems m base n esz = p # xs" by (metis length_elems length_0_conv neq_Nil_conv not_numeral_le_zero)
    have len: "length xs = n - 1" using e length_elems[of m base n esz] by simp
    define lo hi where "lo = filter (\<lambda>x. cmp x p < 0) xs" and "hi = filter (\<lambda>x. \<not> cmp x p < 0) xs"
    define l h where "l = length lo" and "h = length hi"
    have n: "n = l + Suc h"
      using sum_length_filter_compl[of "\<lambda>x. cmp x p < 0" xs] len 4 by (simp add: lo_def hi_def l_def h_def)
    have sz: "n * esz = l * esz + esz + h * esz" by (simp add: n add_mult_distrib)
    let ?hb = "base + l * esz + esz"
    from partition_step_spec[OF less.prems e, of cmp, folded lo_def hi_def, folded l_def h_def] obtain m1 where
      m1: "partition_step cmp esz scr piv m base n = Some (m1, l, h)" "elems m1 base l esz = lo"
      "rd m1 (base + l * esz) esz = p" "elems m1 ?hb h esz = rev hi" "qframe base (base + n * esz) scr (piv + esz) m m1" .
    have b: "base + n * esz \<le> length m" "scr + n * esz \<le> piv" "piv + esz \<le> length m"
      "base + n * esz \<le> scr \<or> piv + esz \<le> base" using less.prems by (simp_all add: qregion_def)
    have r1: "qregion m1 base n esz scr piv" using qregion_length[OF less.prems qframe_length[OF m1(5)]] .
    have rl: "qregion m1 base l esz scr piv" by (rule qregion_sub[OF r1]) (use sz n in linarith)+
    from less.IH[OF _ rl] obtain m2 where m2: "s_qsort cmp esz scr piv m1 base l = Some m2"
      "elems m2 base l esz = qs cmp lo" "qframe base (base + l * esz) scr (piv + esz) m1 m2"
      using m1(2) by (auto simp: n)
    have r2: "qregion m2 base n esz scr piv" using qregion_length[OF r1 qframe_length[OF m2(3)]] .
    have rh: "qregion m2 ?hb h esz scr piv" by (rule qregion_sub[OF r2]) (use sz n in linarith)+
    have l2: "length m2 = length m" "length m1 = length m" using qframe_length[OF m2(3)] qframe_length[OF m1(5)] by simp_all
    have p2: "rd m2 (base + l * esz) esz = p" "elems m2 ?hb h esz = rev hi"
      using m1(3,4) b l2 sz rd_qframe[OF m2(3), of "base + l * esz" esz] elems_qframe[OF m2(3), of ?hb h esz] by auto
    from less.IH[OF _ rh] obtain m3 where m3: "s_qsort cmp esz scr piv m2 ?hb h = Some m3"
      "elems m3 ?hb h esz = qs cmp (rev hi)" "qframe ?hb (?hb + h * esz) scr (piv + esz) m2 m3"
      using p2(2) by (auto simp: n)
    have lo3: "elems m3 base l esz = qs cmp lo" "rd m3 (base + l * esz) esz = p"
      using m2(2) p2(1) b l2 sz rd_qframe[OF m3(3), of "base + l * esz" esz] elems_qframe[OF m3(3), of base l esz] by auto
    have "elems m3 base n esz = elems m3 base l esz @ rd m3 (base + l * esz) esz # elems m3 ?hb h esz"
      unfolding n by (simp only: elems_append elems_Suc)
    also have "\<dots> = qs cmp (elems m base n esz)"
      using qs_partition[of xs cmp p] len 4 unfolding e lo3 m3(2) lo_def hi_def by simp
    finally have "elems m3 base n esz = qs cmp (elems m base n esz)" .
    moreover have "qframe base (base + n * esz) scr (piv + esz) m m3"
      using m1(5) qframe_mono[OF m2(3), of base "base + n * esz"] qframe_mono[OF m3(3), of base "base + n * esz"] sz
        qframe_trans[of base "base + n * esz" scr "piv + esz"] by auto
    moreover have "s_qsort cmp esz scr piv m base n = Some m3"
      using 4 m1(1) m2(1) m3(1) by (subst s_qsort.simps) simp
    ultimately show ?thesis by blast
  qed (subst s_qsort.simps, simp add: elems_def)+
qed

section \<open>Properties\<close>



end
