(* ===== verification/Litc_Lock.thy ===== *)
theory Litc_Lock
  imports Litc_Sys
begin

text \<open>
  The locks of \<open>litc.c\<close> as interleaved threads: mutexes with condition variables
  (\<open>pthread_mutex_lock\<close> and \<open>pthread_mutex_unlock\<close>, lines 1117 to 1153, \<open>pthread_cond_timedwait\<close>,
  \<open>pthread_cond_signal\<close> and \<open>pthread_cond_broadcast\<close>, lines 1235 to 1297) and the allocator's spin lock
  \<open>acquire\<close> and \<open>release\<close> (lines 3440 to 3453).

  A program point of the C code is a constructor of a datatype, and a rule of an \<open>inductive\<close> step
  relation is what one thread does atomically from there: an atomic instruction (compare-and-swap,
  exchange), an access to a shared field, a call into the kernel, or a return. Threads are numbers; any
  of them may step.

  The kernel's futex is part of the environment: \<open>FUTEX_SLEEP\<close> compares the word with the expected value
  and queues the caller in one step, or returns at once if it differs, or fails; \<open>FUTEX_WAKE\<close> with
  count 1 takes one thread off the queue of the word if there is one, with count -1 any number of them;
  \<open>FUTEX_CNDGIVE\<close> moves the queue of the first word to the queue of the second. The value a sleeper on a
  condition variable returns with (\<open>moveq\<close>) is the kernel's choice, so it is arbitrary here.
\<close>

section \<open>Reachability and the contract of a lock\<close>

inductive reach :: "('s \<Rightarrow> bool) \<Rightarrow> ('s \<Rightarrow> nat \<Rightarrow> 's \<Rightarrow> bool) \<Rightarrow> 's \<Rightarrow> bool"
  for init step
where
  reach_init: "init s \<Longrightarrow> reach init step s"
| reach_step: "reach init step s \<Longrightarrow> step s t s' \<Longrightarrow> reach init step s'"

text \<open>
  \<open>crit s t\<close>: thread \<open>t\<close> is inside; \<open>held s\<close>: the lock word says so. A step concerns only the thread that
  makes it, enters only a free lock, and frees the lock exactly when it leaves.
\<close>

locale lock_protocol =
  fixes init :: "'s \<Rightarrow> bool" and step :: "'s \<Rightarrow> nat \<Rightarrow> 's \<Rightarrow> bool"
    and crit :: "'s \<Rightarrow> nat \<Rightarrow> bool" and held :: "'s \<Rightarrow> bool"
  assumes init_free: "init s \<Longrightarrow> \<not> held s \<and> \<not> crit s t"
    and others: "reach init step s \<Longrightarrow> step s t s' \<Longrightarrow> u \<noteq> t \<Longrightarrow> crit s' u = crit s u"
    and enter: "reach init step s \<Longrightarrow> step s t s' \<Longrightarrow> \<not> crit s t \<Longrightarrow> crit s' t \<Longrightarrow> \<not> held s \<and> held s'"
    and leave: "reach init step s \<Longrightarrow> step s t s' \<Longrightarrow> crit s t \<Longrightarrow> \<not> crit s' t \<Longrightarrow> \<not> held s'"
    and stay: "reach init step s \<Longrightarrow> step s t s' \<Longrightarrow> held s = (\<exists>u. crit s u) \<Longrightarrow> crit s' t = crit s t \<Longrightarrow>
      held s' = held s"
begin

lemma held_iff: "reach init step s \<Longrightarrow> (held s \<longleftrightarrow> (\<exists>t. crit s t)) \<and> (\<forall>t u. crit s t \<longrightarrow> crit s u \<longrightarrow> t = u)"
proof (induction rule: reach.induct)
  case (reach_init s)
  then show ?case using init_free by blast
next
  case (reach_step s t s')
  note st = reach_step.hyps
  consider (enter) "\<not> crit s t" "crit s' t" | (leave) "crit s t" "\<not> crit s' t" | (stay) "crit s' t = crit s t"
    by blast
  then show ?case
  proof cases
    case enter
    with lock_protocol.enter[OF lock_protocol_axioms st] have "\<not> held s" "held s'" by auto
    then show ?thesis using reach_step.IH others[OF st] enter by metis
  next
    case leave
    with lock_protocol.leave[OF lock_protocol_axioms st] have "\<not> held s'" by auto
    then show ?thesis using reach_step.IH others[OF st] leave by metis
  next
    case stay
    with lock_protocol.stay[OF lock_protocol_axioms st] reach_step.IH have "held s' = held s" by auto
    then show ?thesis using reach_step.IH others[OF st] stay by metis
  qed
qed

end

section \<open>Mutexes and condition variables\<close>

text \<open>
  \<open>pthread_mutex_lock\<close> is called by the client or by \<open>pthread_cond_timedwait\<close>, which then has the value
  \<open>moveq\<close>; \<open>pthread_mutex_unlock\<close> is called by the client or by \<open>pthread_cond_timedwait\<close>, which has
  read \<open>last\<close>.
\<close>

datatype lcont = Client | FromWait cint

datatype ucont = Return | WaitOn cint

text \<open>
  Program points: outside; before the test of \<open>dolock\<close> and the compare-and-swap; before the exchange;
  before the futex call; queued on the mutex; inside; before the exchange of unlock; before its wake-up
  call; returned with an error. In \<open>pthread_cond_timedwait\<close>: before the sleep on \<open>gen\<close>; queued on the
  condition; moved to the queue of the mutex; before the store to \<open>bcast\<close>; before \<open>FUTEX_CNDGIVE\<close>; before
  the test of \<open>bcast\<close>; before the store to \<open>locks\<close>. In signal and broadcast: before the wake-up call.
\<close>

datatype mpc = MOut | MFast lcont | MXchg lcont | MFutex lcont | MAsleep lcont | MIn
  | MUnlock ucont | MWake ucont | MErr cint
  | CSleep cint | CAsleep | CMoved | CFlag | CGive | CTest | CStore | CNotify bool bool

record mutex =
  locks :: cint
  gen :: cint
  bcast :: cint
  m_dolock :: cint
  mpcs :: "nat \<Rightarrow> mpc"

definition mgoto :: "nat \<Rightarrow> mpc \<Rightarrow> mutex \<Rightarrow> mutex" where
  "mgoto t pc s = s\<lparr>mpcs := (mpcs s)(t := pc)\<rparr>"

fun after_lock :: "lcont \<Rightarrow> mpc" where
  "after_lock Client = MIn"
| "after_lock (FromWait moveq) = (if moveq \<noteq> 0 then CFlag else CTest)"

fun after_unlock :: "ucont \<Rightarrow> mpc" where
  "after_unlock Return = MOut"
| "after_unlock (WaitOn seen) = CSleep seen"

text \<open>What a wake-up on the mutex does to a queued thread: it goes on after its own futex call.\<close>

fun woken :: "mpc \<Rightarrow> mpc" where
  "woken (MAsleep k) = MXchg k"
| "woken CMoved = MFast (FromWait 0)"
| "woken pc = pc"

fun queued :: "mpc \<Rightarrow> bool" where
  "queued (MAsleep k) = True"
| "queued CMoved = True"
| "queued _ = False"

fun inside :: "mpc \<Rightarrow> bool" where
  "inside MIn = True"
| "inside (MUnlock k) = True"
| "inside CFlag = True"
| "inside CGive = True"
| "inside CTest = True"
| "inside CStore = True"
| "inside (CNotify b h) = h"
| "inside _ = False"

text \<open>The steps of \<open>pthread_mutex_lock\<close> and \<open>pthread_mutex_unlock\<close>.\<close>

inductive mutex_step :: "mutex \<Rightarrow> nat \<Rightarrow> mutex \<Rightarrow> bool" where
  lock_call: "mpcs s t = MOut \<Longrightarrow> mutex_step s t (mgoto t (MFast Client) s)"
| lock_off: "mpcs s t = MFast k \<Longrightarrow> m_dolock s = 0 \<Longrightarrow> mutex_step s t (mgoto t (after_lock k) s)"
| lock_fast: "mpcs s t = MFast k \<Longrightarrow> m_dolock s \<noteq> 0 \<Longrightarrow> locks s = 0 \<Longrightarrow>
    mutex_step s t (mgoto t (after_lock k) (s\<lparr>locks := 1\<rparr>))"
| lock_slow: "mpcs s t = MFast k \<Longrightarrow> m_dolock s \<noteq> 0 \<Longrightarrow> locks s \<noteq> 0 \<Longrightarrow> mutex_step s t (mgoto t (MXchg k) s)"
| xchg_lucky: "mpcs s t = MXchg k \<Longrightarrow> locks s = 0 \<Longrightarrow> mutex_step s t (mgoto t (after_lock k) (s\<lparr>locks := 2\<rparr>))"
| xchg_busy: "mpcs s t = MXchg k \<Longrightarrow> locks s \<noteq> 0 \<Longrightarrow> mutex_step s t (mgoto t (MFutex k) (s\<lparr>locks := 2\<rparr>))"
| futex_sleep: "mpcs s t = MFutex k \<Longrightarrow> locks s = 2 \<Longrightarrow> mutex_step s t (mgoto t (MAsleep k) s)"
| futex_moved: "mpcs s t = MFutex k \<Longrightarrow> locks s \<noteq> 2 \<Longrightarrow> mutex_step s t (mgoto t (MXchg k) s)"
| futex_fails: "mpcs s t = MFutex k \<Longrightarrow> r <s 0 \<Longrightarrow> mutex_step s t (mgoto t (MErr r) s)"
| error_seen: "mpcs s t = MErr r \<Longrightarrow> mutex_step s t (mgoto t MOut s)"
| unlock_call: "mpcs s t = MIn \<Longrightarrow> mutex_step s t (mgoto t (MUnlock Return) s)"
| unlock_free: "mpcs s t = MUnlock k \<Longrightarrow> locks s \<noteq> 2 \<Longrightarrow> mutex_step s t (mgoto t (after_unlock k) (s\<lparr>locks := 0\<rparr>))"
| unlock_wake: "mpcs s t = MUnlock k \<Longrightarrow> locks s = 2 \<Longrightarrow> mutex_step s t (mgoto t (MWake k) (s\<lparr>locks := 0\<rparr>))"
| wake_one: "mpcs s t = MWake k \<Longrightarrow> queued (mpcs s u) \<Longrightarrow>
    mutex_step s t (mgoto t (after_unlock k) (mgoto u (woken (mpcs s u)) s))"
| wake_none: "mpcs s t = MWake k \<Longrightarrow> \<forall>u. \<not> queued (mpcs s u) \<Longrightarrow> mutex_step s t (mgoto t (after_unlock k) s)"

text \<open>The steps of \<open>pthread_cond_timedwait\<close>, \<open>pthread_cond_signal\<close> and \<open>pthread_cond_broadcast\<close>.\<close>

inductive cond_step :: "mutex \<Rightarrow> nat \<Rightarrow> mutex \<Rightarrow> bool" where
  wait_call: "mpcs s t = MIn \<Longrightarrow> cond_step s t (mgoto t (MUnlock (WaitOn (gen s))) s)"
| cond_sleep: "mpcs s t = CSleep seen \<Longrightarrow> gen s = seen \<Longrightarrow> cond_step s t (mgoto t CAsleep s)"
| cond_moved: "mpcs s t = CSleep seen \<Longrightarrow> gen s \<noteq> seen \<Longrightarrow> cond_step s t (mgoto t (MFast (FromWait 0)) s)"
| cond_fails: "mpcs s t \<in> {CSleep seen, CAsleep, CMoved} \<Longrightarrow> r <s 0 \<Longrightarrow> cond_step s t (mgoto t (MErr r) s)"
| cond_flag: "mpcs s t = CFlag \<Longrightarrow> cond_step s t (mgoto t CGive (s\<lparr>bcast := 1\<rparr>))"
| cond_give: "mpcs s t = CGive \<Longrightarrow> cond_step s t
    (mgoto t CTest (s\<lparr>mpcs := (\<lambda>u. if mpcs s u = CAsleep then CMoved else mpcs s u)\<rparr>))"
| cond_give_fails: "mpcs s t = CGive \<Longrightarrow> cond_step s t (mgoto t CTest s)"
| cond_test: "mpcs s t = CTest \<Longrightarrow> cond_step s t (mgoto t (if bcast s \<noteq> 0 then CStore else MIn) s)"
| cond_store: "mpcs s t = CStore \<Longrightarrow> cond_step s t (mgoto t MIn (s\<lparr>locks := 2\<rparr>))"
| notify: "mpcs s t = (if h then MIn else MOut) \<Longrightarrow> cond_step s t (mgoto t (CNotify b h) (s\<lparr>gen := gen s + 1\<rparr>))"
| signal_one: "mpcs s t = CNotify False h \<Longrightarrow> mpcs s u = CAsleep \<Longrightarrow>
    cond_step s t (mgoto t (if h then MIn else MOut) (mgoto u (MFast (FromWait moveq)) s))"
| notify_none: "mpcs s t = CNotify b h \<Longrightarrow> \<forall>u. mpcs s u \<noteq> CAsleep \<Longrightarrow>
    cond_step s t (mgoto t (if h then MIn else MOut) s)"
| broadcast: "mpcs s t = CNotify True h \<Longrightarrow> U \<noteq> {} \<Longrightarrow> (\<forall>u\<in>U. mpcs s u = CAsleep) \<Longrightarrow>
    cond_step s t (mgoto t (if h then MIn else MOut)
      (s\<lparr>mpcs := (\<lambda>u. if u \<in> U then MFast (FromWait (mq u)) else mpcs s u)\<rparr>))"

definition pthread_step :: "mutex \<Rightarrow> nat \<Rightarrow> mutex \<Rightarrow> bool" where
  "pthread_step s t s' \<longleftrightarrow> mutex_step s t s' \<or> cond_step s t s'"

lemma pthread_stepE [consumes 1, case_names mutex cond]:
  assumes "pthread_step s t s'"
  obtains "mutex_step s t s'" | "cond_step s t s'"
  using assms by (auto simp: pthread_step_def)

lemma pthread_cond: "cond_step s t s' \<Longrightarrow> pthread_step s t s'"
  by (simp add: pthread_step_def)

lemma pthread_mutex: "mutex_step s t s' \<Longrightarrow> pthread_step s t s'"
  by (simp add: pthread_step_def)

text \<open>Initially nobody has called \<open>err\<close> or \<open>errx\<close>, the only functions that clear \<open>dolock\<close> (and then exit).\<close>

definition mutex_init :: "mutex \<Rightarrow> bool" where
  "mutex_init s \<longleftrightarrow> locks s = 0 \<and> bcast s = 0 \<and> m_dolock s \<noteq> 0 \<and> (\<forall>t. mpcs s t = MOut)"

section \<open>Invariants of the mutex\<close>

lemma mgoto_simps [simp]:
  "mpcs (mgoto t pc s) = (mpcs s)(t := pc)" "locks (mgoto t pc s) = locks s" "gen (mgoto t pc s) = gen s"
  "bcast (mgoto t pc s) = bcast s" "m_dolock (mgoto t pc s) = m_dolock s"
  by (simp_all add: mgoto_def)

lemma inside_simps [simp]:
  "inside (after_lock k)" "\<not> inside (after_unlock u)" "queued pc \<Longrightarrow> \<not> inside pc" "queued pc \<Longrightarrow> \<not> inside (woken pc)"
  "\<not> queued (after_lock k)" "\<not> queued (after_unlock u)" "queued pc \<Longrightarrow> \<not> queued (woken pc)"
  by (cases k; cases u; cases pc; simp)+

lemma dolock_reach: "reach mutex_init pthread_step s \<Longrightarrow> m_dolock s \<noteq> 0"
proof (induction rule: reach.induct)
  case (reach_step s t s')
  from reach_step.hyps(2) have "m_dolock s' = m_dolock s"
    by (cases rule: pthread_stepE) (auto elim!: mutex_step.cases cond_step.cases)
  then show ?case using reach_step.IH by simp
qed (simp add: mutex_init_def)

interpretation mutex: lock_protocol mutex_init pthread_step "\<lambda>s t. inside (mpcs s t)" "\<lambda>s. locks s \<noteq> 0"
proof unfold_locales
  fix s s' t u
  { assume "mutex_init s"
    then show "\<not> locks s \<noteq> 0 \<and> \<not> inside (mpcs s t)" by (simp add: mutex_init_def) }
  assume r: "reach mutex_init pthread_step s" and st: "pthread_step s t s'"
  { assume "u \<noteq> t"
    with st show "inside (mpcs s' u) = inside (mpcs s u)" 
      by (cases rule: pthread_stepE) (auto elim!: mutex_step.cases cond_step.cases split: if_splits) }
  { assume "\<not> inside (mpcs s t)" "inside (mpcs s' t)"
    with st dolock_reach[OF r] show "\<not> locks s \<noteq> 0 \<and> locks s' \<noteq> 0" 
      by (cases rule: pthread_stepE) (auto elim!: mutex_step.cases cond_step.cases split: if_splits) }
  { assume "inside (mpcs s t)" "\<not> inside (mpcs s' t)"
    with st show "\<not> locks s' \<noteq> 0" 
      by (cases rule: pthread_stepE) (auto elim!: mutex_step.cases cond_step.cases split: if_splits) }
  { assume "(locks s \<noteq> 0) = (\<exists>u. inside (mpcs s u))" "inside (mpcs s' t) = inside (mpcs s t)"
    then have "inside (mpcs s t) \<Longrightarrow> locks s \<noteq> 0" "inside (mpcs s' t) = inside (mpcs s t)" by blast+
    with st show "(locks s' \<noteq> 0) = (locks s \<noteq> 0)" 
      by (cases rule: pthread_stepE) (auto elim!: mutex_step.cases cond_step.cases split: if_splits) }
qed
text \<open>
  Who will see to the sleepers of the mutex: a thread about to wake one of them or about to exchange the
  word for 2, or, once \<open>bcast\<close> is set, a thread on its way to the store of 2 in
  \<open>pthread_cond_timedwait\<close>.
\<close>

fun carrier :: "mutex \<Rightarrow> mpc \<Rightarrow> bool" where
  "carrier s (MWake k) = True"
| "carrier s (MXchg k) = True"
| "carrier s (MFast (FromWait moveq)) = (bcast s \<noteq> 0)"
| "carrier s CFlag = True"
| "carrier s CGive = True"
| "carrier s CTest = (bcast s \<noteq> 0)"
| "carrier s CStore = True"
| "carrier s _ = False"

text \<open>Points reached only once \<open>bcast\<close> has been set.\<close>

fun flagged :: "mpc \<Rightarrow> bool" where
  "flagged CMoved = True"
| "flagged CGive = True"
| "flagged CStore = True"
| "flagged _ = False"

lemma flagged_simps [simp]:
  "\<not> flagged (after_lock k)" "\<not> flagged (after_unlock u)" "queued pc \<Longrightarrow> \<not> flagged (woken pc)"
  by (cases k; cases u; cases pc; simp)+

definition wakeup_due :: "mutex \<Rightarrow> bool" where
  "wakeup_due s \<longleftrightarrow>
    ((\<exists>t. queued (mpcs s t)) \<longrightarrow> locks s = 2 \<or> (\<exists>u. carrier s (mpcs s u))) \<and>
    ((\<exists>t. flagged (mpcs s t)) \<longrightarrow> bcast s \<noteq> 0)"

lemma wakeup_dueI:
  assumes "\<And>v. flagged (mpcs s' v) \<Longrightarrow> bcast s' \<noteq> 0"
    and "\<And>v. queued (mpcs s' v) \<Longrightarrow> locks s' = 2 \<or> (\<exists>u. carrier s' (mpcs s' u))"
  shows "wakeup_due s'"
  using assms unfolding wakeup_due_def by blast

lemma wakeup_due_keep:
  assumes due: "wakeup_due s"
    and "\<And>v. queued (mpcs s' v) \<Longrightarrow> queued (mpcs s v)" "locks s = 2 \<Longrightarrow> locks s' = 2"
      "\<And>u. carrier s (mpcs s u) \<Longrightarrow> carrier s' (mpcs s' u)" "bcast s' = bcast s"
      "\<And>v. flagged (mpcs s' v) \<Longrightarrow> flagged (mpcs s v) \<or> bcast s \<noteq> 0"
  shows "wakeup_due s'"
  using assms unfolding wakeup_due_def by metis

lemma wakeup_due_step:
  assumes due: "wakeup_due s" and step: "pthread_step s t s'"
  shows "wakeup_due s'"
proof -
  have b: "bcast s \<noteq> 0" if "flagged (mpcs s v)" for v
    using due that unfolding wakeup_due_def by auto
  have now: "wakeup_due s'" if "locks s' = 2 \<or> carrier s' (mpcs s' u)"
      "\<And>v. flagged (mpcs s' v) \<Longrightarrow> bcast s' \<noteq> 0" for u
    using that by (intro wakeup_dueI) auto
  from step show ?thesis
  proof (cases rule: pthread_stepE)
    case mutex
    then show ?thesis
    proof cases
      case (wake_one k u)
      then have "u \<noteq> t" by auto
      then have "carrier s' (mpcs s' u)" using wake_one b[of u] by (cases "mpcs s u") auto
      then show ?thesis using wake_one b by (intro now[of u]) (auto split: if_splits)
    next
      case (wake_none k)
      then show ?thesis using b by (intro wakeup_dueI) (auto split: if_splits)
    next
      case (xchg_lucky k)
      then show ?thesis using b by (intro now[of t]) (auto split: if_splits)
    next
      case (xchg_busy k)
      then show ?thesis using b by (intro now[of t]) (auto split: if_splits)
    next
      case (futex_sleep k)
      then show ?thesis using b by (intro now[of t]) (auto split: if_splits)
    next
      case (unlock_wake k)
      then show ?thesis using b by (intro now[of t]) (auto split: if_splits)
    qed (rule wakeup_due_keep[OF due]; auto elim!: carrier.elims split: if_splits)+
  next
    case cond
    then show ?thesis
    proof cases
      case cond_flag
      then show ?thesis by (intro now[of t]) auto
    next
      case cond_give
      then show ?thesis using b[of t] by (intro now[of t]) auto
    next
      case cond_give_fails
      then show ?thesis using b[of t] by (intro now[of t]) auto
    next
      case cond_store
      then show ?thesis using b by (intro now[of t]) (auto split: if_splits)
    qed (rule wakeup_due_keep[OF due]; auto elim!: carrier.elims split: if_splits)+
  qed
qed

lemma wakeup_due_reach: "reach mutex_init pthread_step s \<Longrightarrow> wakeup_due s"
proof (induction rule: reach.induct)
  case (reach_init s)
  then show ?case by (simp add: mutex_init_def wakeup_due_def)
next
  case (reach_step s t s')
  then show ?case by (blast intro: wakeup_due_step)
qed

text \<open>A thread that is inside or is a carrier can always step.\<close>

lemma active_steps:
  assumes "inside (mpcs s t) \<or> carrier s (mpcs s t)"
  shows "\<exists>s'. pthread_step s t s'"
proof (cases "mpcs s t")
  case (MFast k)
  then show ?thesis using pthread_mutex[OF lock_off[of s t k]] pthread_mutex[OF lock_fast[of s t k]] pthread_mutex[OF lock_slow[of s t k]] by blast
next
  case (MXchg k)
  then show ?thesis using pthread_mutex[OF xchg_lucky[of s t k]] pthread_mutex[OF xchg_busy[of s t k]] by blast
next
  case (MUnlock k)
  then show ?thesis using pthread_mutex[OF unlock_free[of s t k]] pthread_mutex[OF unlock_wake[of s t k]] by blast
next
  case (MWake k)
  then show ?thesis using pthread_mutex[OF wake_one[of s t k]] pthread_mutex[OF wake_none[of s t k]] by blast
next
  case (CNotify b h)
  show ?thesis
  proof (cases "\<exists>u. mpcs s u = CAsleep")
    case True
    then obtain u where "mpcs s u = CAsleep" by blast
    then show ?thesis
      using CNotify pthread_cond[OF signal_one[of s t h u 0]] pthread_cond[OF broadcast[of s t h "{u}" "\<lambda>_. 0"]] by (cases b) (simp, blast)+
  next
    case False
    then show ?thesis using CNotify pthread_cond[OF notify_none[of s t b h]] by blast
  qed
qed (use assms pthread_mutex[OF unlock_call[of s t]] pthread_cond[OF cond_flag[of s t]] pthread_cond[OF cond_give[of s t]] pthread_cond[OF cond_test[of s t]] pthread_cond[OF cond_store[of s t]] in auto)

section \<open>The spin lock of the allocator\<close>

datatype spc = SOut | SSpin | SIn

record spin =
  sword :: long
  sdolock :: cint
  spcs :: "nat \<Rightarrow> spc"

inductive spin_step :: "spin \<Rightarrow> nat \<Rightarrow> spin \<Rightarrow> bool" where
  acq_call: "spcs s t = SOut \<Longrightarrow> spin_step s t (s\<lparr>spcs := (spcs s)(t := SSpin)\<rparr>)"
| acq_off: "spcs s t = SSpin \<Longrightarrow> sdolock s = 0 \<Longrightarrow> spin_step s t (s\<lparr>spcs := (spcs s)(t := SIn)\<rparr>)"
| acq_xchg: "spcs s t = SSpin \<Longrightarrow> sdolock s \<noteq> 0 \<Longrightarrow>
    spin_step s t (s\<lparr>sword := 1, spcs := (spcs s)(t := (if sword s = 0 then SIn else SSpin))\<rparr>)"
| rel: "spcs s t = SIn \<Longrightarrow> spin_step s t (s\<lparr>sword := 0, spcs := (spcs s)(t := SOut)\<rparr>)"

definition spin_init :: "spin \<Rightarrow> bool" where
  "spin_init s \<longleftrightarrow> sword s = 0 \<and> sdolock s \<noteq> 0 \<and> (\<forall>t. spcs s t = SOut)"

lemma sdolock_reach: "reach spin_init spin_step s \<Longrightarrow> sdolock s \<noteq> 0"
  by (induction rule: reach.induct) (auto simp: spin_init_def elim!: spin_step.cases)

interpretation spin: lock_protocol spin_init spin_step "\<lambda>s t. spcs s t = SIn" "\<lambda>s. sword s \<noteq> 0"
  by unfold_locales (auto simp: spin_init_def elim!: spin_step.cases dest: sdolock_reach split: if_splits)

section \<open>Properties\<close>

text \<open>
  C3: mutual exclusion of the mutex. In every reachable state of any number of threads that lock and
  unlock it, wait on its condition variable, signal and broadcast, at most one thread is between a
  successful \<open>pthread_mutex_lock\<close> (or return from a wait) and the exchange in \<open>pthread_mutex_unlock\<close>,
  and the word \<open>locks\<close> is non-zero exactly if there is one.
\<close>

theorem mutex_exclusion:
  assumes "reach mutex_init pthread_step s"
  shows "(locks s \<noteq> 0 \<longleftrightarrow> (\<exists>t. inside (mpcs s t))) \<and>
    (\<forall>t u. inside (mpcs s t) \<longrightarrow> inside (mpcs s u) \<longrightarrow> t = u)"
  using mutex.held_iff[OF assms] .

text \<open>Thread 3 takes the mutex, then thread 4 finds it taken and goes to sleep.\<close>

definition mstate_34 :: "cint \<Rightarrow> mpc \<Rightarrow> mpc \<Rightarrow> mutex" where
  "mstate_34 w a b = \<lparr>locks = w, gen = 0, bcast = 0, m_dolock = 1, mpcs = (\<lambda>_. MOut)(3 := a, 4 := b)\<rparr>"

lemma mstate_34_simps:
  "mgoto 3 x (mstate_34 w a b) = mstate_34 w x b" "mgoto 4 x (mstate_34 w a b) = mstate_34 w a x"
  "(mstate_34 w a b)\<lparr>locks := v\<rparr> = mstate_34 v a b"
  "mpcs (mstate_34 w a b) 3 = a" "mpcs (mstate_34 w a b) 4 = b" "locks (mstate_34 w a b) = w"
  "m_dolock (mstate_34 w a b) = 1"
  by (auto simp: mgoto_def mstate_34_def fun_eq_iff)

lemma reach_34:
  "reach mutex_init pthread_step (mstate_34 1 MIn MOut)"
  "reach mutex_init pthread_step (mstate_34 2 MIn (MAsleep Client))"
proof -
  have "reach mutex_init pthread_step (mstate_34 0 MOut MOut)"
    by (rule reach_init) (simp add: mutex_init_def mstate_34_def)
  from reach_step[OF this pthread_mutex[OF lock_call[of _ 3]]] have "reach mutex_init pthread_step (mstate_34 0 (MFast Client) MOut)"
    by (simp add: mstate_34_simps)
  from reach_step[OF this pthread_mutex[OF lock_fast[of _ 3 Client]]] show 1: "reach mutex_init pthread_step (mstate_34 1 MIn MOut)"
    by (simp add: mstate_34_simps)
  from reach_step[OF 1 pthread_mutex[OF lock_call[of _ 4]]] have "reach mutex_init pthread_step (mstate_34 1 MIn (MFast Client))"
    by (simp add: mstate_34_simps)
  from reach_step[OF this pthread_mutex[OF lock_slow[of _ 4]]] have "reach mutex_init pthread_step (mstate_34 1 MIn (MXchg Client))"
    by (simp add: mstate_34_simps)
  from reach_step[OF this pthread_mutex[OF xchg_busy[of _ 4]]] have "reach mutex_init pthread_step (mstate_34 2 MIn (MFutex Client))"
    by (simp add: mstate_34_simps)
  from reach_step[OF this pthread_mutex[OF futex_sleep[of _ 4]]] show "reach mutex_init pthread_step (mstate_34 2 MIn (MAsleep Client))"
    by (simp add: mstate_34_simps)
qed

theorem mutex_exclusion_witness: "\<exists>t. inside (mpcs (mstate_34 1 MIn MOut) t)"
  using conjunct1[OF mutex_exclusion[OF reach_34(1)]] by (simp add: mstate_34_def)

text \<open>
  C30: no wake-up is lost. Whenever a thread is queued in the kernel on the mutex, the word is 2, so that
  the thread that unlocks it will call \<open>FUTEX_WAKE\<close>, or some thread is about to make that call, about to
  exchange the word for 2, or on its way to the store of 2 at the end of \<open>pthread_cond_timedwait\<close>.
\<close>

theorem mutex_no_lost_wakeup:
  assumes "reach mutex_init pthread_step s" "queued (mpcs s t)"
  shows "locks s = 2 \<or> (\<exists>u. carrier s (mpcs s u))"
  using wakeup_due_reach[OF assms(1)] assms(2) by (auto simp: wakeup_due_def)

theorem mutex_no_lost_wakeup_witness:
  "locks (mstate_34 2 MIn (MAsleep Client)) = 2 \<or>
   (\<exists>u. carrier (mstate_34 2 MIn (MAsleep Client)) (mpcs (mstate_34 2 MIn (MAsleep Client)) u))"
  by (rule mutex_no_lost_wakeup[OF reach_34(2), of 4]) (simp add: mstate_34_def)

text \<open>
  C31: progress of the mutex. While a thread sleeps in the queue of the mutex, some other thread is not
  asleep and can take its next step: the holder of the mutex or a thread that is on its way to wake or
  retry. The system never comes to rest with a thread asleep.
\<close>

theorem mutex_progress:
  assumes "reach mutex_init pthread_step s" "queued (mpcs s t)"
  shows "\<exists>u s'. u \<noteq> t \<and> (inside (mpcs s u) \<or> carrier s (mpcs s u)) \<and> pthread_step s u s'"
proof -
  have "locks s = 2 \<or> (\<exists>u. carrier s (mpcs s u))"
    using wakeup_due_reach[OF assms(1)] assms(2) by (auto simp: wakeup_due_def)
  then obtain u where u: "inside (mpcs s u) \<or> carrier s (mpcs s u)"
    using conjunct1[OF mutex.held_iff[OF assms(1)]] by auto
  moreover have "\<not> carrier s (mpcs s t)" "\<not> inside (mpcs s t)"
    using assms(2) by (cases "mpcs s t"; simp)+
  moreover from calculation have "u \<noteq> t" by auto
  ultimately show ?thesis using active_steps[OF u] by blast
qed

theorem mutex_progress_witness:
  "\<exists>u s'. u \<noteq> 4 \<and> (inside (mpcs (mstate_34 2 MIn (MAsleep Client)) u) \<or>
      carrier (mstate_34 2 MIn (MAsleep Client)) (mpcs (mstate_34 2 MIn (MAsleep Client)) u)) \<and>
    pthread_step (mstate_34 2 MIn (MAsleep Client)) u s'"
  by (rule mutex_progress[OF reach_34(2), of 4]) (simp add: mstate_34_def)

text \<open>
  the spin lock of the allocator. At most one thread is between \<open>acquire\<close> and \<open>release\<close>, however
  the exchange instructions of the threads interleave, and the lock word is 0 exactly if none is.
\<close>

theorem spin_exclusion:
  assumes "reach spin_init spin_step s"
  shows "(sword s \<noteq> 0 \<longleftrightarrow> (\<exists>t. spcs s t = SIn)) \<and> (\<forall>t u. spcs s t = SIn \<longrightarrow> spcs s u = SIn \<longrightarrow> t = u)"
  using spin.held_iff[OF assms] .

theorem spin_exclusion_witness: "\<not> (\<exists>t. spcs \<lparr>sword = 0, sdolock = 1, spcs = (\<lambda>_. SOut)\<rparr> t = SIn)"
proof -
  have "reach spin_init spin_step \<lparr>sword = 0, sdolock = 1, spcs = (\<lambda>_. SOut)\<rparr>"
    by (rule reach_init) (simp add: spin_init_def)
  from conjunct1[OF spin_exclusion[OF this]] show ?thesis by simp
qed

end
