(* ===== verification/Litc_Barrier.thy ===== *)
theory Litc_Barrier
  imports Litc_Lock
begin

unbundle bit_operations_syntax

text \<open>
  \<open>pthread_barrier_wait\<close> (\<open>litc.c\<close>, lines 1191 to 1233) as interleaved threads. Every access to
  \<open>b->current\<close> is one step. The counters \<open>arrived\<close> and \<open>passed\<close> are not in the code: they count, per
  thread, the successful increments of \<open>current\<close> and the moments at which the thread is let through
  (the compare-and-swap that opens the barrier, or leaving the spin loop).
\<close>

section \<open>Threads at a barrier\<close>

text \<open>
  Program points: outside; before the load of \<open>o\<close>; before the compare-and-swap; before the test
  \<open>c == target\<close>; the three accesses of the loop that sets the top bit; the spin loop; before the
  decrement; before the test \<open>c == m\<close> and its store.
\<close>

datatype bpc = BIdle | BLoad | BTry cint | BEntered cint | BClose1 | BClose2 cint | BClose3 cint cint
  | BSpin | BDec | BReset cint

record barrier =
  target :: cint
  current :: cint
  bpcs :: "nat \<Rightarrow> bpc"
  arrived :: "nat \<Rightarrow> nat"
  passed :: "nat \<Rightarrow> nat"

definition bar_m :: cint where "bar_m = push_bit 31 1"

definition bgoto :: "nat \<Rightarrow> bpc \<Rightarrow> barrier \<Rightarrow> barrier" where
  "bgoto t pc s = s\<lparr>bpcs := (bpcs s)(t := pc)\<rparr>"

definition arrive :: "nat \<Rightarrow> barrier \<Rightarrow> barrier" where
  "arrive t s = s\<lparr>arrived := (arrived s)(t := Suc (arrived s t))\<rparr>"

definition pass :: "nat \<Rightarrow> barrier \<Rightarrow> barrier" where
  "pass t s = s\<lparr>passed := (passed s)(t := Suc (passed s t))\<rparr>"

text \<open>The participants are the threads below \<open>N\<close>.\<close>

inductive barrier_step :: "nat \<Rightarrow> barrier \<Rightarrow> nat \<Rightarrow> barrier \<Rightarrow> bool" for N where
  wait_enter: "bpcs s t = BIdle \<Longrightarrow> t < N \<Longrightarrow> barrier_step N s t (bgoto t BLoad s)"
| load_closed: "bpcs s t = BLoad \<Longrightarrow> current s AND bar_m \<noteq> 0 \<Longrightarrow> barrier_step N s t s"
| load_open: "bpcs s t = BLoad \<Longrightarrow> current s AND bar_m = 0 \<Longrightarrow> barrier_step N s t (bgoto t (BTry (current s)) s)"
| cas_retry: "bpcs s t = BTry old \<Longrightarrow> current s \<noteq> old \<Longrightarrow> barrier_step N s t (bgoto t BLoad s)"
| cas_enter: "bpcs s t = BTry old \<Longrightarrow> current s = old \<Longrightarrow>
    barrier_step N s t (bgoto t (BEntered (old + 1)) (arrive t (s\<lparr>current := old + 1\<rparr>)))"
| test_target: "bpcs s t = BEntered c \<Longrightarrow>
    barrier_step N s t (bgoto t (if c = target s then BClose1 else BSpin) s)"
| close_load: "bpcs s t = BClose1 \<Longrightarrow> barrier_step N s t (bgoto t (BClose2 (current s)) s)"
| close_next: "bpcs s t = BClose2 old \<Longrightarrow> barrier_step N s t (bgoto t (BClose3 old ((current s - 1) OR bar_m)) s)"
| close_retry: "bpcs s t = BClose3 old new \<Longrightarrow> current s \<noteq> old \<Longrightarrow> barrier_step N s t (bgoto t BClose1 s)"
| close_open: "bpcs s t = BClose3 old new \<Longrightarrow> current s = old \<Longrightarrow>
    barrier_step N s t (bgoto t BIdle (pass t (s\<lparr>current := new\<rparr>)))"
| spin_again: "bpcs s t = BSpin \<Longrightarrow> current s AND bar_m = 0 \<Longrightarrow> barrier_step N s t s"
| spin_exit: "bpcs s t = BSpin \<Longrightarrow> current s AND bar_m \<noteq> 0 \<Longrightarrow> barrier_step N s t (bgoto t BDec (pass t s))"
| decrement: "bpcs s t = BDec \<Longrightarrow>
    barrier_step N s t (bgoto t (BReset (current s - 1)) (s\<lparr>current := current s - 1\<rparr>))"
| reset_last: "bpcs s t = BReset c \<Longrightarrow> c = bar_m \<Longrightarrow> barrier_step N s t (bgoto t BIdle (s\<lparr>current := 0\<rparr>))"
| reset_other: "bpcs s t = BReset c \<Longrightarrow> c \<noteq> bar_m \<Longrightarrow> barrier_step N s t (bgoto t BIdle s)"

text \<open>\<open>pthread_barrier_init\<close>; the error exit is for attributes, which are not supported.\<close>

definition pthread_barrier_init :: "bool \<Rightarrow> cint \<Rightarrow> barrier \<Rightarrow> (cint \<times> barrier) outcome" where
  "pthread_barrier_init attr c b =
    (if attr then Errx (- 1) ''barrier attributes not supported'' else Ret (0, b\<lparr>target := c, current := 0\<rparr>))"

definition barrier_idle :: "barrier \<Rightarrow> bool" where
  "barrier_idle b \<longleftrightarrow> (\<forall>t. bpcs b t = BIdle \<and> arrived b t = 0 \<and> passed b t = 0)"

definition barrier_ready :: "nat \<Rightarrow> barrier \<Rightarrow> bool" where
  "barrier_ready N s \<longleftrightarrow> (\<exists>b. barrier_idle b \<and> pthread_barrier_init False (of_nat N) b = Ret (0, s))"

lemma barrier_simps [simp]:
  "target (bgoto t pc s) = target s" "current (bgoto t pc s) = current s" "bpcs (bgoto t pc s) = (bpcs s)(t := pc)"
  "arrived (bgoto t pc s) = arrived s" "passed (bgoto t pc s) = passed s"
  "target (arrive t s) = target s" "current (arrive t s) = current s" "bpcs (arrive t s) = bpcs s"
  "arrived (arrive t s) = (arrived s)(t := Suc (arrived s t))" "passed (arrive t s) = passed s"
  "target (pass t s) = target s" "current (pass t s) = current s" "bpcs (pass t s) = bpcs s"
  "arrived (pass t s) = arrived s" "passed (pass t s) = (passed s)(t := Suc (passed s t))"
  by (simp_all add: bgoto_def arrive_def pass_def)

section \<open>The top bit\<close>

lemma m_val: "bar_m = 2147483648"
  by (simp add: bar_m_def push_bit_eq_mult)

lemma bit_m: "bit bar_m n \<longleftrightarrow> n = 31"
  unfolding bar_m_def bit_push_bit_iff bit_1_iff by auto

lemma and_m: "x AND bar_m = (if 2147483648 \<le> x then bar_m else 0)" for x :: cint
proof -
  have "x AND bar_m = (if bit x 31 then bar_m else 0)"
    by (rule bit_word_eqI) (auto simp: bit_and_iff bit_m)
  moreover have "bit x 31 \<longleftrightarrow> 2147483648 \<le> unat x"
  proof -
    have "bit x 31 \<longleftrightarrow> bit (unat x) 31" by (simp add: bit_unsigned_iff)
    moreover have "unat x div 2147483648 < 2"
      using unsigned_less[of x, where 'a = nat] by (intro less_mult_imp_div_less) simp
    then have "odd (unat x div 2147483648) \<longleftrightarrow> unat x div 2147483648 \<noteq> 0"
      by (cases "unat x div 2147483648 = 0") (auto simp: less_2_cases_iff)
    ultimately show ?thesis by (simp add: bit_iff_odd div_eq_0_iff not_less)
  qed
  ultimately show ?thesis by (simp add: word_le_nat_alt)
qed

lemma of_nat_below:
  assumes "j < 2147483648"
  shows "unat (of_nat j :: cint) = j" "unat (bar_m + of_nat j) = 2147483648 + j"
  using assms by (simp_all add: m_val unat_word_ariths unat_of_nat take_bit_eq_mod)

lemma of_nat_eq_below:
  assumes "i < 2147483648" "j < 2147483648"
  shows "of_nat i = (of_nat j :: cint) \<longleftrightarrow> i = j"
proof
  assume "of_nat i = (of_nat j :: cint)"
  then have "unat (of_nat i :: cint) = unat (of_nat j :: cint)" by simp
  then show "i = j" using assms by (simp only: of_nat_below)
qed simp

lemma m_facts:
  assumes "j < 2147483648"
  shows "of_nat j AND bar_m = 0" "(bar_m + of_nat j) AND bar_m \<noteq> 0" "bar_m + of_nat j = bar_m \<longleftrightarrow> j = 0"
proof -
  have "\<not> 2147483648 \<le> (of_nat j :: cint)" "2147483648 \<le> bar_m + of_nat j"
    using assms by (simp_all add: word_le_nat_alt of_nat_below)
  then show "of_nat j AND bar_m = 0" "(bar_m + of_nat j) AND bar_m \<noteq> 0" by (simp_all only: and_m if_True if_False) (simp add: m_val)
  have "unat (bar_m + of_nat j) = unat bar_m \<longleftrightarrow> j = 0" 
    unfolding of_nat_below(2)[OF assms] by (simp add: m_val)
  then show "bar_m + of_nat j = bar_m \<longleftrightarrow> j = 0" by (simp only: word_unat_eq_iff)
qed

lemma close_word:
  assumes "0 < N" "N < 2147483648"
  shows "((of_nat N - 1) OR bar_m) = bar_m + of_nat (N - 1)"
proof -
  have "of_nat N - 1 = (of_nat (N - 1) :: cint)" using assms(1) by (cases N) simp_all
  moreover have "(of_nat (N - 1) OR bar_m) = of_nat (N - 1) + bar_m"
    by (rule disjunctive_add_eq_or[symmetric], rule m_facts(1)) (use assms in simp)
  ultimately show ?thesis by (simp only: add.commute)
qed

section \<open>Roles and counting\<close>

text \<open>What a thread contributes to \<open>current\<close>: the one that got \<open>c == target\<close> closes, the others wait.\<close>

datatype role = ROut | RWait | RClose | RDec | RLast

fun brole :: "cint \<Rightarrow> bpc \<Rightarrow> role" where
  "brole T (BEntered c) = (if c = T then RClose else RWait)"
| "brole T BSpin = RWait"
| "brole T BClose1 = RClose"
| "brole T (BClose2 old) = RClose"
| "brole T (BClose3 old new) = RClose"
| "brole T BDec = RDec"
| "brole T (BReset c) = (if c = bar_m then RLast else ROut)"
| "brole T _ = ROut"

definition roles :: "barrier \<Rightarrow> nat \<Rightarrow> role" where
  "roles s u = brole (target s) (bpcs s u)"

definition cnt :: "nat \<Rightarrow> (nat \<Rightarrow> role) \<Rightarrow> role \<Rightarrow> nat" where
  "cnt N f R = (\<Sum>u<N. if f u = R then 1 else 0)"

lemma cnt_pos: "t < N \<Longrightarrow> f t = R \<Longrightarrow> 0 < cnt N f R"
  unfolding cnt_def by (subst sum.remove[of _ t]) auto

lemma cnt_upd:
  assumes "t < N"
  shows "cnt N (f(t := R')) R + (if f t = R then 1 else 0) = cnt N f R + (if R' = R then 1 else 0)"
proof -
  have "(\<Sum>u\<in>{..<N} - {t}. if (f(t := R')) u = R then 1 else 0) = (\<Sum>u\<in>{..<N} - {t}. if f u = R then 1 else 0 :: nat)"
    by (rule sum.cong) auto
  then show ?thesis using assms unfolding cnt_def by (simp add: sum.remove[of _ t])
qed

lemma cnt_total: "cnt N f ROut + cnt N f RWait + cnt N f RClose + cnt N f RDec + cnt N f RLast = N"
proof -
  have "(\<Sum>u<N. (if f u = ROut then 1 else 0) + (if f u = RWait then 1 else 0) + (if f u = RClose then 1 else 0)
      + (if f u = RDec then 1 else 0) + (if f u = RLast then 1 else 0 :: nat)) = (\<Sum>u<N. 1)"
    by (rule sum.cong) (auto intro: role.exhaust)
  then show ?thesis unfolding cnt_def by (simp add: sum.distrib)
qed

lemma cnt_zero: "cnt N f R = 0 \<longleftrightarrow> (\<forall>u<N. f u \<noteq> R)"
  unfolding cnt_def by auto

lemma roles_bgoto [simp]: "roles (bgoto t pc s) = (roles s)(t := brole (target s) pc)"
  by (auto simp: roles_def fun_eq_iff)

lemma roles_other [simp]:
  "roles (arrive t s) = roles s" "roles (pass t s) = roles s" "roles (s\<lparr>current := c\<rparr>) = roles s"
  by (auto simp: roles_def fun_eq_iff)

section \<open>The invariant\<close>

fun pc_ok :: "nat \<Rightarrow> bpc \<Rightarrow> bool" where
  "pc_ok N (BTry old) = (old AND bar_m = 0)"
| "pc_ok N (BClose2 old) = (old = of_nat N)"
| "pc_ok N (BClose3 old new) = (old = of_nat N \<and> new = bar_m + of_nat (N - 1))"
| "pc_ok N _ = True"

definition shape :: "nat \<Rightarrow> barrier \<Rightarrow> bool" where
  "shape N s \<longleftrightarrow> target s = of_nat N \<and> (\<forall>u\<ge>N. bpcs s u = BIdle) \<and> (\<forall>u. pc_ok N (bpcs s u))"

text \<open>Round \<open>k\<close> fills up: \<open>current\<close> counts those who have arrived, and the last one closes.\<close>

definition filling :: "nat \<Rightarrow> nat \<Rightarrow> barrier \<Rightarrow> bool" where
  "filling N k s \<longleftrightarrow> shape N s \<and>
    current s = of_nat (cnt N (roles s) RWait + cnt N (roles s) RClose) \<and>
    cnt N (roles s) RDec = 0 \<and> cnt N (roles s) RLast = 0 \<and>
    cnt N (roles s) RClose = (if cnt N (roles s) RWait + cnt N (roles s) RClose = N then 1 else 0) \<and>
    (\<forall>u<N. passed s u = k \<and> arrived s u = (if roles s u = ROut then k else Suc k))"

text \<open>Round \<open>k\<close> drains: \<open>current\<close> is the top bit and the number of those who have not decremented it.\<close>

definition draining :: "nat \<Rightarrow> nat \<Rightarrow> barrier \<Rightarrow> bool" where
  "draining N k s \<longleftrightarrow> shape N s \<and>
    current s = bar_m + of_nat (cnt N (roles s) RWait + cnt N (roles s) RDec) \<and>
    cnt N (roles s) RClose = 0 \<and>
    cnt N (roles s) RLast = (if cnt N (roles s) RWait + cnt N (roles s) RDec = 0 then 1 else 0) \<and>
    (\<forall>u<N. arrived s u = Suc k \<and> passed s u = (if roles s u = RWait then k else Suc k))"

lemma shape_bgoto: "shape N s \<Longrightarrow> t < N \<Longrightarrow> pc_ok N pc \<Longrightarrow> shape N (bgoto t pc s)"
  by (auto simp: shape_def)

lemma shape_other [simp]:
  "shape N (arrive t s) = shape N s" "shape N (pass t s) = shape N s" "shape N (s\<lparr>current := c\<rparr>) = shape N s"
  by (auto simp: shape_def)

lemma shape_active: "shape N s \<Longrightarrow> bpcs s t \<noteq> BIdle \<Longrightarrow> t < N"
  by (auto simp: shape_def not_less[symmetric])

lemma same_role:
  assumes "t < N" "pc_ok N pc" "brole (target s) pc = roles s t"
  shows "filling N k s \<Longrightarrow> filling N k (bgoto t pc s)" "draining N k s \<Longrightarrow> draining N k (bgoto t pc s)"
proof -
  have r: "roles (bgoto t pc s) = roles s" using assms(3) by (simp add: fun_upd_idem)
  show "filling N k s \<Longrightarrow> filling N k (bgoto t pc s)"
    using shape_bgoto[OF _ assms(1,2), of s] by (simp add: filling_def r del: roles_bgoto)
  show "draining N k s \<Longrightarrow> draining N k (bgoto t pc s)"
    using shape_bgoto[OF _ assms(1,2), of s] by (simp add: draining_def r del: roles_bgoto)
qed

lemmas cnt_upds = cnt_upd[where R = RWait] cnt_upd[where R = RClose] cnt_upd[where R = RDec]
  cnt_upd[where R = RLast]

lemma filling_cas_enter:
  assumes inv: "filling N k s" and N: "N < 2147483648" and t: "t < N" and pc: "bpcs s t = BTry old" "current s = old"
  shows "filling N k (bgoto t (BEntered (old + 1)) (arrive t (s\<lparr>current := old + 1\<rparr>)))" (is "filling N k ?s")
proof -
  let ?w = "cnt N (roles s) RWait" and ?r = "brole (of_nat N) (BEntered (old + 1))"
  have out: "roles s t = ROut" using pc by (simp add: roles_def)
  note f = inv[unfolded filling_def]
  have c0: "cnt N (roles s) RClose = 0" and wN: "Suc ?w \<le> N"
    using f cnt_total[of N "roles s"] cnt_pos[where f = "roles s", OF t out] by (auto split: if_splits)
  have old: "old = of_nat ?w" using f pc c0 by simp
  have "of_nat (Suc ?w) = (of_nat N :: cint) \<longleftrightarrow> Suc ?w = N"
    by (rule of_nat_eq_below) (use wN N in simp_all)
  then have "old + 1 = of_nat N \<longleftrightarrow> Suc ?w = N" unfolding old by (simp add: add.commute)
  then have r: "?r = (if Suc ?w = N then RClose else RWait)" by simp
  have T: "target s = of_nat N" using f by (simp add: shape_def)
  have rs: "roles ?s = (roles s)(t := ?r)" by (simp add: T)
  have "cnt N (roles ?s) RWait = (if Suc ?w = N then ?w else Suc ?w)" "cnt N (roles ?s) RClose = (if Suc ?w = N then 1 else 0)"
    "cnt N (roles ?s) RDec = 0" "cnt N (roles ?s) RLast = 0"
    unfolding rs r using cnt_upds[OF t, of "roles s" "if Suc ?w = N then RClose else RWait"] out c0 f by (auto split: if_splits)
  moreover have "shape N ?s" using f t by (auto intro!: shape_bgoto)
  moreover have "\<forall>u<N. passed ?s u = k \<and> arrived ?s u = (if roles ?s u = ROut then k else Suc k)"
    unfolding rs r using f out by auto
  ultimately show ?thesis unfolding filling_def old by simp
qed

lemma close_draining:
  assumes inv: "filling N k s" and N: "2 \<le> N" "N < 2147483648" and t: "t < N" and pc: "bpcs s t = BClose3 old new"
  shows "draining N k (bgoto t BIdle (pass t (s\<lparr>current := new\<rparr>)))" (is "draining N k ?s")
proof -
  have cl: "roles s t = RClose" using pc by (simp add: roles_def)
  note f = inv[unfolded filling_def]
  have "cnt N (roles s) RClose = 1" "cnt N (roles s) RWait = N - 1"
    using f cnt_pos[where f = "roles s", OF t cl] by (auto split: if_splits)
  moreover have rs: "roles ?s = (roles s)(t := ROut)" by simp
  ultimately have "cnt N (roles ?s) RWait = N - 1" "cnt N (roles ?s) RClose = 0"
    "cnt N (roles ?s) RDec = 0" "cnt N (roles ?s) RLast = 0"
    unfolding rs using cnt_upds[OF t, of "roles s" ROut] cl f by auto
  moreover have "cnt N (roles s) ROut = 0"
    using f cnt_total[of N "roles s"] \<open>cnt N (roles s) RClose = 1\<close> \<open>cnt N (roles s) RWait = N - 1\<close> by simp
  then have "cnt N (roles s) ROut = 0" "cnt N (roles s) RDec = 0" "cnt N (roles s) RLast = 0" using f by auto
  then have in_use: "roles s u = RWait \<or> roles s u = RClose" if "u < N" for u
    using that by (cases "roles s u") (auto simp: cnt_zero)
  moreover have only: "roles s u \<noteq> RClose" if "u \<noteq> t" "u < N" for u
    using that \<open>cnt N (roles ?s) RClose = 0\<close> unfolding rs cnt_zero by (auto split: if_splits)
  moreover have "shape N ?s" using f t by (auto intro!: shape_bgoto)
  moreover have "new = bar_m + of_nat (N - 1)" 
    using conjunct1[OF f] pc unfolding shape_def by (auto dest!: spec[of _ t])
  moreover have "\<forall>u<N. arrived ?s u = Suc k \<and> passed ?s u = (if roles ?s u = RWait then k else Suc k)"
    using f cl in_use only unfolding rs by (auto dest: in_use)
  ultimately show ?thesis using N unfolding draining_def by simp
qed

lemma draining_spin_exit:
  assumes inv: "draining N k s" and t: "t < N" and pc: "bpcs s t = BSpin"
  shows "draining N k (bgoto t BDec (pass t s))" (is "draining N k ?s")
proof -
  have w: "roles s t = RWait" using pc by (simp add: roles_def)
  note d = inv[unfolded draining_def]
  have rs: "roles ?s = (roles s)(t := RDec)" by simp
  have "cnt N (roles ?s) RWait + cnt N (roles ?s) RDec = cnt N (roles s) RWait + cnt N (roles s) RDec"
    "cnt N (roles ?s) RClose = 0" "cnt N (roles ?s) RLast = cnt N (roles s) RLast"
    unfolding rs using cnt_upds[OF t, of "roles s" RDec] w d by auto
  moreover have "shape N ?s" using d t by (auto intro!: shape_bgoto)
  ultimately show ?thesis using d w unfolding draining_def by auto
qed

lemma draining_decrement:
  assumes inv: "draining N k s" and N: "N < 2147483648" and t: "t < N" and pc: "bpcs s t = BDec"
  shows "draining N k (bgoto t (BReset (current s - 1)) (s\<lparr>current := current s - 1\<rparr>))" (is "draining N k ?s")
proof -
  let ?j = "cnt N (roles s) RWait + cnt N (roles s) RDec"
  have dec: "roles s t = RDec" using pc by (simp add: roles_def)
  note d = inv[unfolded draining_def]
  have j: "0 < ?j" "?j \<le> N" using cnt_pos[where f = "roles s", OF t dec] cnt_total[of N "roles s"] by auto
  then obtain i where i: "?j = Suc i" by (cases ?j) auto
  have "current s = bar_m + of_nat ?j" using d by blast
  then have cur: "current s - 1 = bar_m + of_nat (?j - 1)" unfolding i by simp
  have z: "bar_m + of_nat (?j - 1) = bar_m \<longleftrightarrow> ?j - 1 = 0" by (rule m_facts(3)) (use j N in simp)
  have rs: "roles ?s = (roles s)(t := (if ?j = 1 then RLast else ROut))"
    using j z by (auto simp: cur)
  have "cnt N (roles ?s) RWait + cnt N (roles ?s) RDec = ?j - 1" "cnt N (roles ?s) RClose = 0"
    "cnt N (roles ?s) RLast = (if ?j = 1 then 1 else 0)"
    unfolding rs using cnt_upds[OF t, of "roles s" "if ?j = 1 then RLast else ROut"] dec d j by (auto split: if_splits)
  moreover have "shape N ?s" using d t by (auto intro!: shape_bgoto)
  moreover have "\<forall>u<N. arrived ?s u = Suc k \<and> passed ?s u = (if roles ?s u = RWait then k else Suc k)"
    unfolding rs using d dec by auto
  moreover have "current ?s = bar_m + of_nat (?j - 1)" by (simp only: cur barrier_simps) simp
  moreover have "(if ?j = 1 then 1 else 0) = (if ?j - 1 = 0 then 1 else 0 :: nat)" using j by auto
  ultimately show ?thesis unfolding draining_def by (intro conjI) (simp_all only:)
qed

lemma draining_reset:
  assumes inv: "draining N k s" and N: "2 \<le> N" and t: "t < N" and pc: "bpcs s t = BReset bar_m"
  shows "filling N (Suc k) (bgoto t BIdle (s\<lparr>current := 0\<rparr>))" (is "filling N _ ?s")
proof -
  have l: "roles s t = RLast" using pc by (simp add: roles_def)
  note d = inv[unfolded draining_def]
  have z: "cnt N (roles s) RWait = 0" "cnt N (roles s) RDec = 0" "cnt N (roles s) RLast = 1"
    using d cnt_pos[where f = "roles s", OF t l] by (auto split: if_splits)
  have rs: "roles ?s = (roles s)(t := ROut)" by simp
  have c: "cnt N (roles ?s) RWait = 0" "cnt N (roles ?s) RClose = 0" "cnt N (roles ?s) RDec = 0" "cnt N (roles ?s) RLast = 0"
    unfolding rs using cnt_upds[OF t, of "roles s" ROut] l d z by auto
  then have "\<forall>u<N. roles ?s u = ROut" 
    unfolding cnt_zero by (intro allI impI) (case_tac "roles ?s u", auto)
  moreover have "shape N ?s" using d t by (auto intro!: shape_bgoto)
  moreover have "\<forall>u<N. roles s u \<noteq> RWait" using z by (simp add: cnt_zero)
  ultimately show ?thesis using d N c unfolding filling_def by auto
qed

definition barrier_inv :: "nat \<Rightarrow> barrier \<Rightarrow> bool" where
  "barrier_inv N s \<longleftrightarrow> (\<exists>k. filling N k s \<or> draining N k s)"

lemma filling_current:
  assumes "filling N k s" "N < 2147483648"
  shows "current s AND bar_m = 0"
proof -
  have "current s = of_nat (cnt N (roles s) RWait + cnt N (roles s) RClose)" using assms(1) by (simp add: filling_def)
  then show ?thesis
    by (simp only:, intro m_facts(1)) (use cnt_total[of N "roles s"] assms(2) in simp)
qed

lemma draining_current:
  assumes "draining N k s" "N < 2147483648"
  shows "current s AND bar_m \<noteq> 0"
proof -
  have "current s = bar_m + of_nat (cnt N (roles s) RWait + cnt N (roles s) RDec)" using assms(1) by (simp add: draining_def)
  then show ?thesis
    by (simp only:, intro m_facts(2)) (use cnt_total[of N "roles s"] assms(2) in simp)
qed

lemma filling_roles:
  assumes "filling N k s" "t < N"
  shows "roles s t \<noteq> RDec" "roles s t \<noteq> RLast" "roles s t = RClose \<Longrightarrow> current s = of_nat N"
proof -
  note f = assms(1)[unfolded filling_def]
  show "roles s t \<noteq> RDec" "roles s t \<noteq> RLast" using f assms(2) unfolding cnt_zero by blast+
  assume "roles s t = RClose"
  then have "cnt N (roles s) RWait + cnt N (roles s) RClose = N"
    using f cnt_pos[of t N "roles s"] assms(2) by (auto split: if_splits)
  moreover have "current s = of_nat (cnt N (roles s) RWait + cnt N (roles s) RClose)" using f by blast
  ultimately show "current s = of_nat N" by simp
qed

lemma draining_roles: "draining N k s \<Longrightarrow> t < N \<Longrightarrow> roles s t \<noteq> RClose"
  using cnt_zero unfolding draining_def by blast

lemma filling_step:
  assumes inv: "filling N k s" and N: "2 \<le> N" "N < 2147483648" and step: "barrier_step N s t s'"
  shows "barrier_inv N s'"
proof -
  have sh: "shape N s" using inv by (simp add: filling_def)
  have T: "target s = of_nat N" and ok: "pc_ok N (bpcs s t)" using sh by (simp_all add: shape_def)
  have t: "t < N" using step shape_active[OF sh, of t] by cases auto
  note roles = filling_roles[OF inv t, unfolded roles_def]
  note same = same_role(1)[OF t _ _ inv, unfolded roles_def]
  have keep: "barrier_inv N s''" if "filling N k s''" for s'' using that by (auto simp: barrier_inv_def)
  have close: "((of_nat N - 1) OR bar_m) = bar_m + of_nat (N - 1)" using N by (intro close_word) auto
  from step show ?thesis
  proof cases
    case (cas_enter old)
    then show ?thesis using filling_cas_enter[OF inv N(2) t] keep by blast
  next
    case (close_open old new)
    then show ?thesis using close_draining[OF inv N t] by (auto simp: barrier_inv_def)
  next
    case spin_exit
    then show ?thesis using filling_current[OF inv N(2)] by simp
  next
    case load_closed
    then show ?thesis using inv keep by simp
  next
    case spin_again
    then show ?thesis using inv keep by simp
  qed (use roles close T ok in \<open>auto intro!: keep same\<close>)
qed

lemma draining_step:
  assumes inv: "draining N k s" and N: "2 \<le> N" "N < 2147483648" and step: "barrier_step N s t s'"
  shows "barrier_inv N s'"
proof -
  have sh: "shape N s" using inv by (simp add: draining_def)
  have ok: "pc_ok N (bpcs s t)" using sh by (simp add: shape_def)
  have t: "t < N" using step shape_active[OF sh, of t] by cases auto
  note roles = draining_roles[OF inv t, unfolded roles_def]
  note same = same_role(2)[OF t _ _ inv, unfolded roles_def]
  note cur = draining_current[OF inv N(2)]
  have keep: "barrier_inv N s''" if "draining N k s''" for s'' using that by (auto simp: barrier_inv_def)
  from step show ?thesis
  proof cases
    case spin_exit
    then show ?thesis using draining_spin_exit[OF inv t] keep by simp
  next
    case decrement
    then show ?thesis using draining_decrement[OF inv N(2) t] keep by simp
  next
    case (reset_last c)
    then show ?thesis using draining_reset[OF inv N(1) t] by (auto simp: barrier_inv_def)
  next
    case load_closed
    then show ?thesis using inv keep by simp
  next
    case spin_again
    then show ?thesis using inv keep by simp
  qed (use roles cur ok in \<open>auto intro!: keep same\<close>)
qed

lemma barrier_inv_reach:
  assumes "reach (barrier_ready N) (barrier_step N) s" "2 \<le> N" "N < 2147483648"
  shows "barrier_inv N s"
  using assms(1)
proof (induction rule: reach.induct)
  case (reach_init s)
  then have "filling N 0 s"
    using assms(2) by (auto simp: barrier_ready_def pthread_barrier_init_def barrier_idle_def filling_def shape_def roles_def cnt_def)
  then show ?case by (auto simp: barrier_inv_def)
next
  case (reach_step s t s')
  then show ?case using filling_step[OF _ assms(2,3)] draining_step[OF _ assms(2,3)] unfolding barrier_inv_def by blast
qed

section \<open>One participant\<close>

text \<open>With \<open>target\<close> 1 the word keeps its top bit for ever.\<close>

definition single_inv :: "barrier \<Rightarrow> bool" where
  "single_inv s \<longleftrightarrow> target s = 1 \<and> (\<forall>u>0. bpcs s u = BIdle) \<and>
    (current s = 0 \<and> arrived s 0 = 0 \<and> bpcs s 0 \<in> {BIdle, BLoad, BTry 0} \<or>
     current s = 1 \<and> arrived s 0 = 1 \<and> bpcs s 0 \<in> {BEntered 1, BClose1, BClose2 1, BClose3 1 bar_m} \<or>
     current s = bar_m \<and> arrived s 0 = 1 \<and> bpcs s 0 \<in> {BIdle, BLoad})"

lemma m_and_m: "bar_m \<noteq> 0" "1 AND bar_m = 0" "0 OR bar_m = bar_m"
  by (simp_all add: m_val)

lemma single_inv_step: "single_inv s \<Longrightarrow> barrier_step 1 s t s' \<Longrightarrow> single_inv s'"
  by (cases "t = 0"; erule barrier_step.cases) (auto simp: single_inv_def m_and_m split: if_splits)

lemma single_inv_reach: "reach (barrier_ready 1) (barrier_step 1) s \<Longrightarrow> single_inv s"
proof (induction rule: reach.induct)
  case (reach_init s)
  then show ?case by (auto simp: barrier_ready_def pthread_barrier_init_def barrier_idle_def single_inv_def)
qed (rule single_inv_step)

section \<open>Properties\<close>

text \<open>
  C21: safety of the barrier. With \<open>N\<close> participants, \<open>2 \<le> N < 2^31\<close>, however often and in whatever
  interleaving they call \<open>pthread_barrier_wait\<close>: no participant is let through its \<open>k\<close>-th wait before
  every participant has arrived at its own \<open>k\<close>-th wait.
\<close>

theorem barrier_safe:
  assumes "reach (barrier_ready N) (barrier_step N) s" "2 \<le> N" "N < 2147483648" "t < N" "u < N"
  shows "passed s t \<le> arrived s u"
  using barrier_inv_reach[OF assms(1,2,3)] assms(4,5) unfolding barrier_inv_def filling_def draining_def by auto

definition barrier0 :: "nat \<Rightarrow> barrier" where
  "barrier0 N = \<lparr>target = of_nat N, current = 0, bpcs = (\<lambda>_. BIdle), arrived = (\<lambda>_. 0), passed = (\<lambda>_. 0)\<rparr>"

lemma reach_barrier0: "reach (barrier_ready N) (barrier_step N) (barrier0 N)"
  by (rule reach_init)
    (auto simp: barrier_ready_def pthread_barrier_init_def barrier_idle_def barrier0_def intro!: exI[of _ "barrier0 N"])

lemma reach_barrier2:
  "reach (barrier_ready 2) (barrier_step 2)
    (bgoto 0 (BEntered 1) (arrive 0 ((bgoto 0 (BTry 0) (bgoto 0 BLoad (barrier0 2)))\<lparr>current := 1\<rparr>)))"
proof -
  note step = reach_step[of "barrier_ready 2" "barrier_step 2"]
  have "reach (barrier_ready 2) (barrier_step 2) (bgoto 0 BLoad (barrier0 2))"
    by (rule step[OF reach_barrier0 wait_enter]) (simp_all add: barrier0_def)
  from step[OF this load_open[of _ 0]]
  have "reach (barrier_ready 2) (barrier_step 2) (bgoto 0 (BTry 0) (bgoto 0 BLoad (barrier0 2)))"
    by (simp add: barrier0_def)
  from step[OF this cas_enter[of _ 0 0]] show ?thesis by (simp add: barrier0_def)
qed

theorem barrier_safe_witness:
  "passed (bgoto 0 (BEntered 1) (arrive 0 ((bgoto 0 (BTry 0) (bgoto 0 BLoad (barrier0 2)))\<lparr>current := 1\<rparr>))) 0
   \<le> arrived (bgoto 0 (BEntered 1) (arrive 0 ((bgoto 0 (BTry 0) (bgoto 0 BLoad (barrier0 2)))\<lparr>current := 1\<rparr>))) 1"
  by (rule barrier_safe[OF reach_barrier2]) simp_all

text \<open>
  a barrier for a single participant works once. The wait that closes and opens it leaves the top bit
  set with nobody to clear it, so that a second wait by the same thread never gets past the first loop:
  in no reachable state has the thread arrived twice.
\<close>

theorem barrier_single_use:
  assumes "reach (barrier_ready 1) (barrier_step 1) s"
  shows "arrived s 0 \<le> 1"
  using single_inv_reach[OF assms] by (auto simp: single_inv_def)

theorem barrier_single_use_witness: "arrived (barrier0 1) 0 \<le> 1"
  by (rule barrier_single_use[OF reach_barrier0])

end
