(* ===== verification/Ucore_List.thy ===== *)
theory Ucore_List
  imports Prelude "HOL-Library.Monad_Syntax"
begin

text \<open>
  The doubly linked list of \<open>include/list.h\<close> of the uCore user library. An entry is a record of two
  addresses, and the memory of entries is a map from addresses to records; following a pointer to no
  entry is \<open>None\<close>. The predicate \<open>ring h a xs\<close> says that from the list head \<open>a\<close> the entries \<open>xs\<close> are
  linked in this order, in both directions, and closed to a ring. Every operation is shown to do on the
  ring what the list operation does on \<open>xs\<close>, and a queue built from them is first-in first-out.
\<close>

section \<open>The code\<close>

record list_entry =
  le_prev :: long
  le_next :: long

type_synonym lstore = "long \<Rightarrow> list_entry option"

definition set_prev :: "long \<Rightarrow> long \<Rightarrow> lstore \<Rightarrow> lstore option" where
  "set_prev p v h = map_option (\<lambda>e. h(p \<mapsto> e\<lparr>le_prev := v\<rparr>)) (h p)"

definition set_next :: "long \<Rightarrow> long \<Rightarrow> lstore \<Rightarrow> lstore option" where
  "set_next p v h = map_option (\<lambda>e. h(p \<mapsto> e\<lparr>le_next := v\<rparr>)) (h p)"

definition list_prev :: "long \<Rightarrow> lstore \<Rightarrow> long option" where
  "list_prev p h = map_option le_prev (h p)"

definition list_next :: "long \<Rightarrow> lstore \<Rightarrow> long option" where
  "list_next p h = map_option le_next (h p)"

definition list_init :: "long \<Rightarrow> lstore \<Rightarrow> lstore option" where
  "list_init elm h = do { h1 \<leftarrow> set_next elm elm h; set_prev elm elm h1 }"

text \<open>\<open>prev->next = next->prev = elm; elm->next = next; elm->prev = prev\<close>\<close>

definition s_list_add :: "long \<Rightarrow> long \<Rightarrow> long \<Rightarrow> lstore \<Rightarrow> lstore option" where
  "s_list_add elm p n h = do {
     h1 \<leftarrow> set_prev n elm h;
     h2 \<leftarrow> set_next p elm h1;
     h3 \<leftarrow> set_next elm n h2;
     set_prev elm p h3 }"

definition s_list_del :: "long \<Rightarrow> long \<Rightarrow> lstore \<Rightarrow> lstore option" where
  "s_list_del p n h = do { h1 \<leftarrow> set_next p n h; set_prev n p h1 }"

definition list_add_before :: "long \<Rightarrow> long \<Rightarrow> lstore \<Rightarrow> lstore option" where
  "list_add_before listelm elm h = do { p \<leftarrow> list_prev listelm h; s_list_add elm p listelm h }"

definition list_add_after :: "long \<Rightarrow> long \<Rightarrow> lstore \<Rightarrow> lstore option" where
  "list_add_after listelm elm h = do { n \<leftarrow> list_next listelm h; s_list_add elm listelm n h }"

definition list_add :: "long \<Rightarrow> long \<Rightarrow> lstore \<Rightarrow> lstore option" where
  "list_add listelm elm h = list_add_after listelm elm h"

definition list_del :: "long \<Rightarrow> lstore \<Rightarrow> lstore option" where
  "list_del listelm h = do { p \<leftarrow> list_prev listelm h; n \<leftarrow> list_next listelm h; s_list_del p n h }"

definition list_del_init :: "long \<Rightarrow> lstore \<Rightarrow> lstore option" where
  "list_del_init listelm h = do { h1 \<leftarrow> list_del listelm h; list_init listelm h1 }"

definition list_empty :: "long \<Rightarrow> lstore \<Rightarrow> bool option" where
  "list_empty list h = map_option (\<lambda>n. n = list) (list_next list h)"

section \<open>The two pointer fields\<close>

definition nx :: "lstore \<Rightarrow> long \<Rightarrow> long option" where "nx h p = list_next p h"
definition pv :: "lstore \<Rightarrow> long \<Rightarrow> long option" where "pv h p = list_prev p h"

lemma set_next_spec:
  assumes "p \<in> dom h"
  obtains h' where "set_next p v h = Some h'" "nx h' = (nx h)(p \<mapsto> v)" "pv h' = pv h" "dom h' = dom h"
proof -
  obtain e where e: "h p = Some e" using assms by auto
  show thesis
    by (rule that[of "h(p \<mapsto> e\<lparr>le_next := v\<rparr>)"])
      (use e in \<open>auto simp: set_next_def list_next_def list_prev_def nx_def pv_def fun_eq_iff\<close>)
qed

lemma set_prev_spec:
  assumes "p \<in> dom h"
  obtains h' where "set_prev p v h = Some h'" "pv h' = (pv h)(p \<mapsto> v)" "nx h' = nx h" "dom h' = dom h"
proof -
  obtain e where e: "h p = Some e" using assms by auto
  show thesis
    by (rule that[of "h(p \<mapsto> e\<lparr>le_prev := v\<rparr>)"])
      (use e in \<open>auto simp: set_prev_def list_next_def list_prev_def nx_def pv_def fun_eq_iff\<close>)
qed

lemma s_list_add_spec:
  assumes "elm \<in> dom h" "p \<in> dom h" "n \<in> dom h"
  obtains h' where "s_list_add elm p n h = Some h'" "nx h' = (nx h)(p \<mapsto> elm, elm \<mapsto> n)"
    "pv h' = (pv h)(n \<mapsto> elm, elm \<mapsto> p)" "dom h' = dom h"
proof -
  obtain h1 where 1: "set_prev n elm h = Some h1" "pv h1 = (pv h)(n \<mapsto> elm)" "nx h1 = nx h" "dom h1 = dom h"
    using set_prev_spec[OF assms(3)] .
  obtain h2 where 2: "set_next p elm h1 = Some h2" "nx h2 = (nx h1)(p \<mapsto> elm)" "pv h2 = pv h1" "dom h2 = dom h1"
    using set_next_spec[of p h1] assms(2) 1(4) by auto
  obtain h3 where 3: "set_next elm n h2 = Some h3" "nx h3 = (nx h2)(elm \<mapsto> n)" "pv h3 = pv h2" "dom h3 = dom h2"
    using set_next_spec[of elm h2] assms(1) 1(4) 2(4) by auto
  obtain h4 where 4: "set_prev elm p h3 = Some h4" "pv h4 = (pv h3)(elm \<mapsto> p)" "nx h4 = nx h3" "dom h4 = dom h3"
    using set_prev_spec[of elm h3] assms(1) 1(4) 2(4) 3(4) by auto
  show thesis using that[of h4] 1 2 3 4 by (simp add: s_list_add_def)
qed

lemma s_list_del_spec:
  assumes "p \<in> dom h" "n \<in> dom h"
  obtains h' where "s_list_del p n h = Some h'" "nx h' = (nx h)(p \<mapsto> n)" "pv h' = (pv h)(n \<mapsto> p)" "dom h' = dom h"
proof -
  obtain h1 where 1: "set_next p n h = Some h1" "nx h1 = (nx h)(p \<mapsto> n)" "pv h1 = pv h" "dom h1 = dom h"
    using set_next_spec[OF assms(1)] .
  obtain h2 where 2: "set_prev n p h1 = Some h2" "pv h2 = (pv h1)(n \<mapsto> p)" "nx h2 = nx h1" "dom h2 = dom h1"
    using set_prev_spec[of n h1] assms(2) 1(4) by auto
  show thesis using that[of h2] 1 2 by (simp add: s_list_del_def)
qed

section \<open>Rings\<close>

definition link :: "lstore \<Rightarrow> long \<Rightarrow> long \<Rightarrow> bool" where
  "link h u v \<longleftrightarrow> nx h u = Some v \<and> pv h v = Some u"

definition ring :: "lstore \<Rightarrow> long \<Rightarrow> long list \<Rightarrow> bool" where
  "ring h a xs \<longleftrightarrow> distinct (a # xs) \<and> successively (link h) (a # xs @ [a])"

lemma link_dom: "link h u v \<Longrightarrow> u \<in> dom h \<and> v \<in> dom h"
  by (auto simp: link_def list_next_def list_prev_def nx_def pv_def)

lemma successively_frame:
  assumes "successively (link h) zs"
    and "\<And>u. u \<in> set (butlast zs) \<Longrightarrow> nx h' u = nx h u" "\<And>v. v \<in> set (tl zs) \<Longrightarrow> pv h' v = pv h v"
  shows "successively (link h') zs"
  using assms
proof (induction zs rule: induct_list012)
  case (3 x y zs)
  then have "link h x y" "nx h' x = nx h x" "pv h' y = pv h y" by auto
  moreover have "successively (link h') (y # zs)"
    using 3 by (intro "3.IH"(2)) auto
  ultimately show ?case by (simp add: link_def)
qed auto

lemma successively_split:
  "successively P (xs @ ys) \<Longrightarrow> xs \<noteq> [] \<Longrightarrow> ys \<noteq> [] \<Longrightarrow>
   successively P xs \<and> successively P ys \<and> P (last xs) (hd ys)"
  by (simp add: successively_append_iff)

lemma successively_dom: "successively (link h) zs \<Longrightarrow> 2 \<le> length zs \<Longrightarrow> set zs \<subseteq> dom h"
proof (induction zs rule: induct_list012)
  case (3 x y zs)
  then show ?case by (cases zs) (auto dest: link_dom)
qed auto

lemma ring_dom: "ring h a xs \<Longrightarrow> a \<in> dom h \<and> set xs \<subseteq> dom h"
  unfolding ring_def by (drule conjunct2, drule successively_dom) auto

text \<open>A ring cut between \<open>xs\<close> and \<open>ys\<close>: the two halves and the link across the cut.\<close>

lemma ring_cut:
  "ring h a (xs @ ys) \<longleftrightarrow> distinct (a # xs @ ys) \<and> successively (link h) (a # xs) \<and>
    successively (link h) (ys @ [a]) \<and> link h (last (a # xs)) (hd (ys @ [a]))"
  using successively_append_iff[of "link h" "a # xs" "ys @ [a]"] by (auto simp: ring_def)

lemma ring_insert:
  assumes "ring h a (xs @ ys)" "elm \<in> dom h" "elm \<notin> set (a # xs @ ys)"
  obtains h' where "s_list_add elm (last (a # xs)) (hd (ys @ [a])) h = Some h'" "ring h' a (xs @ elm # ys)" "dom h' = dom h"
proof -
  let ?p = "last (a # xs)" and ?n = "hd (ys @ [a])"
  note r = assms(1)[unfolded ring_cut]
  have pn: "?p \<in> dom h" "?n \<in> dom h" using r link_dom by blast+
  obtain h' where h': "s_list_add elm ?p ?n h = Some h'" "nx h' = (nx h)(?p \<mapsto> elm, elm \<mapsto> ?n)"
    "pv h' = (pv h)(?n \<mapsto> elm, elm \<mapsto> ?p)" "dom h' = dom h"
    using s_list_add_spec[OF assms(2) pn] .
  have p: "?p \<in> set (a # xs)" "?n \<in> set (ys @ [a])" by (auto simp: hd_append)
  have "successively (link h') (a # xs)"
  proof (rule successively_frame[where h = h])
    show "nx h' u = nx h u" if "u \<in> set (butlast (a # xs))" for u
    proof -
      have "u \<noteq> ?p" using that r append_butlast_last_id[of "a # xs"] distinct_append[of "butlast (a # xs)" "[?p]"] by auto
      moreover have "u \<noteq> elm" using in_set_butlastD[OF that] assms(3) by auto
      ultimately show ?thesis by (simp add: h')
    qed
    show "pv h' v = pv h v" if "v \<in> set (tl (a # xs))" for v
      using that r assms(3) p(2) by (auto simp: h')
  qed (use r in simp)
  moreover have "successively (link h') (ys @ [a])"
  proof (rule successively_frame[where h = h])
    show "nx h' u = nx h u" if "u \<in> set (butlast (ys @ [a]))" for u
      using that r assms(3) last_in_set[of xs] by (auto simp: h' disjoint_iff split: if_splits)
    show "pv h' v = pv h v" if "v \<in> set (tl (ys @ [a]))" for v
      using that r assms(3) by (cases ys) (auto simp: h')
  qed (use r in simp)
  moreover have "link h' ?p elm" "link h' elm ?n" using p assms(3) by (auto simp: link_def h' split: if_splits)
  ultimately have "ring h' a (xs @ elm # ys)"
    using r assms(3) unfolding ring_cut[of h' a xs "elm # ys"] by (cases ys) auto
  then show thesis using that h' by blast
qed

lemma ring_remove:
  assumes "ring h a (xs @ elm # ys)"
  obtains h' where "list_del elm h = Some h'" "ring h' a (xs @ ys)" "dom h' = dom h"
proof -
  let ?p = "last (a # xs)" and ?n = "hd (ys @ [a])"
  note r = assms[unfolded ring_cut[of h a xs "elm # ys"]]
  have s: "successively (link h) (elm # ys @ [a])" "link h ?p elm" using r by auto
  then have l: "link h elm ?n" "successively (link h) (ys @ [a])" by (cases ys; simp)+
  have pn: "?p \<in> dom h" "?n \<in> dom h" using s(2) l(1) link_dom by blast+
  obtain h' where h': "s_list_del ?p ?n h = Some h'" "nx h' = (nx h)(?p \<mapsto> ?n)" "pv h' = (pv h)(?n \<mapsto> ?p)" "dom h' = dom h"
    using s_list_del_spec[OF pn] .
  have "list_del elm h = Some h'" using s(2) l(1) h' unfolding link_def list_del_def nx_def pv_def by simp
  moreover have p: "?p \<in> set (a # xs)" "?n \<in> set (ys @ [a])" by (auto simp: hd_append)
  have "successively (link h') (a # xs)"
  proof (rule successively_frame[where h = h])
    show "nx h' u = nx h u" if "u \<in> set (butlast (a # xs))" for u
    proof -
      have "u \<noteq> ?p" using that r append_butlast_last_id[of "a # xs"] distinct_append[of "butlast (a # xs)" "[?p]"] by auto
      then show ?thesis by (simp add: h')
    qed
    show "pv h' v = pv h v" if "v \<in> set (tl (a # xs))" for v
      using that r p(2) by (auto simp: h')
  qed (use r in simp)
  moreover have "successively (link h') (ys @ [a])"
  proof (rule successively_frame[where h = h])
    show "nx h' u = nx h u" if "u \<in> set (butlast (ys @ [a]))" for u
      using that r last_in_set[of xs] by (auto simp: h' disjoint_iff split: if_splits)
    show "pv h' v = pv h v" if "v \<in> set (tl (ys @ [a]))" for v
      using that r by (cases ys) (auto simp: h')
  qed (use l in simp)
  moreover have "link h' ?p ?n" by (simp add: link_def h')
  ultimately show thesis using that[of h'] r h'(4) unfolding ring_cut[of h' a xs ys] by auto
qed

section \<open>The operations on rings\<close>

lemma list_init_ring:
  assumes "a \<in> dom h"
  obtains h' where "list_init a h = Some h'" "ring h' a []" "dom h' = dom h"
proof -
  obtain h1 where 1: "set_next a a h = Some h1" "nx h1 = (nx h)(a \<mapsto> a)" "dom h1 = dom h"
    using set_next_spec[OF assms] by metis
  obtain h2 where 2: "set_prev a a h1 = Some h2" "pv h2 = (pv h1)(a \<mapsto> a)" "nx h2 = nx h1" "dom h2 = dom h1"
    using set_prev_spec[of a h1] assms 1(3) by metis
  show thesis using that[of h2] 1 2 by (simp add: list_init_def ring_def link_def)
qed

lemma ring_hd: "ring h a xs \<Longrightarrow> nx h a = Some (hd (xs @ [a])) \<and> pv h a = Some (last (a # xs))"
  using ring_cut[of h a "[]" xs] ring_cut[of h a xs "[]"] by (auto simp: link_def)

lemma list_add_after_ring:
  assumes "ring h a xs" "elm \<in> dom h" "elm \<notin> set (a # xs)"
  obtains h' where "list_add_after a elm h = Some h'" "ring h' a (elm # xs)" "dom h' = dom h"
  using ring_insert[of h a "[]" xs elm] assms ring_hd[OF assms(1)] by (auto simp: list_add_after_def nx_def)

lemma list_add_before_ring:
  assumes "ring h a xs" "elm \<in> dom h" "elm \<notin> set (a # xs)"
  obtains h' where "list_add_before a elm h = Some h'" "ring h' a (xs @ [elm])" "dom h' = dom h"
  using ring_insert[of h a xs "[]" elm] assms ring_hd[OF assms(1)] by (auto simp: list_add_before_def pv_def)

lemma list_empty_ring: "ring h a xs \<Longrightarrow> list_empty a h = Some (xs = [])"
  using ring_hd[of h a xs] by (cases xs) (auto simp: list_empty_def ring_def nx_def)

lemma ring_frame:
  assumes "ring h a xs" "\<And>u. u \<in> set (a # xs) \<Longrightarrow> h' u = h u"
  shows "ring h' a xs"
proof -
  have "successively (link h') (a # xs @ [a])"
  proof (rule successively_frame[where h = h])
    show "successively (link h) (a # xs @ [a])" using assms(1) by (simp add: ring_def)
    show "nx h' u = nx h u" if "u \<in> set (butlast (a # xs @ [a]))" for u
      using assms(2)[of u] that by (auto simp: nx_def list_next_def butlast_append split: if_splits)
    show "pv h' v = pv h v" if "v \<in> set (tl (a # xs @ [a]))" for v
      using assms(2)[of v] that by (auto simp: pv_def list_prev_def)
  qed
  then show ?thesis using assms(1) by (simp add: ring_def)
qed

lemma list_del_init_ring:
  assumes "list_del elm g = Some g1" "ring g1 a (xs @ ys)" "dom g1 = dom g" "ring g a (xs @ elm # ys)"
  shows "\<exists>h'. list_del_init elm g = Some h' \<and> ring h' a (xs @ ys) \<and> list_empty elm h' = Some True"
proof -
  have e: "elm \<in> dom g1" using ring_dom[OF assms(4)] assms(3) by auto
  then obtain v where v: "g1 elm = Some v" by auto
  let ?h = "g1(elm \<mapsto> v\<lparr>le_next := elm, le_prev := elm\<rparr>)"
  have "list_init elm g1 = Some ?h" using v by (simp add: list_init_def set_next_def set_prev_def)
  moreover have "elm \<notin> set (a # xs @ ys)" using assms(4) by (auto simp: ring_def)
  then have "ring ?h a (xs @ ys)" using assms(2) by (auto intro: ring_frame)
  ultimately show ?thesis using assms(1) by (simp add: list_del_init_def list_empty_def list_next_def)
qed

section \<open>Queues of entries\<close>

text \<open>
  The contract of an intrusive queue: \<open>rep q xs\<close> says that the entries \<open>xs\<close> are queued, in this order,
  and \<open>free q\<close> are the entries that may be queued. A client sees only this.
\<close>

locale entry_queue =
  fixes rep :: "'q \<Rightarrow> 'e list \<Rightarrow> bool" and free_entry :: "'q \<Rightarrow> 'e \<Rightarrow> bool"
    and enq :: "'e \<Rightarrow> 'q \<Rightarrow> 'q option" and deq :: "'q \<Rightarrow> ('e \<times> 'q) option"
  assumes enq_rep: "rep q xs \<Longrightarrow> free_entry q e \<Longrightarrow> e \<notin> set xs \<Longrightarrow>
      \<exists>q'. enq e q = Some q' \<and> rep q' (xs @ [e]) \<and> free_entry q' = free_entry q"
    and deq_rep: "rep q (x # xs) \<Longrightarrow> \<exists>q'. deq q = Some (x, q') \<and> rep q' xs \<and> free_entry q' = free_entry q"
begin

fun enq_all :: "'e list \<Rightarrow> 'q \<Rightarrow> 'q option" where
  "enq_all [] q = Some q"
| "enq_all (e # es) q = Option.bind (enq e q) (enq_all es)"

fun deq_n :: "nat \<Rightarrow> 'q \<Rightarrow> ('e list \<times> 'q) option" where
  "deq_n 0 q = Some ([], q)"
| "deq_n (Suc n) q = Option.bind (deq q) (\<lambda>(x, q'). map_option (\<lambda>(xs, r). (x # xs, r)) (deq_n n q'))"

lemma enq_all_rep:
  "rep q xs \<Longrightarrow> (\<And>e. e \<in> set es \<Longrightarrow> free_entry q e) \<Longrightarrow> distinct (xs @ es) \<Longrightarrow>
   \<exists>q'. enq_all es q = Some q' \<and> rep q' (xs @ es)"
proof (induction es arbitrary: q xs)
  case (Cons e es)
  then obtain q' where q': "enq e q = Some q'" "rep q' (xs @ [e])" "free_entry q' = free_entry q"
    using enq_rep[of q xs e] by auto
  then show ?case using Cons.IH[of q' "xs @ [e]"] Cons.prems by auto
qed auto

lemma deq_n_rep: "rep q (xs @ ys) \<Longrightarrow> \<exists>q'. deq_n (length xs) q = Some (xs, q') \<and> rep q' ys"
proof (induction xs arbitrary: q)
  case (Cons x xs)
  then obtain q' where q': "deq q = Some (x, q')" "rep q' (xs @ ys)" using deq_rep[of q x "xs @ ys"] by auto
  then show ?case using Cons.IH[of q'] by auto
qed auto

lemma fifo:
  assumes "rep q []" "\<And>e. e \<in> set es \<Longrightarrow> free_entry q e" "distinct es"
  shows "\<exists>q' q''. enq_all es q = Some q' \<and> deq_n (length es) q' = Some (es, q'') \<and> rep q'' []"
  using enq_all_rep[of q "[]" es] assms deq_n_rep[of _ es "[]"] by fastforce

end

text \<open>The run queue that a client builds: enter before the head, leave after it.\<close>

definition list_pop :: "long \<Rightarrow> lstore \<Rightarrow> (long \<times> lstore) option" where
  "list_pop a h = do { n \<leftarrow> list_next a h; h' \<leftarrow> list_del n h; Some (n, h') }"

interpretation lq: entry_queue "\<lambda>h. ring h a" "\<lambda>h e. e \<in> dom h \<and> e \<noteq> a" "list_add_before a" "list_pop a" for a
proof
  fix h xs e
  assume "ring h a xs" "e \<in> dom h \<and> e \<noteq> a" "e \<notin> set xs"
  then obtain h' where "list_add_before a e h = Some h'" "ring h' a (xs @ [e])" "dom h' = dom h"
    using list_add_before_ring[of h a xs e] by auto
  then show "\<exists>h'. list_add_before a e h = Some h' \<and> ring h' a (xs @ [e]) \<and>
      (\<lambda>e. e \<in> dom h' \<and> e \<noteq> a) = (\<lambda>e. e \<in> dom h \<and> e \<noteq> a)" by auto
next
  fix h x xs
  assume r: "ring h a (x # xs)"
  then obtain h' where "list_del x h = Some h'" "ring h' a xs" "dom h' = dom h"
    using ring_remove[of h a "[]" x xs] by auto
  then show "\<exists>h'. list_pop a h = Some (x, h') \<and> ring h' a xs \<and>
      (\<lambda>e. e \<in> dom h' \<and> e \<noteq> a) = (\<lambda>e. e \<in> dom h \<and> e \<noteq> a)"
    using ring_hd[OF r] by (auto simp: list_pop_def nx_def)
qed

section \<open>Properties\<close>

text \<open>
  C26: the operations of \<open>list.h\<close> implement lists. On a ring with head \<open>a\<close> and entries \<open>xs\<close>: adding a new
  entry after an entry (or after the head) inserts it behind that entry, adding it before an entry
  inserts it in front, \<open>list_del_init\<close> takes out exactly the entry and leaves it as an empty list of its
  own, and \<open>list_empty\<close> tells whether there are entries.
\<close>

theorem list_refines:
  assumes "ring h a (xs @ ys)" "elm \<in> dom h" "elm \<notin> set (a # xs @ ys)"
  shows "(\<exists>h'. list_add (last (a # xs)) elm h = Some h' \<and> ring h' a (xs @ elm # ys)) \<and>
    (\<exists>h'. list_add_before (hd (ys @ [a])) elm h = Some h' \<and> ring h' a (xs @ elm # ys)) \<and>
    (\<forall>h'. ring h' a (xs @ elm # ys) \<longrightarrow>
      (\<exists>h''. list_del_init elm h' = Some h'' \<and> ring h'' a (xs @ ys) \<and> list_empty elm h'' = Some True)) \<and>
    list_empty a h = Some (xs @ ys = [])"
proof (intro conjI allI impI)
  note r = assms(1)[unfolded ring_cut]
  have l: "nx h (last (a # xs)) = Some (hd (ys @ [a]))" "pv h (hd (ys @ [a])) = Some (last (a # xs))"
    using r by (auto simp: link_def)
  obtain h' where h': "s_list_add elm (last (a # xs)) (hd (ys @ [a])) h = Some h'" "ring h' a (xs @ elm # ys)"
    using ring_insert[OF assms] by metis
  show "\<exists>h'. list_add (last (a # xs)) elm h = Some h' \<and> ring h' a (xs @ elm # ys)"
    using h' l(1) unfolding list_add_def list_add_after_def nx_def by simp
  show "\<exists>h'. list_add_before (hd (ys @ [a])) elm h = Some h' \<and> ring h' a (xs @ elm # ys)"
    using h' l(2) unfolding list_add_before_def pv_def by simp
  show "list_empty a h = Some (xs @ ys = [])" by (rule list_empty_ring[OF assms(1)])
  fix g assume g: "ring g a (xs @ elm # ys)"
  then obtain g1 where g1: "list_del elm g = Some g1" "ring g1 a (xs @ ys)" "dom g1 = dom g"
    using ring_remove by metis
  show "\<exists>h''. list_del_init elm g = Some h'' \<and> ring h'' a (xs @ ys) \<and> list_empty elm h'' = Some True"
    using list_del_init_ring[OF g1 g] .
qed

definition lstore0 :: lstore where
  "lstore0 = (\<lambda>p. if p \<in> {1, 2, 3} then Some \<lparr>le_prev = p, le_next = p\<rparr> else None)"

lemma lstore0_ring: "ring lstore0 1 []"
  by (simp add: ring_def link_def nx_def pv_def list_next_def list_prev_def lstore0_def)

theorem list_refines_witness: "\<exists>h'. list_add 1 2 lstore0 = Some h' \<and> ring h' 1 [2]"
proof -
  have "2 \<in> dom lstore0" by (simp add: lstore0_def dom_def)
  then show ?thesis
    using conjunct1[OF list_refines[of lstore0 1 "[]" "[]" 2]] lstore0_ring by simp
qed

text \<open>
  a queue built from \<open>list_add_before\<close> on the head and \<open>list_del\<close> of the head's successor is
  first-in first-out: distinct entries that enter an empty ring one after the other leave it in the same
  order, and the ring is empty again.
\<close>

theorem list_fifo:
  assumes "ring h a []" "set es \<subseteq> dom h" "a \<notin> set es" "distinct es"
  shows "\<exists>h' h''. entry_queue.enq_all (list_add_before a) es h = Some h' \<and>
    entry_queue.deq_n (list_pop a) (length es) h' = Some (es, h'') \<and> ring h'' a []"
  by (rule lq.fifo) (use assms in auto)

theorem list_fifo_witness:
  "\<exists>h' h''. entry_queue.enq_all (list_add_before 1) [2, 3] lstore0 = Some h' \<and>
    entry_queue.deq_n (list_pop 1) (length [2 :: long, 3]) h' = Some ([2, 3], h'') \<and> ring h'' 1 []"
  by (rule list_fifo[OF lstore0_ring]) (auto simp: lstore0_def)

end
