(* ===== verification/Ucore_Skew.thy ===== *)
theory Ucore_Skew
  imports Prelude "HOL-Library.Monad_Syntax" "HOL-Library.Tree_Multiset"
begin

text \<open>
  The skew heap of \<open>include/skew_heap.h\<close> of the uCore user library, with its parent pointers, in a memory of
  entries as in the list library: \<open>NULL\<close> is 0 and following a pointer to no entry is \<open>None\<close>. The
  comparison function is a parameter; it is called on the addresses of the entries.

  \<open>rep h q p t\<close> says that the entries from \<open>p\<close> form the binary tree \<open>t\<close> of addresses, with every parent
  pointer right and \<open>q\<close> the parent of the root. The operations are shown to refine the functional skew
  heap operations on such trees, those to keep the heap order, and the whole to be a priority queue.
\<close>

section \<open>The code\<close>

record skew_heap_entry =
  sk_parent :: long
  sk_left :: long
  sk_right :: long

type_synonym sstore = "long \<Rightarrow> skew_heap_entry option"
type_synonym compare_f = "long \<Rightarrow> long \<Rightarrow> int"

definition upd_entry :: "long \<Rightarrow> (skew_heap_entry \<Rightarrow> skew_heap_entry) \<Rightarrow> sstore \<Rightarrow> sstore option" where
  "upd_entry p f h = map_option (\<lambda>e. h(p \<mapsto> f e)) (h p)"

definition skew_heap_init :: "long \<Rightarrow> sstore \<Rightarrow> sstore option" where
  "skew_heap_init a h = upd_entry a (\<lambda>e. e\<lparr>sk_left := 0, sk_right := 0, sk_parent := 0\<rparr>) h"

text \<open>\<open>if (l) l->parent = a\<close>\<close>

definition set_parent :: "long \<Rightarrow> long \<Rightarrow> sstore \<Rightarrow> sstore option" where
  "set_parent l a h = (if l \<noteq> 0 then upd_entry l (\<lambda>e. e\<lparr>sk_parent := a\<rparr>) h else Some h)"

partial_function (option) skew_heap_merge ::
  "compare_f \<Rightarrow> long \<Rightarrow> long \<Rightarrow> sstore \<Rightarrow> (long \<times> sstore) option"
where
  "skew_heap_merge cmp a b h =
     (if a = 0 then Some (b, h)
      else if b = 0 then Some (a, h)
      else if cmp a b = - 1 then do {
        e \<leftarrow> h a;
        x \<leftarrow> skew_heap_merge cmp (sk_right e) b h;
        h2 \<leftarrow> upd_entry a (\<lambda>c. c\<lparr>sk_left := fst x, sk_right := sk_left e\<rparr>) (snd x);
        h3 \<leftarrow> set_parent (fst x) a h2;
        Some (a, h3) }
      else do {
        e \<leftarrow> h b;
        x \<leftarrow> skew_heap_merge cmp a (sk_right e) h;
        h2 \<leftarrow> upd_entry b (\<lambda>c. c\<lparr>sk_left := fst x, sk_right := sk_left e\<rparr>) (snd x);
        h3 \<leftarrow> set_parent (fst x) b h2;
        Some (b, h3) })"

definition skew_heap_insert :: "compare_f \<Rightarrow> long \<Rightarrow> long \<Rightarrow> sstore \<Rightarrow> (long \<times> sstore) option" where
  "skew_heap_insert cmp a b h = do { h1 \<leftarrow> skew_heap_init b h; skew_heap_merge cmp a b h1 }"

definition skew_heap_remove :: "compare_f \<Rightarrow> long \<Rightarrow> long \<Rightarrow> sstore \<Rightarrow> (long \<times> sstore) option" where
  "skew_heap_remove cmp a b h = do {
     e \<leftarrow> h b;
     x \<leftarrow> skew_heap_merge cmp (sk_left e) (sk_right e) h;
     h2 \<leftarrow> set_parent (fst x) (sk_parent e) (snd x);
     if sk_parent e \<noteq> 0 then do {
       p \<leftarrow> h2 (sk_parent e);
       h3 \<leftarrow> (if sk_left p = b then upd_entry (sk_parent e) (\<lambda>c. c\<lparr>sk_left := fst x\<rparr>) h2
              else upd_entry (sk_parent e) (\<lambda>c. c\<lparr>sk_right := fst x\<rparr>) h2);
       Some (a, h3) }
     else Some (fst x, h2) }"

section \<open>Functional skew heaps\<close>

fun smerge :: "compare_f \<Rightarrow> long tree \<Rightarrow> long tree \<Rightarrow> long tree" where
  "smerge cmp Leaf t = t"
| "smerge cmp (Node l a r) Leaf = Node l a r"
| "smerge cmp (Node l1 a r1) (Node l2 b r2) =
     (if cmp a b = - 1 then Node (smerge cmp r1 (Node l2 b r2)) a l1
      else Node (smerge cmp (Node l1 a r1) r2) b l2)"

fun sremove :: "compare_f \<Rightarrow> long \<Rightarrow> long tree \<Rightarrow> long tree" where
  "sremove cmp b Leaf = Leaf"
| "sremove cmp b (Node l a r) =
     (if a = b then smerge cmp l r
      else if b \<in> set_tree l then Node (sremove cmp b l) a r
      else Node l a (sremove cmp b r))"

fun sheap :: "(long \<Rightarrow> int) \<Rightarrow> long tree \<Rightarrow> bool" where
  "sheap key Leaf = True"
| "sheap key (Node l a r) = (sheap key l \<and> sheap key r \<and> (\<forall>x \<in> set_tree l \<union> set_tree r. key a \<le> key x))"

lemma mset_smerge: "mset_tree (smerge cmp s t) = mset_tree s + mset_tree t"
  by (induction cmp s t rule: smerge.induct) auto

lemma set_smerge: "set_tree (smerge cmp s t) = set_tree s \<union> set_tree t"
  by (metis mset_smerge set_mset_tree set_mset_union)

definition key_order :: "compare_f \<Rightarrow> (long \<Rightarrow> int) \<Rightarrow> bool" where
  "key_order cmp key \<longleftrightarrow> (\<forall>a b. cmp a b = - 1 \<longleftrightarrow> key a < key b)"

lemma sheap_smerge: "key_order cmp key \<Longrightarrow> sheap key s \<Longrightarrow> sheap key t \<Longrightarrow> sheap key (smerge cmp s t)"
proof (induction cmp s t rule: smerge.induct)
  case (3 cmp l1 a r1 l2 b r2)
  show ?case
  proof (cases "cmp a b = - 1")
    case True
    then have "key a < key b" using "3.prems"(1) by (simp add: key_order_def)
    then have "\<forall>x\<in>set_tree l2 \<union> set_tree r2. key a \<le> key x" using "3.prems"(3) by force
    then show ?thesis using True 3 \<open>key a < key b\<close> by (auto simp: set_smerge)
  next
    case False
    then have "key b \<le> key a" using "3.prems"(1) by (simp add: key_order_def not_less)
    then have "\<forall>x\<in>set_tree l1 \<union> set_tree r1. key b \<le> key x" using "3.prems"(2) by force
    then show ?thesis using False 3 \<open>key b \<le> key a\<close> by (auto simp: set_smerge)
  qed
qed auto

lemma mset_sremove: "b \<in> set_tree t \<Longrightarrow> mset_tree (sremove cmp b t) = mset_tree t - {#b#}"
proof (induction t)
  case (Node l a r)
  consider "a = b" | "a \<noteq> b" "b \<in> set_tree l" | "a \<noteq> b" "b \<notin> set_tree l" "b \<in> set_tree r" using Node.prems by auto
  then show ?case
  proof cases
    case 1
    then show ?thesis by (simp add: mset_smerge)
  next
    case 2
    then obtain L where "mset_tree l = add_mset b L" using multi_member_split[of b "mset_tree l"] by auto
    with 2 Node.IH(1) show ?thesis by simp
  next
    case 3
    then obtain R where "mset_tree r = add_mset b R" using multi_member_split[of b "mset_tree r"] by auto
    with 3 Node.IH(2) show ?thesis by simp
  qed
qed simp

lemma set_sremove: "set_tree (sremove cmp b t) \<subseteq> set_tree t"
  by (induction t) (auto simp: set_smerge)

lemma sheap_sremove: "key_order cmp key \<Longrightarrow> sheap key t \<Longrightarrow> sheap key (sremove cmp b t)"
proof (induction t)
  case (Node l a r)
  then show ?case using sheap_smerge[of cmp key l r] set_sremove[of cmp b l] set_sremove[of cmp b r] by auto
qed simp

section \<open>Trees in memory\<close>

fun rep :: "sstore \<Rightarrow> long \<Rightarrow> long \<Rightarrow> long tree \<Rightarrow> bool" where
  "rep h q p Leaf \<longleftrightarrow> p = 0"
| "rep h q p (Node l a r) \<longleftrightarrow> p = a \<and> a \<noteq> 0 \<and>
     (\<exists>e. h a = Some e \<and> sk_parent e = q \<and> rep h a (sk_left e) l \<and> rep h a (sk_right e) r)"

fun uniq :: "long tree \<Rightarrow> bool" where
  "uniq Leaf = True"
| "uniq (Node l a r) \<longleftrightarrow>
    uniq l \<and> uniq r \<and> a \<notin> set_tree l \<and> a \<notin> set_tree r \<and> set_tree l \<inter> set_tree r = {}"

lemma uniq_smerge: "uniq s \<Longrightarrow> uniq t \<Longrightarrow> set_tree s \<inter> set_tree t = {} \<Longrightarrow> uniq (smerge cmp s t)"
  by (induction cmp s t rule: smerge.induct) (auto simp: set_smerge)

lemma uniq_sremove: "uniq t \<Longrightarrow> uniq (sremove cmp b t)"
proof (induction t)
  case (Node l a r)
  then show ?case
    using uniq_smerge[of l r cmp] set_sremove[of cmp b l] set_sremove[of cmp b r] by auto
qed simp

lemma rep_cong: "(\<And>x. x \<in> set_tree t \<Longrightarrow> h' x = h x) \<Longrightarrow> rep h' q p t = rep h q p t"
  by (induction t arbitrary: q p) auto

lemma rep_upd [simp]: "a \<notin> set_tree t \<Longrightarrow> rep (h(a := v)) q p t = rep h q p t"
  by (rule rep_cong) auto

lemma rep_frame: "rep h q p t \<Longrightarrow> \<forall>x\<in>set_tree t. h' x = h x \<Longrightarrow> rep h' q p t"
  using rep_cong[of t h' h q p] by blast

lemma rep_root: "rep h q p t \<Longrightarrow> p = 0 \<and> t = Leaf \<or> p \<noteq> 0 \<and> p \<in> set_tree t"
  by (cases t) auto

lemma set_parent_rep:
  assumes "rep h q p t" "uniq t"
  obtains h' where "set_parent p a h = Some h'" "rep h' a p t" "\<And>x. x \<noteq> p \<or> p = 0 \<Longrightarrow> h' x = h x" "dom h' = dom h"
proof (cases t)
  case Leaf
  then show thesis using that[of h] assms by (simp add: set_parent_def)
next
  case (Node l b r)
  with assms obtain e where e: "p = b" "b \<noteq> 0" "h b = Some e" "rep h b (sk_left e) l" "rep h b (sk_right e) r" by auto
  let ?h = "h(b \<mapsto> e\<lparr>sk_parent := a\<rparr>)"
  have "rep ?h b (sk_left e) l" "rep ?h b (sk_right e) r"
    using e assms(2) Node by auto
  then show thesis using that[of ?h] e Node by (auto simp: set_parent_def upd_entry_def)
qed

text \<open>The step after the recursive call of \<open>skew_heap_merge\<close>: \<open>a\<close> becomes the root of the merged tree.\<close>

lemma merge_link:
  assumes "h a = Some e" "sk_parent e = q" "a \<noteq> 0" "rep h q' l u" "rep h a (sk_left e) v"
    and "uniq (Node u a v)"
  obtains h2 h3 where "upd_entry a (\<lambda>c. c\<lparr>sk_left := l, sk_right := sk_left e\<rparr>) h = Some h2" "set_parent l a h2 = Some h3"
    "rep h3 q a (Node u a v)" "\<And>x. x \<noteq> a \<Longrightarrow> x \<notin> set_tree u \<Longrightarrow> h3 x = h x" "dom h3 = dom h"
proof -
  let ?e = "e\<lparr>sk_left := l, sk_right := sk_left e\<rparr>" let ?h = "h(a \<mapsto> ?e)"
  have reps: "rep ?h q' l u" "rep ?h a (sk_left e) v"
    using assms by auto
  obtain h3 where h3: "set_parent l a ?h = Some h3" "rep h3 a l u" "\<And>x. x \<noteq> l \<or> l = 0 \<Longrightarrow> h3 x = ?h x" "dom h3 = dom ?h"
    using set_parent_rep[OF reps(1)] assms(6) by auto
  have l: "l = 0 \<or> l \<in> set_tree u" using rep_root[OF assms(4)] by auto
  have "h3 a = Some ?e" using h3(3)[of a] l assms(6) by auto
  moreover have "h3 x = ?h x" if "x \<in> set_tree v" for x
  proof -
    have "x \<noteq> l \<or> l = 0" using l that assms(6) by (auto simp: disjoint_iff)
    then show ?thesis by (rule h3(3))
  qed
  then have "rep h3 a (sk_left e) v" using rep_frame[OF reps(2)] by blast
  ultimately have "rep h3 q a (Node u a v)" using assms(2,3) h3(2) by simp
  moreover have "h3 x = h x" if "x \<noteq> a" "x \<notin> set_tree u" for x using h3(3)[of x] l that by auto
  moreover have "upd_entry a (\<lambda>c. c\<lparr>sk_left := l, sk_right := sk_left e\<rparr>) h = Some ?h" using assms(1) by (simp add: upd_entry_def)
  ultimately show thesis using that[of ?h h3] h3(1,4) assms(1) by auto
qed

lemma skew_heap_merge_rep:
  assumes "rep h q1 a s" "rep h q2 b t" "uniq s" "uniq t" "set_tree s \<inter> set_tree t = {}"
  shows "\<exists>p h' q. skew_heap_merge cmp a b h = Some (p, h') \<and> rep h' q p (smerge cmp s t) \<and> q \<in> {q1, q2} \<and>
    (\<forall>x. x \<notin> set_tree s \<union> set_tree t \<longrightarrow> h' x = h x) \<and> dom h' = dom h"
  using assms
proof (induction cmp s t arbitrary: h q1 q2 a b rule: smerge.induct)
  case (1 cmp t)
  then show ?case by (subst skew_heap_merge.simps) auto
next
  case (2 cmp l c r)
  then show ?case by (subst skew_heap_merge.simps) auto
next
  case (3 cmp l1 c r1 l2 d r2)
  then have ab: "a = c" "b = d" "c \<noteq> 0" "d \<noteq> 0" by auto
  show ?case
  proof (cases "cmp c d = - 1")
    case True
    obtain e where e: "h c = Some e" "sk_parent e = q1" "rep h c (sk_left e) l1" "rep h c (sk_right e) r1" using "3.prems"(1) by auto
    have u1: "uniq r1" and dj: "set_tree r1 \<inter> set_tree (Node l2 d r2) = {}" using "3.prems" by (auto simp: disjoint_iff)
    obtain p h1 q where m: "skew_heap_merge cmp (sk_right e) d h = Some (p, h1)" "rep h1 q p (smerge cmp r1 (Node l2 d r2))"
      "\<forall>x. x \<notin> set_tree r1 \<union> set_tree (Node l2 d r2) \<longrightarrow> h1 x = h x" "dom h1 = dom h"
      using "3.IH"(1)[OF True e(4) "3.prems"(2)[unfolded ab] u1 "3.prems"(4) dj] by auto
    have u: "uniq (Node (smerge cmp r1 (Node l2 d r2)) c l1)"
      using "3.prems" uniq_smerge[of r1 "Node l2 d r2" cmp] by (auto simp: set_smerge)
    have hc: "h1 c = Some e" using m(3) e(1) "3.prems" by auto
    have rl: "rep h1 c (sk_left e) l1" 
      by (rule rep_frame[OF e(3)]) (use m(3) "3.prems" in \<open>auto simp: disjoint_iff\<close>)
    obtain h2 h3 where h23: "upd_entry c (\<lambda>x. x\<lparr>sk_left := p, sk_right := sk_left e\<rparr>) h1 = Some h2"
      "set_parent p c h2 = Some h3" "rep h3 q1 c (Node (smerge cmp r1 (Node l2 d r2)) c l1)"
      "\<And>x. x \<noteq> c \<Longrightarrow> x \<notin> set_tree (smerge cmp r1 (Node l2 d r2)) \<Longrightarrow> h3 x = h1 x" "dom h3 = dom h1"
      by (rule merge_link[OF hc e(2) ab(3) m(2) rl u]) (rule that; assumption)
    have "skew_heap_merge cmp a b h = Some (c, h3)"
      by (subst skew_heap_merge.simps) (simp add: True ab e(1) m(1) h23(1,2))
    moreover have "\<forall>x. x \<notin> set_tree (Node l1 c r1) \<union> set_tree (Node l2 d r2) \<longrightarrow> h3 x = h x"
      using m(3) h23(4) by (simp add: set_smerge)
    ultimately show ?thesis using True h23(3,5) m(4) by (intro exI[of _ c] exI[of _ h3] exI[of _ q1]) simp
  next
    case False
    obtain e where e: "h d = Some e" "sk_parent e = q2" "rep h d (sk_left e) l2" "rep h d (sk_right e) r2" using "3.prems"(2) by auto
    have u1: "uniq r2" and dj: "set_tree (Node l1 c r1) \<inter> set_tree r2 = {}" using "3.prems" by (auto simp: disjoint_iff)
    obtain p h1 q where m: "skew_heap_merge cmp c (sk_right e) h = Some (p, h1)" "rep h1 q p (smerge cmp (Node l1 c r1) r2)"
      "\<forall>x. x \<notin> set_tree (Node l1 c r1) \<union> set_tree r2 \<longrightarrow> h1 x = h x" "dom h1 = dom h"
      using "3.IH"(2)[OF False "3.prems"(1)[unfolded ab] e(4) "3.prems"(3) u1 dj] by auto
    have u: "uniq (Node (smerge cmp (Node l1 c r1) r2) d l2)"
      using "3.prems" uniq_smerge[of "Node l1 c r1" r2 cmp] by (auto simp: set_smerge)
    have hc: "h1 d = Some e" using m(3) e(1) "3.prems" by auto
    have rl: "rep h1 d (sk_left e) l2" 
      by (rule rep_frame[OF e(3)]) (use m(3) "3.prems" in \<open>auto simp: disjoint_iff\<close>)
    obtain h2 h3 where h23: "upd_entry d (\<lambda>x. x\<lparr>sk_left := p, sk_right := sk_left e\<rparr>) h1 = Some h2"
      "set_parent p d h2 = Some h3" "rep h3 q2 d (Node (smerge cmp (Node l1 c r1) r2) d l2)"
      "\<And>x. x \<noteq> d \<Longrightarrow> x \<notin> set_tree (smerge cmp (Node l1 c r1) r2) \<Longrightarrow> h3 x = h1 x" "dom h3 = dom h1"
      by (rule merge_link[OF hc e(2) ab(4) m(2) rl u]) (rule that; assumption)
    have "skew_heap_merge cmp a b h = Some (d, h3)"
      by (subst skew_heap_merge.simps) (simp add: False ab e(1) m(1) h23(1,2))
    moreover have "\<forall>x. x \<notin> set_tree (Node l1 c r1) \<union> set_tree (Node l2 d r2) \<longrightarrow> h3 x = h x"
      using m(3) h23(4) by (simp add: set_smerge)
    ultimately show ?thesis using False h23(3,5) m(4) by (intro exI[of _ d] exI[of _ h3] exI[of _ q2]) simp
  qed
qed

section \<open>Removal\<close>

text \<open>The two children of \<open>b\<close> are merged and hung under \<open>q\<close>.\<close>

lemma merge_children:
  assumes "rep h q b (Node l b r)" "uniq (Node l b r)"
  obtains e p h1 h2 where "h b = Some e" "sk_parent e = q"
    "skew_heap_merge cmp (sk_left e) (sk_right e) h = Some (p, h1)" "set_parent p q h1 = Some h2"
    "rep h2 q p (smerge cmp l r)" "\<And>x. x \<notin> set_tree l \<union> set_tree r \<Longrightarrow> h2 x = h x" "dom h2 = dom h"
proof -
  from assms(1) obtain e where e: "h b = Some e" "sk_parent e = q" "rep h b (sk_left e) l" "rep h b (sk_right e) r" by auto
  have u: "uniq l" "uniq r" "set_tree l \<inter> set_tree r = {}" using assms(2) by auto
  obtain p h1 q' where m: "skew_heap_merge cmp (sk_left e) (sk_right e) h = Some (p, h1)" "rep h1 q' p (smerge cmp l r)"
    "\<forall>x. x \<notin> set_tree l \<union> set_tree r \<longrightarrow> h1 x = h x" "dom h1 = dom h"
    using skew_heap_merge_rep[OF e(3,4) u, of cmp] by blast
  obtain h2 where h2: "set_parent p q h1 = Some h2" "rep h2 q p (smerge cmp l r)" "\<And>x. x \<noteq> p \<or> p = 0 \<Longrightarrow> h2 x = h1 x" "dom h2 = dom h1"
    using set_parent_rep[OF m(2) uniq_smerge[OF u]] by blast
  have "h2 x = h x" if "x \<notin> set_tree l \<union> set_tree r" for x
    using rep_root[OF m(2)] h2(3)[of x] m(3) that by (auto simp: set_smerge)
  then show thesis using that[OF e(1,2) m(1) h2(1,2)] h2(4) m(4) by simp
qed

lemma skew_heap_remove_child:
  assumes "rep h q c (Node l c r)" "uniq (Node l c r)" "h c = Some e" "b \<noteq> 0" "b = sk_left e \<or> b = sk_right e"
  shows "\<exists>h'. skew_heap_remove cmp a b h = Some (a, h') \<and> rep h' q c (sremove cmp b (Node l c r)) \<and>
    (\<forall>x. x \<notin> set_tree (Node l c r) \<longrightarrow> h' x = h x) \<and> dom h' = dom h"
proof (cases "b = sk_left e")
  case True
  then obtain l1 r1 where l: "l = Node l1 b r1" using assms by (cases l) auto
  have rb: "rep h c b (Node l1 b r1)" "uniq (Node l1 b r1)" using assms l True by auto
  obtain eb p h1 h2 where m: "h b = Some eb" "sk_parent eb = c" "skew_heap_merge cmp (sk_left eb) (sk_right eb) h = Some (p, h1)"
    "set_parent p c h1 = Some h2" "rep h2 c p (smerge cmp l1 r1)" "\<And>x. x \<notin> set_tree l1 \<union> set_tree r1 \<Longrightarrow> h2 x = h x" "dom h2 = dom h"
    by (rule merge_children[OF rb, of cmp]) (rule that; assumption)
  have c: "h2 c = Some e" "c \<noteq> 0" "c \<notin> set_tree (smerge cmp l1 r1)" using m(6)[of c] assms l by (auto simp: set_smerge)
  have "rep h c (sk_right e) r" using assms by auto
  then have "rep h2 c (sk_right e) r" by (rule rep_frame) (use m(6) assms(2) l in \<open>auto simp: disjoint_iff\<close>)
  then have "rep (h2(c \<mapsto> e\<lparr>sk_left := p\<rparr>)) q c (sremove cmp b (Node l c r))"
    using m(5) c assms l by (auto simp: set_smerge)
  moreover have "skew_heap_remove cmp a b h = Some (a, h2(c \<mapsto> e\<lparr>sk_left := p\<rparr>))"
    using m(1-4) c True by (simp add: skew_heap_remove_def upd_entry_def)
  ultimately show ?thesis using m(6,7) c l by auto
next
  case False
  then obtain l1 r1 where r: "r = Node l1 b r1" "b = sk_right e" using assms by (cases r) auto
  have rb: "rep h c b (Node l1 b r1)" "uniq (Node l1 b r1)" using assms r by auto
  obtain eb p h1 h2 where m: "h b = Some eb" "sk_parent eb = c" "skew_heap_merge cmp (sk_left eb) (sk_right eb) h = Some (p, h1)"
    "set_parent p c h1 = Some h2" "rep h2 c p (smerge cmp l1 r1)" "\<And>x. x \<notin> set_tree l1 \<union> set_tree r1 \<Longrightarrow> h2 x = h x" "dom h2 = dom h"
    by (rule merge_children[OF rb, of cmp]) (rule that; assumption)
  have c: "h2 c = Some e" "c \<noteq> 0" "c \<notin> set_tree (smerge cmp l1 r1)" using m(6)[of c] assms r by (auto simp: set_smerge)
  have "rep h c (sk_left e) l" using assms by auto
  then have "rep h2 c (sk_left e) l" by (rule rep_frame) (use m(6) assms(2) r in \<open>auto simp: disjoint_iff\<close>)
  then have "rep (h2(c \<mapsto> e\<lparr>sk_right := p\<rparr>)) q c (sremove cmp b (Node l c r))"
    using m(5) c assms r by (auto simp: set_smerge)
  moreover have "skew_heap_remove cmp a b h = Some (a, h2(c \<mapsto> e\<lparr>sk_right := p\<rparr>))"
    using m(1-4) c False by (simp add: skew_heap_remove_def upd_entry_def)
  ultimately show ?thesis using m(6,7) c r by auto
qed

lemma skew_heap_remove_inner:
  assumes "rep h q p t" "uniq t" "b \<in> set_tree t" "b \<noteq> p" "b \<noteq> 0"
  shows "\<exists>h'. skew_heap_remove cmp a b h = Some (a, h') \<and> rep h' q p (sremove cmp b t) \<and>
    (\<forall>x. x \<notin> set_tree t \<longrightarrow> h' x = h x) \<and> dom h' = dom h"
  using assms
proof (induction t arbitrary: q p)
  case (Node l c r)
  then obtain e where e: "p = c" "c \<noteq> 0" "h c = Some e" "sk_parent e = q" "rep h c (sk_left e) l" "rep h c (sk_right e) r" by auto
  consider "b = sk_left e \<or> b = sk_right e" | (left) "b \<noteq> sk_left e" "b \<in> set_tree l" | (right) "b \<noteq> sk_right e" "b \<in> set_tree r"
    using Node.prems e(1) by auto
  then show ?case
  proof cases
    case 1
    then show ?thesis using skew_heap_remove_child[of h q c l r e b cmp a] Node.prems e by auto
  next
    case left
    then obtain h' where h': "skew_heap_remove cmp a b h = Some (a, h')" "rep h' c (sk_left e) (sremove cmp b l)"
      "\<forall>x. x \<notin> set_tree l \<longrightarrow> h' x = h x" "dom h' = dom h"
      using Node.IH(1)[OF e(5)] Node.prems by auto
    have "rep h' c (sk_right e) r" by (rule rep_frame[OF e(6)]) (use h'(3) Node.prems(2) in \<open>auto simp: disjoint_iff\<close>)
    then show ?thesis using h' e left Node.prems by auto
  next
    case right
    then obtain h' where h': "skew_heap_remove cmp a b h = Some (a, h')" "rep h' c (sk_right e) (sremove cmp b r)"
      "\<forall>x. x \<notin> set_tree r \<longrightarrow> h' x = h x" "dom h' = dom h"
      using Node.IH(2)[OF e(6)] Node.prems by auto
    have "rep h' c (sk_left e) l" by (rule rep_frame[OF e(5)]) (use h'(3) Node.prems(2) in \<open>auto simp: disjoint_iff\<close>)
    moreover have "b \<notin> set_tree l" using right Node.prems(2) by (auto simp: disjoint_iff)
    ultimately show ?thesis using h' e right Node.prems by auto
  qed
qed simp

lemma skew_heap_remove_rep:
  assumes "rep h 0 a t" "uniq t" "b \<in> set_tree t" "0 \<notin> set_tree t"
  shows "\<exists>p h'. skew_heap_remove cmp a b h = Some (p, h') \<and> rep h' 0 p (sremove cmp b t) \<and> dom h' = dom h"
proof (cases "b = a")
  case True
  then obtain l r where t: "t = Node l b r" using assms by (cases t) auto
  have rb: "rep h 0 b (Node l b r)" "uniq (Node l b r)" using assms t True by auto
  obtain e p h1 h2 where "h b = Some e" "sk_parent e = 0" "skew_heap_merge cmp (sk_left e) (sk_right e) h = Some (p, h1)"
    "set_parent p 0 h1 = Some h2" "rep h2 0 p (smerge cmp l r)" "dom h2 = dom h"
    by (rule merge_children[OF rb, of cmp]) (rule that; assumption)
  then show ?thesis by (simp add: skew_heap_remove_def t)
next
  case False
  then have "b \<noteq> 0" using assms by auto
  then show ?thesis using skew_heap_remove_inner[OF assms(1-3) False, of cmp a] by auto
qed

section \<open>Priority queues\<close>

text \<open>
  The contract of an intrusive priority queue with removal of any member: \<open>pq q M\<close> says that the
  entries \<open>M\<close> are in the queue \<open>q\<close>, and \<open>spare q e\<close> that \<open>e\<close> may be inserted.
\<close>

locale priority_queue =
  fixes key :: "'e \<Rightarrow> int" and pq :: "'q \<Rightarrow> 'e multiset \<Rightarrow> bool" and spare :: "'q \<Rightarrow> 'e \<Rightarrow> bool"
    and ins :: "'e \<Rightarrow> 'q \<Rightarrow> 'q option" and top_of :: "'q \<Rightarrow> 'e" and del :: "'e \<Rightarrow> 'q \<Rightarrow> 'q option"
  assumes ins_pq: "pq q M \<Longrightarrow> spare q e \<Longrightarrow> e \<notin># M \<Longrightarrow> \<exists>q'. ins e q = Some q' \<and> pq q' (add_mset e M) \<and> spare q' = spare q"
    and top_pq: "pq q M \<Longrightarrow> M \<noteq> {#} \<Longrightarrow> top_of q \<in># M \<and> (\<forall>x\<in>#M. key (top_of q) \<le> key x)"
    and del_pq: "pq q M \<Longrightarrow> e \<in># M \<Longrightarrow> \<exists>q'. del e q = Some q' \<and> pq q' (M - {#e#}) \<and> spare q' = spare q"
begin

fun ins_all :: "'e list \<Rightarrow> 'q \<Rightarrow> 'q option" where
  "ins_all [] q = Some q"
| "ins_all (e # es) q = Option.bind (ins e q) (ins_all es)"

fun drain :: "nat \<Rightarrow> 'q \<Rightarrow> ('e list \<times> 'q) option" where
  "drain 0 q = Some ([], q)"
| "drain (Suc n) q = Option.bind (del (top_of q) q) (\<lambda>q'. map_option (\<lambda>(xs, r). (top_of q # xs, r)) (drain n q'))"

lemma ins_all_pq:
  "pq q M \<Longrightarrow> (\<And>e. e \<in> set es \<Longrightarrow> spare q e \<and> e \<notin># M) \<Longrightarrow> distinct es \<Longrightarrow>
   \<exists>q'. ins_all es q = Some q' \<and> pq q' (M + mset es)"
proof (induction es arbitrary: q M)
  case (Cons e es)
  then obtain q' where q': "ins e q = Some q'" "pq q' (add_mset e M)" "spare q' = spare q"
    using ins_pq[of q M e] by auto
  then have "\<exists>q''. ins_all es q' = Some q'' \<and> pq q'' (add_mset e M + mset es)"
    using Cons.prems by (intro Cons.IH) auto
  then show ?case using q'(1) by simp
qed auto

lemma drain_sorted:
  "pq q M \<Longrightarrow> size M = n \<Longrightarrow> \<exists>xs q'. drain n q = Some (xs, q') \<and> mset xs = M \<and> sorted (map key xs) \<and> pq q' {#}"
proof (induction n arbitrary: q M)
  case (Suc n)
  then have "M \<noteq> {#}" by auto
  then have m: "top_of q \<in># M" "\<forall>x\<in>#M. key (top_of q) \<le> key x" using top_pq Suc.prems by blast+
  obtain q' where q': "del (top_of q) q = Some q'" "pq q' (M - {#top_of q#})" using del_pq[OF Suc.prems(1) m(1)] by blast
  have "size (M - {#top_of q#}) = n" using Suc.prems m(1) by (simp add: size_Diff_singleton)
  then obtain xs r where x: "drain n q' = Some (xs, r)" "mset xs = M - {#top_of q#}" "sorted (map key xs)" "pq r {#}"
    using Suc.IH[OF q'(2)] by blast
  have "\<forall>y\<in>set xs. key (top_of q) \<le> key y"
  proof
    fix y assume "y \<in> set xs"
    then have "y \<in># M - {#top_of q#}" using x(2) by (metis set_mset_mset)
    then show "key (top_of q) \<le> key y" using m(2) in_diffD by metis
  qed
  then show ?case using q'(1) x m(1) by simp
qed auto

lemma heap_sort:
  assumes "pq q {#}" "\<And>e. e \<in> set es \<Longrightarrow> spare q e" "distinct es"
  shows "\<exists>q' xs q''. ins_all es q = Some q' \<and> drain (length es) q' = Some (xs, q'') \<and>
    mset xs = mset es \<and> sorted (map key xs)"
proof -
  obtain q' where q': "ins_all es q = Some q'" "pq q' (mset es)" using ins_all_pq[OF assms(1), of es] assms by auto
  then show ?thesis using drain_sorted[of q' "mset es" "length es"] by auto
qed

end

text \<open>A run queue: the root pointer and the memory of entries.\<close>

definition skew_pq :: "(long \<Rightarrow> int) \<Rightarrow> long \<times> sstore \<Rightarrow> long multiset \<Rightarrow> bool" where
  "skew_pq key q M \<longleftrightarrow> (\<exists>t. rep (snd q) 0 (fst q) t \<and> uniq t \<and> sheap key t \<and> 0 \<notin> set_tree t \<and> mset_tree t = M)"

definition skew_spare :: "long \<times> sstore \<Rightarrow> long \<Rightarrow> bool" where
  "skew_spare q e \<longleftrightarrow> e \<noteq> 0 \<and> e \<in> dom (snd q)"

definition skew_ins :: "compare_f \<Rightarrow> long \<Rightarrow> long \<times> sstore \<Rightarrow> (long \<times> sstore) option" where
  "skew_ins cmp e q = skew_heap_insert cmp (fst q) e (snd q)"

definition skew_del :: "compare_f \<Rightarrow> long \<Rightarrow> long \<times> sstore \<Rightarrow> (long \<times> sstore) option" where
  "skew_del cmp e q = skew_heap_remove cmp (fst q) e (snd q)"

lemma skew_ins_pq:
  assumes "key_order cmp key" "skew_pq key q M" "skew_spare q e" "e \<notin># M"
  shows "\<exists>q'. skew_ins cmp e q = Some q' \<and> skew_pq key q' (add_mset e M) \<and> skew_spare q' = skew_spare q"
proof -
  obtain a h where q: "q = (a, h)" by (cases q)
  obtain t where t: "rep h 0 a t" "uniq t" "sheap key t" "0 \<notin> set_tree t" "mset_tree t = M" using assms(2) by (auto simp: skew_pq_def q)
  obtain x where x: "h e = Some x" "e \<noteq> 0" using assms(3) by (auto simp: skew_spare_def q)
  let ?h = "h(e \<mapsto> x\<lparr>sk_left := 0, sk_right := 0, sk_parent := 0\<rparr>)" and ?s = "Node Leaf e Leaf"
  have e: "e \<notin> set_tree t" using assms(4) t(5) by (metis set_mset_tree)
  have "rep ?h 0 a t" "rep ?h 0 e ?s" using t(1) e x by auto
  then obtain p h' where m: "skew_heap_merge cmp a e ?h = Some (p, h')" "rep h' 0 p (smerge cmp t ?s)" "dom h' = dom ?h"
    using skew_heap_merge_rep[of ?h 0 a t 0 e ?s cmp] t(2) e by auto
  have "sheap key (smerge cmp t ?s)" "uniq (smerge cmp t ?s)" "mset_tree (smerge cmp t ?s) = add_mset e M" "0 \<notin> set_tree (smerge cmp t ?s)"
    using sheap_smerge[OF assms(1) t(3), of ?s] uniq_smerge[OF t(2), of ?s] t x(2) e by (auto simp: mset_smerge set_smerge)
  then have "skew_pq key (p, h') (add_mset e M)" using m(2) by (auto simp: skew_pq_def)
  moreover have "skew_ins cmp e q = Some (p, h')"
    using x m(1) by (simp add: skew_ins_def q skew_heap_insert_def skew_heap_init_def upd_entry_def)
  ultimately show ?thesis using m(3) x by (auto simp: skew_spare_def q fun_eq_iff)
qed

lemma skew_del_pq:
  assumes "key_order cmp key" "skew_pq key q M" "e \<in># M"
  shows "\<exists>q'. skew_del cmp e q = Some q' \<and> skew_pq key q' (M - {#e#}) \<and> skew_spare q' = skew_spare q"
proof -
  obtain a h where q: "q = (a, h)" by (cases q)
  obtain t where t: "rep h 0 a t" "uniq t" "sheap key t" "0 \<notin> set_tree t" "mset_tree t = M" using assms(2) by (auto simp: skew_pq_def q)
  have e: "e \<in> set_tree t" using assms(3) t(5) by (metis set_mset_tree)
  obtain p h' where m: "skew_heap_remove cmp a e h = Some (p, h')" "rep h' 0 p (sremove cmp e t)" "dom h' = dom h"
    using skew_heap_remove_rep[OF t(1,2) e t(4), of cmp] by auto
  have "sheap key (sremove cmp e t)" "uniq (sremove cmp e t)" "mset_tree (sremove cmp e t) = M - {#e#}" "0 \<notin> set_tree (sremove cmp e t)"
    using sheap_sremove[OF assms(1) t(3)] uniq_sremove[OF t(2)] mset_sremove[OF e] set_sremove[of cmp e t] t by auto
  then have "skew_pq key (p, h') (M - {#e#})" using m(2) by (auto simp: skew_pq_def)
  then show ?thesis using m(1,3) by (auto simp: skew_del_def skew_spare_def q fun_eq_iff)
qed

lemma skew_top_pq:
  assumes "skew_pq key q M" "M \<noteq> {#}"
  shows "fst q \<in># M \<and> (\<forall>x\<in>#M. key (fst q) \<le> key x)"
proof -
  obtain t where t: "rep (snd q) 0 (fst q) t" "sheap key t" "mset_tree t = M" using assms(1) by (auto simp: skew_pq_def)
  then obtain l a r where n: "t = Node l a r" using assms(2) by (cases t) auto
  then have "a = fst q" "M = add_mset a (mset_tree l + mset_tree r)" using t by auto
  then show ?thesis using t(2) n by auto
qed

lemma skew_priority_queue:
  "key_order cmp key \<Longrightarrow> priority_queue key (skew_pq key) skew_spare (skew_ins cmp) fst (skew_del cmp)"
  by unfold_locales (blast intro: skew_ins_pq skew_del_pq skew_top_pq dest: skew_top_pq)+

text \<open>The three-way comparison by keys.\<close>

definition key_cmp :: "(long \<Rightarrow> int) \<Rightarrow> compare_f" where
  "key_cmp key a b = (if key a < key b then - 1 else if key a = key b then 0 else 1)"

lemma key_cmp_order: "key_order (key_cmp key) key"
  by (simp add: key_order_def key_cmp_def)

interpretation skew: priority_queue key "skew_pq key" skew_spare "skew_ins (key_cmp key)" fst "skew_del (key_cmp key)" for key
  by (rule skew_priority_queue[OF key_cmp_order])

section \<open>Properties\<close>

text \<open>
  C4: the skew heap is a priority queue in memory. If \<open>cmp\<close> returns -1 exactly for a smaller key, and the
  memory holds a well-formed heap of the entries \<open>M\<close> (tree shape, every parent pointer right, heap order)
  with root \<open>a\<close>, then \<open>skew_heap_insert\<close> of a new entry and \<open>skew_heap_remove\<close> of any member return,
  without a bad access, a well-formed heap of \<open>M\<close> plus, or minus, that entry, and the root of a
  non-empty heap is a member with a smallest key.
\<close>

theorem skew_heap_correct:
  assumes "key_order cmp key" "skew_pq key (a, h) M"
  shows "(b \<noteq> 0 \<and> b \<in> dom h \<and> b \<notin># M \<longrightarrow>
      (\<exists>a' h'. skew_heap_insert cmp a b h = Some (a', h') \<and> skew_pq key (a', h') (add_mset b M))) \<and>
    (b \<in># M \<longrightarrow> (\<exists>a' h'. skew_heap_remove cmp a b h = Some (a', h') \<and> skew_pq key (a', h') (M - {#b#}))) \<and>
    (M \<noteq> {#} \<longrightarrow> a \<in># M \<and> (\<forall>x\<in>#M. key a \<le> key x))"
  using skew_ins_pq[OF assms, of b] skew_del_pq[OF assms, of b] skew_top_pq[OF assms(2)]
  by (auto simp: skew_ins_def skew_del_def skew_spare_def)

definition sstore0 :: sstore where
  "sstore0 = (\<lambda>p. if p \<in> {1, 2, 3} then Some \<lparr>sk_parent = 0, sk_left = 0, sk_right = 0\<rparr> else None)"

lemma sstore0_empty: "skew_pq key (0, sstore0) {#}"
  unfolding skew_pq_def by (rule exI[of _ Leaf]) simp

theorem skew_heap_correct_witness:
  "\<exists>a' h'. skew_heap_insert (key_cmp uint) 0 2 sstore0 = Some (a', h') \<and> skew_pq uint (a', h') {#2#}"
proof -
  have "(2 :: long) \<noteq> 0 \<and> 2 \<in> dom sstore0 \<and> (2 :: long) \<notin># {#}" by (simp add: sstore0_def dom_def)
  then show ?thesis using conjunct1[OF skew_heap_correct[OF key_cmp_order sstore0_empty]] by blast
qed

text \<open>
  sorting with the skew heap. Inserting distinct entries into an empty heap and then removing the root
  as often delivers all of them, in ascending order of their keys.
\<close>

theorem skew_heap_sorts:
  assumes "skew_pq key q {#}" "distinct es" "0 \<notin> set es" "set es \<subseteq> dom (snd q)"
  shows "\<exists>q' xs q''. priority_queue.ins_all (skew_ins (key_cmp key)) es q = Some q' \<and>
    priority_queue.drain fst (skew_del (key_cmp key)) (length es) q' = Some (xs, q'') \<and>
    mset xs = mset es \<and> sorted (map key xs)"
  by (rule skew.heap_sort[OF assms(1)]) (use assms(2-) in \<open>auto simp: skew_spare_def\<close>)

theorem skew_heap_sorts_witness:
  "\<exists>q' xs q''. priority_queue.ins_all (skew_ins (key_cmp uint)) [3, 1, 2] (0, sstore0) = Some q' \<and>
    priority_queue.drain fst (skew_del (key_cmp uint)) (length [3 :: long, 1, 2]) q' = Some (xs, q'') \<and>
    mset xs = mset [3, 1, 2] \<and> sorted (map uint xs)"
  by (rule skew_heap_sorts[OF sstore0_empty]) (auto simp: sstore0_def)

end
