(* ===== verification/Ucore_Misc.thy ===== *)
theory Ucore_Misc
  imports Litc_Lock
begin

unbundle bit_operations_syntax

text \<open>
  Small parts of the uCore user library: the hash function (\<open>lib/hash.c\<close>), the random numbers
  (\<open>lib/rand.c\<close>) and the lock of \<open>lock.h\<close>, which \<open>lib/ulib.c\<close> uses as \<open>fork_lock\<close>.

  The lock is a machine of interleaved threads in the style of the litc locks. \<open>test_and_set_bit\<close> and
  \<open>test_and_clear_bit\<close> are one step each. The x86 code of the two has no \<open>lock\<close> prefix, so there this
  holds for threads of one processor.
\<close>

section \<open>Hashing\<close>

definition GOLDEN_RATIO_PRIME_32 :: long where "GOLDEN_RATIO_PRIME_32 = 0x9e370001"

text \<open>The product is an \<open>unsigned long\<close> cut to 32 bits; a shift by 32 or more is undefined.\<close>

definition hash32 :: "cint \<Rightarrow> cint \<Rightarrow> cint option" where
  "hash32 val bits =
     (let hash = ucast (ucast val * GOLDEN_RATIO_PRIME_32) :: cint; sh = 32 - bits
      in if unat sh < 32 then Some (drop_bit (unat sh) hash) else None)"

section \<open>Random numbers\<close>

definition RAND_MAX :: long where "RAND_MAX = 2147483647"

text \<open>The new value of \<open>next\<close>, and \<open>rand\<close> with \<open>next\<close> as its state; \<open>do_div\<close> leaves the remainder.\<close>

definition rand_next :: "long \<Rightarrow> long" where
  "rand_next nxt = (nxt * 0x5DEECE66D + 0xB) AND (push_bit 48 1 - 1)"

definition rand :: "long \<Rightarrow> cint \<times> long" where
  "rand nxt =
     (let nxt' = rand_next nxt; result = drop_bit 12 nxt'
      in (ucast (result mod (RAND_MAX + 1)), nxt'))"

definition srand :: "cint \<Rightarrow> long" where
  "srand seed = ucast seed"

section \<open>The lock\<close>

text \<open>
  Program points of \<open>lock\<close> and \<open>unlock\<close>: outside, before \<open>try_lock\<close>, before \<open>yield\<close>, before \<open>sleep\<close>, and
  between \<open>lock\<close> and \<open>unlock\<close>; the number is \<open>step\<close>.
\<close>

datatype upc = UOut | UTry nat | UYield nat | USleep | UIn

record ulock =
  lock_word :: cint
  upcs :: "nat \<Rightarrow> upc"

definition ugoto :: "nat \<Rightarrow> upc \<Rightarrow> ulock \<Rightarrow> ulock" where
  "ugoto t p s = s\<lparr>upcs := (upcs s)(t := p)\<rparr>"

text \<open>The operations on the word: the old value of bit 0 and the new word.\<close>

definition test_and_set_bit :: "nat \<Rightarrow> cint \<Rightarrow> bool \<times> cint" where
  "test_and_set_bit nr w = (bit w nr, set_bit nr w)"

definition test_and_clear_bit :: "nat \<Rightarrow> cint \<Rightarrow> bool \<times> cint" where
  "test_and_clear_bit nr w = (bit w nr, unset_bit nr w)"

inductive ulock_step :: "ulock \<Rightarrow> nat \<Rightarrow> ulock \<Rightarrow> bool" where
  lock_call: "upcs s t = UOut \<Longrightarrow> ulock_step s t (ugoto t (UTry 0) s)"
| try_fails: "upcs s t = UTry n \<Longrightarrow> test_and_set_bit 0 (lock_word s) = (True, w) \<Longrightarrow>
    ulock_step s t (ugoto t (UYield n) (s\<lparr>lock_word := w\<rparr>))"
| try_succeeds: "upcs s t = UTry n \<Longrightarrow> test_and_set_bit 0 (lock_word s) = (False, w) \<Longrightarrow>
    ulock_step s t (ugoto t UIn (s\<lparr>lock_word := w\<rparr>))"
| yields: "upcs s t = UYield n \<Longrightarrow> ulock_step s t (ugoto t (if n + 1 = 100 then USleep else UTry (n + 1)) s)"
| sleeps: "upcs s t = USleep \<Longrightarrow> ulock_step s t (ugoto t (UTry 0) s)"
| unlock_call: "upcs s t = UIn \<Longrightarrow> test_and_clear_bit 0 (lock_word s) = (b, w) \<Longrightarrow>
    ulock_step s t (ugoto t UOut (s\<lparr>lock_word := w\<rparr>))"

text \<open>\<open>lock_init\<close>, or the initial value \<open>INIT_LOCK\<close>.\<close>

definition ulock_init :: "ulock \<Rightarrow> bool" where
  "ulock_init s \<longleftrightarrow> lock_word s = 0 \<and> (\<forall>t. upcs s t = UOut)"

inductive_cases ulock_stepE: "ulock_step s t s'"

lemma ugoto_simps [simp]:
  "upcs (ugoto t p s) = (upcs s)(t := p)" "lock_word (ugoto t p s) = lock_word s"
  by (simp_all add: ugoto_def)

interpretation ulock: lock_protocol ulock_init ulock_step "\<lambda>s t. upcs s t = UIn" "\<lambda>s. bit (lock_word s) 0"
  by unfold_locales
    (auto simp: ulock_init_def test_and_set_bit_def test_and_clear_bit_def bit_simps elim!: ulock_stepE split: if_splits)

text \<open>The back-off counter of \<open>lock\<close> stays below 100 at the calls.\<close>

lemma ulock_counter:
  "reach ulock_init ulock_step s \<Longrightarrow> upcs s t = UTry n \<or> upcs s t = UYield n \<Longrightarrow> n < 100"
proof (induction arbitrary: t n rule: reach.induct)
  case (reach_init s)
  then show ?case by (auto simp: ulock_init_def)
next
  case (reach_step s u s')
  from reach_step.hyps(2) show ?case
  proof cases
    case (yields m)
    then have "m < 100" using reach_step.IH by blast
    then show ?thesis using yields reach_step.IH[of t n] reach_step.prems by (auto split: if_splits)
  qed (use reach_step.IH[of t n] reach_step.IH[of u n] reach_step.prems in \<open>auto split: if_splits\<close>)
qed

section \<open>The period of the generator\<close>

text \<open>The geometric sum \<open>1 + a + ... + a^(n-1)\<close>; for \<open>a = 1 mod 4\<close> it has the 2-adic value of \<open>n\<close>.\<close>

fun geo :: "int \<Rightarrow> nat \<Rightarrow> int" where
  "geo a 0 = 0"
| "geo a (Suc n) = geo a n + a ^ n"

lemma geo_add: "geo a (n + m) = geo a n + a ^ n * geo a m"
  by (induction m) (auto simp: algebra_simps power_add)

lemma even_geo: "odd a \<Longrightarrow> even (geo a n) \<longleftrightarrow> even n"
  by (induction n) auto

lemma one_plus_power:
  assumes "a mod 4 = (1 :: int)"
  obtains q where "1 + a ^ n = 2 * q" "odd q"
proof -
  have "a ^ n mod 4 = 1" using power_mod[of a 4 n] assms by simp
  then have "1 + a ^ n = 2 * (1 + 2 * (a ^ n div 4))" by presburger
  then show thesis by (rule that) simp
qed

lemma dvd_geo:
  assumes "a mod 4 = (1 :: int)"
  shows "2 ^ k dvd geo a n \<longleftrightarrow> 2 ^ k dvd n"
proof (induction k arbitrary: n)
  case (Suc k)
  have odd: "odd a" using assms by presburger
  show ?case
  proof (cases "even n")
    case True
    then obtain m where n: "n = 2 * m" by (rule evenE)
    obtain q where q: "1 + a ^ m = 2 * q" "odd q" by (rule one_plus_power[OF assms])
    have "geo a n = geo a m * (1 + a ^ m)" unfolding n mult_2 geo_add by (simp add: algebra_simps)
    then have "geo a n = 2 * (geo a m * q)" using q(1) by simp
    moreover have "coprime (2 ^ k) q" using q(2) by simp
    ultimately show ?thesis using Suc.IH[of m] n by (simp add: coprime_dvd_mult_left_iff)
  next
    case False
    then have "odd (geo a n)" using even_geo[OF odd] by blast
    then have "\<not> 2 ^ Suc k dvd geo a n" using dvd_trans[of 2 "2 ^ Suc k" "geo a n"] by auto
    moreover have "\<not> 2 ^ Suc k dvd n" using False dvd_trans[of 2 "2 ^ Suc k" n] by auto
    ultimately show ?thesis by blast
  qed
qed simp

lemma geo_power: "a ^ n - 1 = (a - 1) * geo a n"
proof (induction n)
  case (Suc n)
  have "(a - 1) * geo a (Suc n) = (a ^ n - 1) + (a - 1) * a ^ n" unfolding Suc by (simp add: distrib_left)
  then show ?case by (simp add: algebra_simps)
qed simp

lemma linear_iter: "((\<lambda>x. a * x + c) ^^ n) x - x = geo a n * ((a - 1) * x + c)"
proof -
  have "((\<lambda>x. a * x + c) ^^ n) x = a ^ n * x + c * geo a n"
  proof (induction n)
    case (Suc n)
    have "a * geo a n + 1 = geo a (Suc n)" using geo_power[of a n] by (simp add: algebra_simps)
    then have "c * geo a (Suc n) = c * (a * geo a n + 1)" by simp
    with Suc show ?case by (simp add: algebra_simps)
  qed simp
  moreover have "a ^ n = 1 + (a - 1) * geo a n" using geo_power[of a n] by simp
  ultimately show ?thesis by (simp add: algebra_simps)
qed

text \<open>The generator on integers.\<close>

abbreviation lcg :: "int \<Rightarrow> int" where
  "lcg \<equiv> \<lambda>x. 0x5DEECE66D * x + 0xB"

lemma uint_rand_next: "uint (rand_next w) = lcg (uint w) mod 2 ^ 48"
proof -
  have m: "(push_bit 48 1 - 1 :: long) = mask 48" by (simp add: mask_eq_exp_minus_1 push_bit_eq_mult)
  have w: "w * 0x5DEECE66D + 0xB = word_of_int (lcg (uint w))" by (simp add: mult.commute)
  have "uint (rand_next w) = take_bit 48 (uint (w * 0x5DEECE66D + 0xB))"
    unfolding rand_next_def m by (simp flip: take_bit_eq_mask add: unsigned_take_bit_eq)
  also have "\<dots> = take_bit 48 (take_bit 64 (lcg (uint w)))"
    unfolding w by (simp only: uint_word_of_int_eq) simp
  also have "\<dots> = take_bit 48 (lcg (uint w))" by (simp only: take_bit_take_bit)
  finally show ?thesis by (simp only: take_bit_eq_mod)
qed

lemma linear_mod: "(a * (y mod m) + c) mod m = (a * y + c) mod (m :: int)"
  using mod_add_left_eq[of "a * (y mod m)" m c] mod_add_left_eq[of "a * y" m c] by (simp only: mod_mult_right_eq)

lemma uint_rand_iter: "uint w < 2 ^ 48 \<Longrightarrow> uint ((rand_next ^^ n) w) = (lcg ^^ n) (uint w) mod 2 ^ 48"
proof (induction n)
  case (Suc n)
  then have "uint ((rand_next ^^ Suc n) w) = lcg ((lcg ^^ n) (uint w) mod 2 ^ 48) mod 2 ^ 48"
    by (simp only: funpow.simps o_apply uint_rand_next)
  also have "\<dots> = lcg ((lcg ^^ n) (uint w)) mod 2 ^ 48" by (rule linear_mod)
  finally show ?case by simp
qed simp

lemma rand_period:
  assumes "uint w < 2 ^ 48"
  shows "(rand_next ^^ n) w = w \<longleftrightarrow> 2 ^ 48 dvd n"
proof -
  let ?x = "uint w"
  have "(rand_next ^^ n) w = w \<longleftrightarrow> uint ((rand_next ^^ n) w) = ?x" by (simp only: word_uint_eq_iff)
  also have "\<dots> \<longleftrightarrow> (lcg ^^ n) ?x mod 2 ^ 48 = ?x mod 2 ^ 48" using uint_rand_iter[OF assms] assms by simp
  also have "\<dots> \<longleftrightarrow> 2 ^ 48 dvd geo 0x5DEECE66D n * ((0x5DEECE66D - 1) * ?x + 0xB)"
    by (simp only: mod_eq_dvd_iff linear_iter)
  also have "\<dots> \<longleftrightarrow> 2 ^ 48 dvd geo 0x5DEECE66D n"
    by (rule coprime_dvd_mult_left_iff) (simp only: coprime_power_left_iff coprime_left_2_iff_odd, simp)
  also have "\<dots> \<longleftrightarrow> (2 :: nat) ^ 48 dvd n" by (rule dvd_geo) simp
  finally show ?thesis .
qed

section \<open>Hash buckets\<close>

lemma golden_inverse: "0x61c90001 * 0x9e370001 = (1 :: cint)" "0x9e370001 * 0x61c90001 = (1 :: cint)"
  by simp_all

definition golden :: "cint \<Rightarrow> cint" where
  "golden v = v * 0x9e370001"

lemma bij_golden: "bij golden"
proof (rule o_bij[of "\<lambda>v. v * 0x61c90001"])
  show "(\<lambda>v. v * 0x61c90001) \<circ> golden = id"
    by (rule ext) (simp only: o_apply golden_def mult.assoc golden_inverse mult_1_right id_apply)
  show "golden \<circ> (\<lambda>v. v * 0x61c90001) = id"
    by (rule ext) (simp only: o_apply golden_def mult.assoc golden_inverse mult_1_right id_apply)
qed

lemma ucast_mult_down: "ucast (ucast (v :: cint) * c :: long) = v * ucast c"
proof -
  have "uint (ucast v :: long) = uint v" by (rule uint_up_ucast) (simp add: is_up)
  moreover have "uint (ucast (x :: long) :: cint) = uint x mod 2 ^ 32" for x
    by (simp add: unsigned_ucast_eq take_bit_eq_mod)
  ultimately show ?thesis
    by (simp only: word_uint_eq_iff uint_word_ariths) (simp add: mod_mod_cancel mod_mult_right_eq)
qed

lemma hash32_golden:
  assumes "1 \<le> bits" "bits \<le> 32"
  shows "hash32 v (of_nat bits) = Some (drop_bit (32 - bits) (golden v))"
proof -
  have "ucast (ucast v * GOLDEN_RATIO_PRIME_32) = golden v"
    unfolding golden_def GOLDEN_RATIO_PRIME_32_def by (rule bit_word_eqI) (simp add: ucast_mult_down)
  moreover have "unat (32 - of_nat bits :: cint) = 32 - bits"
    using assms by (simp add: unat_sub word_le_nat_alt unat_of_nat)
  ultimately show ?thesis using assms by (simp add: hash32_def)
qed

lemma div_interval: "{n :: nat. n div 2 ^ k = q} = {q * 2 ^ k ..< q * 2 ^ k + 2 ^ k}"
proof (intro set_eqI iffI)
  fix n :: nat assume "n \<in> {n. n div 2 ^ k = q}"
  then have "n = q * 2 ^ k + n mod 2 ^ k" using div_mult_mod_eq[of n "2 ^ k"] by simp
  moreover have "n mod 2 ^ k < 2 ^ k" by simp
  ultimately show "n \<in> {q * 2 ^ k ..< q * 2 ^ k + 2 ^ k}" by (simp only: atLeastLessThan_iff) linarith
next
  fix n :: nat assume "n \<in> {q * 2 ^ k ..< q * 2 ^ k + 2 ^ k}"
  then show "n \<in> {n. n div 2 ^ k = q}" by (simp add: div_nat_eqI algebra_simps)
qed

lemma card_drop_bit:
  assumes "k \<le> 32" "unat h < 2 ^ (32 - k)"
  shows "card {x :: cint. drop_bit k x = h} = 2 ^ k"
proof -
  have "bij_betw unat {x :: cint. drop_bit k x = h} {n. n div 2 ^ k = unat h}"
  proof (rule bij_betw_imageI)
    show "inj_on unat {x :: cint. drop_bit k x = h}" by (simp add: inj_on_def word_unat_eq_iff)
    show "unat ` {x :: cint. drop_bit k x = h} = {n. n div 2 ^ k = unat h}"
    proof (intro set_eqI iffI)
      fix n assume "n \<in> {n. n div 2 ^ k = unat h}"
      then have e: "n div 2 ^ k = unat h" by simp
      then have "n div 2 ^ k < 2 ^ (32 - k)" using assms(2) by simp
      then have "n < 2 ^ (32 - k) * 2 ^ k" by (simp add: div_less_iff_less_mult)
      then have "n < 2 ^ 32" using assms(1) by (simp flip: power_add)
      then have "unat (of_nat n :: cint) = n" by (simp add: unat_of_nat)
      moreover from this have "unat (drop_bit k (of_nat n :: cint)) = unat h"
        using e unfolding unat_drop_bit_eq by (simp add: drop_bit_eq_div)
      ultimately show "n \<in> unat ` {x :: cint. drop_bit k x = h}"
        by (intro image_eqI[of _ _ "of_nat n"]) (simp_all only: word_unat_eq_iff mem_Collect_eq)
    qed (auto simp: unat_drop_bit_eq simp flip: drop_bit_eq_div)
  qed
  then have "card {x :: cint. drop_bit k x = h} = card {n. n div 2 ^ k = unat h}" by (rule bij_betw_same_card)
  also have "{n. n div 2 ^ k = unat h} = {unat h * 2 ^ k ..< unat h * 2 ^ k + 2 ^ k}"
    by (rule div_interval)
  finally show ?thesis by simp
qed

section \<open>Properties\<close>

text \<open>
  C25: the random number generator. From every seed, the internal state comes back to where it was after
  \<open>2^48\<close> calls of \<open>rand\<close> and never earlier (only at multiples of this number), and every number
  returned lies between 0 and \<open>RAND_MAX\<close>.
\<close>

theorem rand_full_period:
  "(((\<lambda>s. snd (rand s)) ^^ n) (srand seed) = srand seed \<longleftrightarrow> 2 ^ 48 dvd n) \<and>
   0 \<le> sint (fst (rand s)) \<and> sint (fst (rand s)) \<le> sint RAND_MAX"
proof -
  have "(\<lambda>s. snd (rand s)) = rand_next" by (simp add: rand_def Let_def fun_eq_iff)
  moreover have "uint (srand seed) < 2 ^ 48"
    using uint_lt2p[of seed] uint_up_ucast[of seed, where 'b = 64] by (simp add: srand_def is_up)
  ultimately have period: "((\<lambda>s. snd (rand s)) ^^ n) (srand seed) = srand seed \<longleftrightarrow> 2 ^ 48 dvd n"
    using rand_period by simp
  define r where "r = drop_bit 12 (rand_next s) mod (RAND_MAX + 1)"
  have "uint r < 2 ^ 31" by (simp add: r_def RAND_MAX_def uint_mod_distrib)
  moreover from this have "int (unat r) < int (2 ^ 31)" by (simp only: uint_nat of_nat_power of_nat_numeral)
  then have "unat r < 2 ^ 31" by (simp only: of_nat_less_iff)
  then have "sint (ucast r :: cint) = uint r" by (rule sint_ucast_small)
  moreover have "fst (rand s) = ucast r" by (simp add: rand_def Let_def r_def)
  ultimately show ?thesis using period by (simp add: RAND_MAX_def)
qed

text \<open>
  C32: the hash function. For 1 to 32 bits the hash is defined and below \<open>2^bits\<close>, and the buckets are
  perfectly balanced: every bucket is the hash of exactly \<open>2^(32 - bits)\<close> of the 32-bit values.
\<close>

theorem hash32_balanced:
  assumes "1 \<le> bits" "bits \<le> 32"
  shows "(\<exists>h. hash32 v (of_nat bits) = Some h \<and> unat h < 2 ^ bits) \<and>
    (unat h < 2 ^ bits \<longrightarrow> card {v. hash32 v (of_nat bits) = Some h} = 2 ^ (32 - bits))"
proof (intro conjI impI)
  have "unat (drop_bit (32 - bits) (golden v)) < 2 ^ bits"
  proof -
    have "unat (golden v) < 2 ^ bits * 2 ^ (32 - bits)"
      using unsigned_less[of "golden v"] assms by (simp flip: power_add)
    then show ?thesis by (simp add: unat_drop_bit_eq drop_bit_nat_def div_less_iff_less_mult)
  qed
  then show "\<exists>h. hash32 v (of_nat bits) = Some h \<and> unat h < 2 ^ bits" using hash32_golden[OF assms] by simp
next
  assume h: "unat h < 2 ^ bits"
  have "{v. hash32 v (of_nat bits) = Some h} = golden -` {x. drop_bit (32 - bits) x = h}"
    using hash32_golden[OF assms] by auto
  then have "card {v. hash32 v (of_nat bits) = Some h} = card {x :: cint. drop_bit (32 - bits) x = h}"
    using card_vimage_inj[OF bij_is_inj[OF bij_golden]] bij_is_surj[OF bij_golden] by (simp only: subset_UNIV)
  then show "card {v. hash32 v (of_nat bits) = Some h} = 2 ^ (32 - bits)"
    using card_drop_bit[of "32 - bits" h] h assms by simp
qed

theorem hash32_balanced_witness: "card {v. hash32 v (of_nat 10) = Some 3} = 2 ^ (32 - 10)"
  using hash32_balanced[of 10 0 3] by simp

text \<open>
  the lock of \<open>lock.h\<close>. At most one thread is between \<open>lock\<close> and \<open>unlock\<close>, bit 0 of the word is set
  exactly if one is, and the back-off counter never reaches 100 at an attempt.
\<close>

theorem ulock_exclusion:
  assumes "reach ulock_init ulock_step s"
  shows "(bit (lock_word s) 0 \<longleftrightarrow> (\<exists>t. upcs s t = UIn)) \<and> (\<forall>t u. upcs s t = UIn \<longrightarrow> upcs s u = UIn \<longrightarrow> t = u) \<and>
    (upcs s t = UTry n \<longrightarrow> n < 100)"
  using ulock.held_iff[OF assms] ulock_counter[OF assms, of t n] by blast

definition ulock0 :: "upc \<Rightarrow> cint \<Rightarrow> ulock" where
  "ulock0 p w = \<lparr>lock_word = w, upcs = (\<lambda>_. UOut)(7 := p)\<rparr>"

lemma reach_ulock0: "reach ulock_init ulock_step (ulock0 UIn 1)"
proof -
  have g: "ugoto 7 q (ulock0 p w) = ulock0 q w" "(ulock0 p w)\<lparr>lock_word := v\<rparr> = ulock0 p v"
    "upcs (ulock0 p w) 7 = p" "lock_word (ulock0 p w) = w" for p q w v
    by (simp_all add: ugoto_def ulock0_def)
  have "reach ulock_init ulock_step (ulock0 UOut 0)" by (rule reach_init) (simp add: ulock_init_def ulock0_def)
  from reach_step[OF this lock_call[of _ 7]] have "reach ulock_init ulock_step (ulock0 (UTry 0) 0)" by (simp add: g)
  moreover have "test_and_set_bit 0 (lock_word (ulock0 (UTry 0) 0)) = (False, 1)"
    by (simp add: g test_and_set_bit_def set_bit_eq_or)
  then have "ulock_step (ulock0 (UTry 0) 0) 7 (ulock0 UIn 1)"
    using try_succeeds[of "ulock0 (UTry 0) 0" 7 0 1] by (simp add: g)
  ultimately show ?thesis by (rule reach_step)
qed

theorem ulock_exclusion_witness: "\<exists>t. upcs (ulock0 UIn 1) t = UIn"
  using conjunct1[OF ulock_exclusion[OF reach_ulock0]] by (simp add: ulock0_def)

end
