(* ===== verification/Ucore_String.thy ===== *)
theory Ucore_String
  imports Litc_Mem Litc_Str "HOL-Library.Monad_Syntax"
begin

text \<open>
  The string library of the uCore user programs (\<open>lib/string.c\<close>), with the conventions of the litc string
  theory. The portable bodies are modelled: no architecture directory defines one of the
  \<open>__HAVE_ARCH\<close> macros. The block functions reuse the copy and fill loops with an element size of one
  byte. The lemmas relate the routines to the litc twins: the block functions are equivalent, string
  comparison agrees on 7-bit strings, and the number parsers agree on decimal numbers.
\<close>

section \<open>The code\<close>

fun u_strlen :: "byte list \<Rightarrow> nat option" where
  "u_strlen [] = None"
| "u_strlen (c # s) = (if c \<noteq> 0 then map_option Suc (u_strlen s) else Some 0)"

fun u_strnlen :: "byte list \<Rightarrow> long \<Rightarrow> nat option" where
  "u_strnlen [] len = (if len = 0 then Some 0 else None)"
| "u_strnlen (c # s) len =
     (if len = 0 then Some 0 else if c \<noteq> 0 then map_option Suc (u_strnlen s (len - 1)) else Some 0)"

text \<open>\<open>while ((*p++ = *src++) != 0);\<close>\<close>

function strcpy_loop :: "mem \<Rightarrow> nat \<Rightarrow> nat \<Rightarrow> mem option" where
  "strcpy_loop m p src =
     (if src < length m then
        (case storen m p [m ! src] of
           None \<Rightarrow> None
         | Some m' \<Rightarrow> if m ! src \<noteq> 0 then strcpy_loop m' (p + 1) (src + 1) else Some m')
      else None)"
  by pat_completeness auto
termination
  by (relation "measure (\<lambda>(m, p, src). length m - src)") (auto simp: storen_length)

declare strcpy_loop.simps [simp del]

definition u_strcpy :: "mem \<Rightarrow> nat \<Rightarrow> nat \<Rightarrow> (nat \<times> mem) option" where
  "u_strcpy m dst src = map_option (\<lambda>m'. (dst, m')) (strcpy_loop m dst src)"

definition u_strcat :: "mem \<Rightarrow> nat \<Rightarrow> nat \<Rightarrow> (nat \<times> mem) option" where
  "u_strcat m dst src = do { n \<leftarrow> u_strlen (drop dst m); u_strcpy m (dst + n) src }"

fun strncpy_loop :: "mem \<Rightarrow> nat \<Rightarrow> nat \<Rightarrow> nat \<Rightarrow> mem option" where
  "strncpy_loop m p src 0 = Some m"
| "strncpy_loop m p src (Suc len) =
     (if src < length m then
        (case storen m p [m ! src] of
           None \<Rightarrow> None
         | Some m' \<Rightarrow> strncpy_loop m' (p + 1) (if m ! src \<noteq> 0 then src + 1 else src) len)
      else None)"

definition u_strncpy :: "mem \<Rightarrow> nat \<Rightarrow> nat \<Rightarrow> nat \<Rightarrow> (nat \<times> mem) option" where
  "u_strncpy m dst src len = map_option (\<lambda>m'. (dst, m')) (strncpy_loop m dst src len)"

fun u_strcmp :: "byte list \<Rightarrow> byte list \<Rightarrow> int option" where
  "u_strcmp (a # s1) (b # s2) = (if a \<noteq> 0 \<and> a = b then u_strcmp s1 s2 else Some (uint a - uint b))"
| "u_strcmp _ _ = None"

fun u_strncmp :: "byte list \<Rightarrow> byte list \<Rightarrow> nat \<Rightarrow> int option" where
  "u_strncmp s1 s2 0 = Some 0"
| "u_strncmp (a # s1) (b # s2) (Suc n) =
     (if a \<noteq> 0 \<and> a = b then u_strncmp s1 s2 n else Some (uint a - uint b))"
| "u_strncmp _ _ (Suc n) = None"

fun u_strchr :: "byte list \<Rightarrow> byte \<Rightarrow> byte list option option" where
  "u_strchr [] c = None"
| "u_strchr (x # s) c = (if x = 0 then Some None else if x = c then Some (Some (x # s)) else u_strchr s c)"

fun u_strfind :: "byte list \<Rightarrow> byte \<Rightarrow> byte list option" where
  "u_strfind [] c = None"
| "u_strfind (x # s) c = (if x = 0 \<or> x = c then Some (x # s) else u_strfind s c)"

text \<open>The digit of \<open>strtol\<close>; the comparisons with letters and digits do not depend on the sign of \<open>char\<close>.\<close>

definition u_digit :: "byte \<Rightarrow> int option" where
  "u_digit c =
     (if 48 \<le> uint c \<and> uint c \<le> 57 then Some (uint c - 48)
      else if 97 \<le> uint c \<and> uint c \<le> 122 then Some (uint c - 97 + 10)
      else if 65 \<le> uint c \<and> uint c \<le> 90 then Some (uint c - 65 + 10)
      else None)"

fun u_strtol_digits :: "int \<Rightarrow> byte list \<Rightarrow> long \<Rightarrow> (long \<times> byte list) option" where
  "u_strtol_digits base [] val = None"
| "u_strtol_digits base (c # s) val =
     (case u_digit c of
        None \<Rightarrow> Some (val, c # s)
      | Some dig \<Rightarrow>
          if dig \<ge> base then Some (val, c # s)
          else u_strtol_digits base s (val * word_of_int base + word_of_int dig))"

fun u_skip_blank :: "byte list \<Rightarrow> byte list option" where
  "u_skip_blank [] = None"
| "u_skip_blank (c # s) = (if c = 32 \<or> c = 9 then u_skip_blank s else Some (c # s))"

text \<open>The prefix test; \<open>s[1]\<close> is read only if \<open>s[0]\<close> is \<open>'0'\<close>.\<close>

definition u_strtol_prefix :: "int \<Rightarrow> byte list \<Rightarrow> (int \<times> byte list) option" where
  "u_strtol_prefix base s =
     (case s of
        [] \<Rightarrow> if base = 0 \<or> base = 16 then None else Some (base, s)
      | c # s' \<Rightarrow>
          (if (base = 0 \<or> base = 16) \<and> c = 48 then
             (case s' of
                [] \<Rightarrow> None
              | d # s'' \<Rightarrow> if d = 120 then Some (16, s'') else if base = 0 then Some (8, s') else Some (base, s))
           else if base = 0 then Some (10, s)
           else Some (base, s)))"

text \<open>The value and what is stored through \<open>endptr\<close> if it is not null.\<close>

definition u_strtol :: "byte list \<Rightarrow> int \<Rightarrow> (long \<times> byte list) option" where
  "u_strtol str base = do {
     s0 \<leftarrow> u_skip_blank str;
     sg \<leftarrow> strtol_sign s0;
     pre \<leftarrow> u_strtol_prefix base (snd sg);
     r \<leftarrow> u_strtol_digits (fst pre) (snd pre) 0;
     Some (fst r * fst sg, snd r) }"

definition u_memset :: "mem \<Rightarrow> nat \<Rightarrow> byte \<Rightarrow> nat \<Rightarrow> (nat \<times> mem) option" where
  "u_memset m s c n = map_option (\<lambda>(m', p, k). (s, m')) (fill_loop [c] m s n)"

definition u_memmove :: "mem \<Rightarrow> nat \<Rightarrow> nat \<Rightarrow> nat \<Rightarrow> (nat \<times> mem) option" where
  "u_memmove m dst src n =
     (if src < dst \<and> src + n > dst then map_option (\<lambda>(m', d, s, k). (dst, m')) (copy_bwd 1 m (dst + n) (src + n) n)
      else map_option (\<lambda>(m', d, s, k). (dst, m')) (copy_fwd 1 m dst src n))"

definition u_memcpy :: "mem \<Rightarrow> nat \<Rightarrow> nat \<Rightarrow> nat \<Rightarrow> (nat \<times> mem) option" where
  "u_memcpy m dst src n = map_option (\<lambda>(m', d, s, k). (dst, m')) (copy_fwd 1 m dst src n)"

fun u_memcmp :: "mem \<Rightarrow> nat \<Rightarrow> nat \<Rightarrow> nat \<Rightarrow> int option" where
  "u_memcmp m v1 v2 0 = Some 0"
| "u_memcmp m v1 v2 (Suc n) =
     (if v1 < length m \<and> v2 < length m then
        (if m ! v1 \<noteq> m ! v2 then Some (uint (m ! v1) - uint (m ! v2)) else u_memcmp m (v1 + 1) (v2 + 1) n)
      else None)"

section \<open>Block functions\<close>

lemma u_memmove_blit:
  assumes "src + n \<le> length m" "dst + n \<le> length m"
  shows "u_memmove m dst src n = Some (dst, blit m dst src n)"
proof (cases "src < dst \<and> src + n > dst")
  case True
  then show ?thesis using copy_bwd_blit[of 1 src n m dst] assms by (simp add: u_memmove_def)
next
  case False
  then show ?thesis using copy_fwd_blit[of 1 src n m dst] assms by (auto simp: u_memmove_def)
qed

lemma u_memset_fill: "s + n \<le> length m \<Longrightarrow> u_memset m s c n = Some (s, fill m s n c)"
  using fill_loop_fill[of 1 s n m c] by (simp add: u_memset_def)

lemma u_memcpy_blit:
  "src + n \<le> length m \<Longrightarrow> dst + n \<le> length m \<Longrightarrow> dst \<le> src \<or> src + n \<le> dst \<Longrightarrow>
   u_memcpy m dst src n = Some (dst, blit m dst src n)"
  using copy_fwd_blit[of 1 src n m dst] by (simp add: u_memcpy_def)

text \<open>The byte-wise reference with unsigned differences.\<close>

fun ucmp_bytes :: "byte list \<Rightarrow> byte list \<Rightarrow> int" where
  "ucmp_bytes (x # xs) (y # ys) = (if x = y then ucmp_bytes xs ys else uint x - uint y)"
| "ucmp_bytes _ _ = 0"

lemma ucmp_bytes_lex:
  "length xs = length ys \<Longrightarrow>
   (ucmp_bytes xs ys = 0 \<longleftrightarrow> xs = ys) \<and> (ucmp_bytes xs ys < 0 \<longleftrightarrow> (xs, ys) \<in> lex {(x, y). x < y})"
  by (induction xs ys rule: list_induct2) (auto simp: word_less_def dest: unsigned_word_eqI)

lemma u_memcmp_bytes:
  "v1 + n \<le> length m \<Longrightarrow> v2 + n \<le> length m \<Longrightarrow>
   u_memcmp m v1 v2 n = Some (ucmp_bytes (take n (drop v1 m)) (take n (drop v2 m)))"
proof (induction n arbitrary: v1 v2)
  case (Suc n)
  then have "drop v1 m = m ! v1 # drop (v1 + 1) m" "drop v2 m = m ! v2 # drop (v2 + 1) m"
    by (simp_all add: Cons_nth_drop_Suc)
  then show ?case using Suc by simp
qed simp

section \<open>Strings\<close>

lemma u_strlen_strlen: "u_strlen p = strlen p"
  by (induction p) auto

lemma u_strnlen_spec: "cstr p s \<Longrightarrow> u_strnlen p len = Some (min (unat len) (length s))"
proof (induction p len arbitrary: s rule: u_strnlen.induct)
  case (2 c p len)
  have "len \<noteq> 0 \<Longrightarrow> unat len = Suc (unat (len - 1))" by (simp add: unat_minus_one unat_gt_0)
  then show ?case using 2 by (cases s) auto
qed auto

lemma storen_blit1: "src < length m \<Longrightarrow> p < length m \<Longrightarrow> storen m p [m ! src] = Some (blit m p src 1)"
  by (simp add: storen_def blit_def take_Suc_conv_app_nth[of 0, simplified] hd_drop_conv_nth take_Suc)

lemma strcpy_loop_blit:
  assumes "src + n < length m" "p + n < length m" "\<forall>i<n. m ! (src + i) \<noteq> 0" "m ! (src + n) = 0" "p \<le> src \<or> src + n < p"
  shows "strcpy_loop m p src = Some (blit m p src (n + 1))"
  using assms
proof (induction n arbitrary: m p src)
  case 0
  then show ?case using storen_blit1[of src m p] by (simp add: strcpy_loop.simps[of m p src])
next
  case (Suc n)
  let ?m = "blit m p src 1"
  have len: "length ?m = length m" using Suc.prems by simp
  have same: "?m ! (src + 1 + i) = m ! (src + 1 + i)" if "i \<le> n" for i
    using that Suc.prems by (subst nth_blit) auto
  have nz: "m ! (src + 1 + i) \<noteq> 0" if "i < n" for i using Suc.prems(3)[rule_format, of "Suc i"] that by simp
  have "strcpy_loop ?m (p + 1) (src + 1) = Some (blit ?m (p + 1) (src + 1) (n + 1))"
  proof (rule Suc.IH)
    show "\<forall>i<n. ?m ! (src + 1 + i) \<noteq> 0" using same nz by simp
    show "?m ! (src + 1 + n) = 0" using same[of n] Suc.prems(4) by simp
  qed (use Suc.prems len in auto)
  moreover have "blit ?m (p + 1) (src + 1) (n + 1) = blit m p src (1 + (n + 1))"
    by (rule blit_fwd) (use Suc.prems in auto)
  moreover have "m ! src \<noteq> 0" using Suc.prems(3)[rule_format, of 0] by simp
  ultimately show ?case using Suc.prems by (simp add: strcpy_loop.simps[of m p src] storen_blit1)
qed

text \<open>The string \<open>s\<close> stands at \<open>src\<close>.\<close>

definition str_at :: "mem \<Rightarrow> nat \<Rightarrow> byte list \<Rightarrow> bool" where
  "str_at m src s \<longleftrightarrow> 0 \<notin> set s \<and> src + length s < length m \<and> take (length s + 1) (drop src m) = s @ [0]"

lemma str_at_nth:
  assumes "str_at m src s"
  shows "i < length s \<Longrightarrow> m ! (src + i) = s ! i \<and> m ! (src + i) \<noteq> 0" "m ! (src + length s) = 0"
proof -
  have n: "m ! (src + i) = (s @ [0]) ! i" if "i \<le> length s" for i
  proof -
    have "take (length s + 1) (drop src m) ! i = drop src m ! i" using that by (intro nth_take) simp
    moreover have "drop src m ! i = m ! (src + i)" using assms by (intro nth_drop) (simp add: str_at_def)
    ultimately show ?thesis using assms unfolding str_at_def by metis
  qed
  show "m ! (src + i) = s ! i \<and> m ! (src + i) \<noteq> 0" if "i < length s"
  proof -
    have "s ! i \<noteq> 0" using nth_mem[OF that] assms unfolding str_at_def by metis
    then show ?thesis using n[of i] that by (simp add: nth_append)
  qed
  show "m ! (src + length s) = 0" using n[of "length s"] by simp
qed

lemma str_at_cstr: "str_at m src s \<Longrightarrow> cstr (drop src m) s"
proof -
  assume a: "str_at m src s"
  then have "drop src m = s @ 0 # drop (length s + 1) (drop src m)"
    by (metis append_Cons append_Nil append_assoc append_take_drop_id str_at_def)
  then show ?thesis using a by (auto simp: cstr_def str_at_def)
qed

lemma u_strcpy_blit:
  assumes "str_at m src s" "dst + length s < length m" "dst \<le> src \<or> src + length s < dst"
  shows "u_strcpy m dst src = Some (dst, blit m dst src (length s + 1))"
proof -
  have "strcpy_loop m dst src = Some (blit m dst src (length s + 1))"
  proof (rule strcpy_loop_blit)
    show "\<forall>i<length s. m ! (src + i) \<noteq> 0" using str_at_nth(1)[OF assms(1)] by blast
  qed (use assms str_at_nth(2)[OF assms(1)] in \<open>auto simp: str_at_def\<close>)
  then show ?thesis by (simp add: u_strcpy_def)
qed

definition put :: "mem \<Rightarrow> nat \<Rightarrow> byte list \<Rightarrow> mem" where
  "put m p bs = take p m @ bs @ drop (p + length bs) m"

lemma put_Cons: "p + Suc (length bs) \<le> length m \<Longrightarrow> put (put m p [c]) (p + 1) bs = put m p (c # bs)"
  by (simp add: put_def add.commute)

lemma nth_put:
  "p + length bs \<le> length m \<Longrightarrow> i < length m \<Longrightarrow>
   put m p bs ! i = (if p \<le> i \<and> i < p + length bs then bs ! (i - p) else m ! i)"
  by (auto simp: put_def nth_append min_def)

definition pad :: "nat \<Rightarrow> byte list \<Rightarrow> byte list" where
  "pad len s = take len s @ replicate (len - length s) 0"

lemma pad_simps [simp]: "pad 0 s = []" "pad (Suc len) [] = 0 # pad len []" "pad (Suc len) (c # s) = c # pad len s" "length (pad len s) = len"
  by (auto simp: pad_def)

lemma strncpy_loop_put:
  assumes "p + len \<le> length m" "src + length s < length m" "\<forall>i\<le>length s. m ! (src + i) = (s @ [0]) ! i" "0 \<notin> set s"
    "p + len \<le> src \<or> src + length s < p"
  shows "strncpy_loop m p src len = Some (put m p (pad len s))"
  using assms
proof (induction len arbitrary: m p src s)
  case 0
  then show ?case by (simp add: put_def)
next
  case (Suc len)
  define c where "c = m ! src"
  have c: "c = (s @ [0]) ! 0" using Suc.prems(3) by (auto simp: c_def dest: spec[of _ 0])
  have st: "storen m p [c] = Some (put m p [c])" using Suc.prems(1) by (simp add: storen_def put_def)
  have same: "put m p [c] ! j = m ! j" if "src \<le> j" "j \<le> src + length s" for j
    using that Suc.prems by (subst nth_put) auto
  show ?case
  proof (cases s)
    case Nil
    have "strncpy_loop (put m p [c]) (p + 1) src len = Some (put (put m p [c]) (p + 1) (pad len []))"
    proof (rule Suc.IH)
      show "\<forall>i\<le>length []. put m p [c] ! (src + i) = ([] @ [0]) ! i" using same[of src] Suc.prems(3) Nil by simp
    qed (use Suc.prems Nil in \<open>auto simp: put_def\<close>)
    then show ?thesis using st c Suc.prems Nil put_Cons[of p "pad len []" m c] by (simp add: c_def[symmetric])
  next
    case (Cons x s')
    have "strncpy_loop (put m p [c]) (p + 1) (src + 1) len = Some (put (put m p [c]) (p + 1) (pad len s'))"
    proof (rule Suc.IH)
      show "\<forall>i\<le>length s'. put m p [c] ! (src + 1 + i) = (s' @ [0]) ! i"
      proof (intro allI impI)
        fix i assume "i \<le> length s'"
        then show "put m p [c] ! (src + 1 + i) = (s' @ [0]) ! i"
          using same[of "src + 1 + i"] Suc.prems(3)[rule_format, of "Suc i"] Cons by simp
      qed
    qed (use Suc.prems Cons in \<open>auto simp: put_def\<close>)
    moreover have "c \<noteq> 0" "c = x" using c Suc.prems(4) Cons by auto
    ultimately show ?thesis using st Suc.prems Cons put_Cons[of p "pad len s'" m c] by (simp add: c_def[symmetric])
  qed
qed

lemma u_strncpy_put:
  assumes "str_at m src s" "dst + len \<le> length m" "dst + len \<le> src \<or> src + length s < dst"
  shows "u_strncpy m dst src len = Some (dst, put m dst (pad len s))"
proof -
  have "m ! (src + i) = (s @ [0]) ! i" if "i \<le> length s" for i
    using str_at_nth[OF assms(1)] that by (cases "i = length s") (auto simp: nth_append)
  then have "strncpy_loop m dst src len = Some (put m dst (pad len s))"
    using assms by (intro strncpy_loop_put) (auto simp: str_at_def)
  then show ?thesis by (simp add: u_strncpy_def)
qed

lemma u_strcmp_lexord:
  "cstr p s \<Longrightarrow> cstr q t \<Longrightarrow>
   \<exists>r. u_strcmp p q = Some r \<and> (r = 0 \<longleftrightarrow> s = t) \<and> (r < 0 \<longleftrightarrow> (s, t) \<in> lexord {(x, y). x < y})"
proof (induction p q arbitrary: s t rule: u_strcmp.induct)
  case (1 a p b q)
  show ?case
  proof (cases "a \<noteq> 0 \<and> a = b")
    case True
    then obtain s' t' where "s = a # s'" "t = a # t'" "cstr p s'" "cstr q t'"
      using "1.prems" by (metis cstr_nzE)
    then show ?thesis using 1 True by auto
  next
    case False
    have z: "c \<noteq> 0 \<Longrightarrow> 0 < uint c" for c :: byte 
      by (metis order_le_less uint_ge_0 unsigned_0 unsigned_word_eqI)
    show ?thesis
    proof (cases s)
      case Nil
      then have "a = 0" using "1.prems" by simp
      then show ?thesis using False Nil "1.prems" z[of b] by (cases t) auto
    next
      case (Cons x s')
      then have "a = x" "x \<noteq> 0" using "1.prems" by auto
      then show ?thesis using False Cons "1.prems" z[of x]
        by (cases t) (auto simp: word_less_def dest: unsigned_word_eqI)
    qed
  qed
qed auto

lemma sint_uint_ascii: "uint (c :: byte) < 128 \<Longrightarrow> sint c = uint c"
proof -
  assume "uint c < 128"
  then have "signed_take_bit 7 (uint c) = uint c"
    by (intro signed_take_bit_int_eq_self order_trans[OF _ uint_ge_0, of "- (2 ^ 7)"]) auto
  then show ?thesis by (simp add: sint_uint)
qed

lemma u_strcmp_ascii:
  "(\<forall>c \<in> set p \<union> set q. uint c < 128) \<Longrightarrow> u_strcmp p q = strcmp p q"
  by (induction p q rule: u_strcmp.induct) (auto simp: sint_uint_ascii)

section \<open>Numbers\<close>

lemma u_digit_val:
  assumes "u_digit c = Some d"
  shows "digit_val c = d" "0 \<le> d"
proof -
  have c: "uint c < 128" using assms by (auto simp: u_digit_def split: if_splits)
  then show "digit_val c = d" "0 \<le> d"
    using assms sint_uint_ascii[OF c]
    by (auto simp: u_digit_def digit_val_def tolower_eq isalpha_def isupper_def islower_def Let_def split: if_splits)
qed

lemma u_strtol_digits_foldl:
  "\<forall>d \<in> set ds. \<exists>v. u_digit d = Some v \<and> v < b \<Longrightarrow> (\<forall>v. u_digit c = Some v \<longrightarrow> b \<le> v) \<Longrightarrow>
   u_strtol_digits b (ds @ c # rest) (word_of_int tot) =
     Some (word_of_int (foldl (\<lambda>a d. a * b + digit_val d) tot ds), c # rest)"
proof (induction ds arbitrary: tot)
  case Nil
  then show ?case by (cases "u_digit c") auto
next
  case (Cons d ds)
  then obtain v where v: "u_digit d = Some v" "v < b" by auto
  then show ?case using Cons.IH[of "tot * b + digit_val d"] Cons.prems u_digit_val(1)[OF v(1)] by simp
qed

lemma u_skip_blank_append: "\<forall>w \<in> set ws. w = 32 \<or> w = 9 \<Longrightarrow> c \<noteq> 32 \<Longrightarrow> c \<noteq> 9 \<Longrightarrow> u_skip_blank (ws @ c # n) = Some (c # n)"
  by (induction ws) auto

lemma u_strtol_prefix_num:
  assumes pre: "pre = [] \<or> b = 16 \<and> pre = [48, 120]" and b: "2 \<le> b"
    and ds: "\<forall>d \<in> set ds. \<exists>v. u_digit d = Some v \<and> v < b"
    and ne: "pre = [] \<Longrightarrow> ds \<noteq> [] \<and> \<not> (b = 16 \<and> ds = [48] \<and> c = 120)"
  shows "u_strtol_prefix b (pre @ ds @ c # rest) = Some (b, ds @ c # rest)"
proof (cases "pre = []")
  case True
  then obtain d ds' where d: "ds = d # ds'" using ne by (cases ds) auto
  have "hd (ds' @ [c]) \<noteq> 120" if "b = 16" "d = 48"
  proof (cases ds')
    case Nil
    then show ?thesis using ne True d that by auto
  next
    case (Cons x xs)
    then have "\<exists>v. u_digit x = Some v \<and> v < 16" using ds d that by auto
    then show ?thesis using Cons by (auto simp: u_digit_def)
  qed
  then show ?thesis using True d b by (cases ds') (auto simp: u_strtol_prefix_def)
next
  case False
  then show ?thesis using pre by (auto simp: u_strtol_prefix_def)
qed

lemma u_strtol_num:
  assumes ws: "\<forall>w \<in> set ws. w = 32 \<or> w = 9" and sg: "sg = [] \<or> sg = [43] \<or> sg = [45]"
    and pre: "pre = [] \<or> b = 16 \<and> pre = [48, 120]" and b: "2 \<le> b"
    and ds: "\<forall>d \<in> set ds. \<exists>v. u_digit d = Some v \<and> v < b" and c: "\<forall>v. u_digit c = Some v \<longrightarrow> b \<le> v"
    and ne: "pre = [] \<Longrightarrow> ds \<noteq> [] \<and> \<not> (b = 16 \<and> ds = [48] \<and> c = 120)"
  shows "u_strtol (ws @ sg @ pre @ ds @ c # rest) b =
    Some (word_of_int ((if sg = [45] then -1 else 1) * digits_val b ds), c # rest)"
proof -
  let ?n = "pre @ ds @ c # rest"
  obtain d0 n0 where n: "?n = d0 # n0" by (cases ?n) auto
  have "u_digit d0 \<noteq> None"
  proof (cases "pre = []")
    case True
    then have "ds \<noteq> []" using ne by blast
    then obtain ds' where "ds = d0 # ds'" using n True by (cases ds) auto
    then show ?thesis using ds by auto
  next
    case False
    then show ?thesis using pre n by (auto simp: u_digit_def)
  qed
  then have d0: "d0 \<noteq> 32" "d0 \<noteq> 9" "d0 \<noteq> 43" "d0 \<noteq> 45" by (auto simp: u_digit_def)
  have "Option.bind (u_skip_blank (ws @ sg @ ?n)) strtol_sign = Some (if sg = [45] then -1 else 1, ?n)"
    using sg d0 u_skip_blank_append[OF ws, of d0 n0] u_skip_blank_append[OF ws, of 43 ?n] u_skip_blank_append[OF ws, of 45 ?n]
    unfolding n by (auto simp: strtol_sign_def)
  moreover have "u_strtol_prefix b ?n = Some (b, ds @ c # rest)" by (rule u_strtol_prefix_num[OF pre b ds ne])
  moreover have "u_strtol_digits b (ds @ c # rest) 0 = Some (word_of_int (digits_val b ds), c # rest)"
    using u_strtol_digits_foldl[OF ds c, of rest 0] by (simp add: digits_val_def)
  ultimately show ?thesis unfolding u_strtol_def by (auto simp: bind_eq_Some_conv)
qed

section \<open>Properties\<close>

text \<open>
  C27: the two libraries move, fill and copy memory alike: wherever the blocks lie within the memory,
  uCore's byte loops and litc's loops over \<open>long\<close>s give the same result for every overlap, and
  \<open>memcpy\<close> agrees with \<open>memmove\<close> when the destination does not start inside the source.
\<close>

theorem block_functions_agree:
  assumes "src + n \<le> length m" "dst + n \<le> length m"
  shows "u_memmove m dst src n = memmove m dst src n \<and> u_memset m dst (ucast c) n = memset m dst c n \<and>
    (dst \<le> src \<or> src + n \<le> dst \<longrightarrow> u_memcpy m dst src n = memcpy m dst src n)"
  using assms by (simp add: u_memmove_blit memmove_blit u_memset_fill memset_fill u_memcpy_blit memcpy_def)

theorem block_functions_agree_witness:
  "u_memmove [1, 2, 3, 4] 1 0 3 = memmove [1, 2, 3, 4] 1 0 3 \<and> memmove [1, 2, 3, 4] 1 0 3 = Some (1, [1, 1, 2, 3])"
proof -
  have "u_memmove [1, 2, 3, 4] 1 0 3 = memmove [1, 2, 3, 4] 1 0 3"
    using conjunct1[OF block_functions_agree[of 0 3 "[1, 2, 3, 4]" 1]] by simp
  moreover have "memmove [1, 2, 3, 4] 1 0 3 = Some (1, [1, 1, 2, 3])" by code_simp
  ultimately show ?thesis by simp
qed

text \<open>
  string copying. If the string \<open>s\<close> stands at \<open>src\<close> and the destination does not reach into it,
  \<open>strcpy\<close> writes \<open>s\<close> and its terminator at \<open>dst\<close>, and \<open>strncpy\<close> writes exactly \<open>len\<close> bytes, the first
  bytes of \<open>s\<close> padded with zeros; nothing else changes, and no access is out of bounds.
\<close>

theorem strcpy_correct:
  assumes "str_at m src s" "dst + max (length s + 1) len \<le> length m"
    "dst + max (length s + 1) len \<le> src \<or> src + length s < dst"
  shows "u_strcpy m dst src = Some (dst, put m dst (s @ [0])) \<and>
    u_strncpy m dst src len = Some (dst, put m dst (take len s @ replicate (len - length s) 0))"
proof -
  have "blit m dst src (length s + 1) = put m dst (s @ [0])"
    using assms(1) by (simp add: blit_def put_def str_at_def)
  then show ?thesis
    using u_strcpy_blit[OF assms(1), of dst] u_strncpy_put[OF assms(1), of dst len] assms(2,3) by (simp add: pad_def) linarith
qed

theorem strcpy_correct_witness:
  "u_strcpy [0, 0, 0, 0, 65, 66, 0] 0 4 = Some (0, put [0, 0, 0, 0, 65, 66, 0] 0 ([65, 66] @ [0])) \<and>
   u_strncpy [0, 0, 0, 0, 65, 66, 0] 0 4 4 =
     Some (0, put [0, 0, 0, 0, 65, 66, 0] 0 (take 4 [65, 66] @ replicate (4 - length [65 :: byte, 66]) 0))"
  by (rule strcpy_correct) (simp_all add: str_at_def)

text \<open>
  \<open>strcmp\<close> of uCore orders strings as sequences of unsigned characters, returns 0 exactly for equal
  strings, and agrees with litc's \<open>strcmp\<close> if all characters are 7-bit.
\<close>

theorem u_strcmp_correct:
  assumes "cstr p s" "cstr q t"
  shows "\<exists>r. u_strcmp p q = Some r \<and> (r = 0 \<longleftrightarrow> s = t) \<and> (r < 0 \<longleftrightarrow> (s, t) \<in> lexord {(x, y). x < y}) \<and>
    ((\<forall>c \<in> set p \<union> set q. uint c < 128) \<longrightarrow> strcmp p q = Some r)"
  using u_strcmp_lexord[OF assms] u_strcmp_ascii[of p q] by auto

theorem u_strcmp_correct_witness:
  "\<exists>r. u_strcmp (lit ''ab'') (lit ''b'') = Some r \<and> r < 0"
proof -
  have "cstr (lit ''ab'') [97, 98]" "cstr (lit ''b'') [98]" by (simp_all add: lit_def bytes_of_def)
  from u_strcmp_correct[OF this] show ?thesis by auto
qed

text \<open>
  \<open>strtol\<close> of uCore. For a base \<open>b\<close> from 2: after blanks, a sign and, in base 16, an optional
  \<open>0x\<close>, it reads the digits below \<open>b\<close>, letters in either case, up to the first other character,
  returns their value with the sign modulo \<open>2^64\<close>, and leaves \<open>endptr\<close> at that character.
\<close>

theorem u_strtol_correct:
  assumes "\<forall>w \<in> set ws. w = 32 \<or> w = 9" "sg = [] \<or> sg = [43] \<or> sg = [45]"
    and "pre = [] \<or> b = 16 \<and> pre = [48, 120]" "2 \<le> b"
    and "\<forall>d \<in> set ds. \<exists>v. u_digit d = Some v \<and> v < b" "\<forall>v. u_digit c = Some v \<longrightarrow> b \<le> v"
    and "pre = [] \<Longrightarrow> ds \<noteq> [] \<and> \<not> (b = 16 \<and> ds = [48] \<and> c = 120)"
  shows "u_strtol (ws @ sg @ pre @ ds @ c # rest) b =
    Some (word_of_int ((if sg = [45] then -1 else 1) * digits_val b ds), c # rest)"
  by (rule u_strtol_num[OF assms])

theorem u_strtol_correct_witness:
  "u_strtol ([32] @ [45] @ [48, 120] @ [49, 48] @ 0 # []) 16 = Some (word_of_int (-1 * digits_val 16 [49, 48]), [0]) \<and>
   digits_val 16 [49, 48] = 16"
proof -
  have "u_strtol ([32] @ [45] @ [48, 120] @ [49, 48] @ 0 # []) 16 =
      Some (word_of_int ((if [45] = [45 :: byte] then -1 else 1) * digits_val 16 [49, 48]), 0 # [])"
    by (rule u_strtol_correct) (auto simp: u_digit_def)
  moreover have "digits_val 16 [49, 48] = 16" by code_simp
  ultimately show ?thesis by simp
qed

end
