(* ===== verification/Ucore_Printfmt.thy ===== *)
theory Ucore_Printfmt
  imports Ucore_String
begin

unbundle bit_operations_syntax

text \<open>
  The formatted output of the uCore user library (\<open>lib/printfmt.c\<close>): \<open>number\<close>, \<open>printnum\<close>, \<open>vprintfmt\<close> and
  the buffer printers. \<open>vprintfmt\<close> first builds the whole text in a buffer of 1024 bytes on its stack; the
  model builds the list of these bytes, and a text that does not fit with its terminator is \<open>None\<close>, an
  access outside the buffer. The flag word is a 32-bit word with the bits of the source. An argument of
  the wrong kind for \<open>va_arg\<close> is \<open>None\<close> as well.
\<close>

section \<open>Numbers\<close>

definition ZEROPAD :: cint where "ZEROPAD = 1"
definition SIGN :: cint where "SIGN = 2"
definition PLUS :: cint where "PLUS = 4"
definition SPACE :: cint where "SPACE = 8"
definition LEFT :: cint where "LEFT = 16"
definition SMALL :: cint where "SMALL = 32"
definition SPECIAL :: cint where "SPECIAL = 64"

lemmas flag_defs = ZEROPAD_def SIGN_def PLUS_def SPACE_def LEFT_def SMALL_def SPECIAL_def

definition u_isdigit :: "byte \<Rightarrow> bool" where
  "u_isdigit c \<longleftrightarrow> 48 \<le> uint c \<and> uint c \<le> 57"

text \<open>\<open>skip_atoi\<close>: the value, in an \<open>int\<close> that wraps, and the rest; the loop stops at the terminator.\<close>

fun skip_atoi :: "byte list \<Rightarrow> cint \<Rightarrow> (cint \<times> byte list) option" where
  "skip_atoi [] i = None"
| "skip_atoi (c # s) i = (if u_isdigit c then skip_atoi s (i * 10 + ucast c - 48) else Some (i, c # s))"

definition u_digits :: "byte list" where
  "u_digits = bytes_of ''0123456789ABCDEF''"

text \<open>\<open>while (num != 0) tmp[i++] = digits[__do_div(num, base)] | locase;\<close> the least digit first.\<close>

function number_digits :: "long \<Rightarrow> long \<Rightarrow> byte \<Rightarrow> byte list" where
  "number_digits base num locase =
     (if num = 0 \<or> base < 2 then []
      else (u_digits ! unat (num mod base) OR locase) # number_digits base (num div base) locase)"
  by pat_completeness auto
termination
proof (relation "measure (\<lambda>(base, num, locase). unat num)")
  fix base num :: long and locase :: byte
  assume "\<not> (num = 0 \<or> base < 2)"
  then have "2 \<le> unat base" "0 < unat num" by (simp_all add: word_less_nat_alt unat_gt_0)
  then have "unat num div unat base < unat num" by (intro div_less_dividend) auto
  then show "((base, num div base, locase), base, num, locase) \<in> measure (\<lambda>(base, num, locase). unat num)"
    by (simp add: unat_div)
qed simp

declare number_digits.simps [simp del]

text \<open>\<open>while (size-- > 0) *str++ = c;\<close>: what is written and the value of \<open>size\<close> after the loop.\<close>

definition pad_loop :: "int \<Rightarrow> byte \<Rightarrow> byte list \<times> int" where
  "pad_loop sz c = (replicate (nat sz) c, if sz > 0 then - 1 else sz - 1)"

definition sign_char :: "long \<Rightarrow> cint \<Rightarrow> byte" where
  "sign_char num type =
     (if type AND SIGN \<noteq> 0 then
        (if num <s 0 then 45 else if type AND PLUS \<noteq> 0 then 43 else if type AND SPACE \<noteq> 0 then 32 else 0)
      else 0)"

text \<open>The parts of the text: the sign, the prefix, and the digits in \<open>tmp\<close>, the least first.\<close>

definition num_sign :: "long \<Rightarrow> cint \<Rightarrow> byte list" where
  "num_sign num type = (if sign_char num type \<noteq> 0 then [sign_char num type] else [])"

definition num_special :: "int \<Rightarrow> cint \<Rightarrow> byte list" where
  "num_special base type =
     (if type AND SPECIAL \<noteq> 0 then (if base = 8 then [48] else if base = 16 then [48, 88 OR ucast (type AND SMALL)] else []) else [])"

definition num_abs :: "long \<Rightarrow> cint \<Rightarrow> long" where
  "num_abs num type = (if type AND SIGN \<noteq> 0 \<and> num <s 0 then - num else num)"

definition num_tmp :: "long \<Rightarrow> int \<Rightarrow> cint \<Rightarrow> byte list" where
  "num_tmp num base type =
     (if num_abs num type = 0 then [48] else number_digits (word_of_int base) (num_abs num type) (ucast (type AND SMALL)))"

text \<open>
  The bytes that \<open>number\<close> writes; \<open>None\<close> is the null pointer for a base out of range. \<open>size\<close> goes down by
  one for a sign, by two or one for a prefix, and by the number of digits or the precision.
\<close>

definition number :: "long \<Rightarrow> int \<Rightarrow> int \<Rightarrow> int \<Rightarrow> cint \<Rightarrow> byte list option" where
  "number num base size0 precision0 type0 =
     (let type = (if type0 AND LEFT \<noteq> 0 then type0 AND NOT ZEROPAD else type0)
      in if base < 2 \<or> base > 16 then None
      else
        (let c = (if type AND ZEROPAD \<noteq> 0 then 48 else 32);
             sign = num_sign num type;
             special = num_special base type;
             tmp = num_tmp num base type;
             i = int (length tmp);
             precision = (if i > precision0 then i else precision0);
             size3 = size0 - int (length sign) - int (length special) - precision;
             (lead, size4) = (if type AND (ZEROPAD + LEFT) = 0 then pad_loop size3 32 else ([], size3));
             (fillc, size5) = (if type AND LEFT = 0 then pad_loop size4 c else ([], size4));
             (trail, size6) = pad_loop size5 32
         in Some (lead @ sign @ special @ fillc @ replicate (nat (precision - i)) 48 @ rev tmp @ trail)))"

text \<open>\<open>printnum\<close>, the recursive printer: \<open>width\<close> counts down on the way to the first digit.\<close>

function printnum :: "long \<Rightarrow> long \<Rightarrow> int \<Rightarrow> byte \<Rightarrow> byte list" where
  "printnum num base width padc =
     (if num \<ge> base \<and> base \<ge> 2 then printnum (num div base) base (width - 1) padc
      else replicate (nat (width - 1)) padc) @ [bytes_of ''0123456789abcdef'' ! unat (num mod base)]"
  by pat_completeness auto
termination
proof (relation "measure (\<lambda>(num, base, width, padc). unat num)")
  fix num base :: long and width :: int and padc :: byte
  assume "num \<ge> base \<and> base \<ge> 2"
  then have "2 \<le> unat base" "unat base \<le> unat num" by (simp_all add: word_le_nat_alt)
  then have "unat num div unat base < unat num" by (intro div_less_dividend) auto
  then show "((num div base, base, width - 1, padc), num, base, width, padc)
      \<in> measure (\<lambda>(num, base, width, padc). unat num)" by (simp add: unat_div)
qed simp

declare printnum.simps [simp del]

section \<open>Directives\<close>

text \<open>The variable arguments: an \<open>int\<close>, a \<open>long\<close> or pointer value, a string, and a location for \<open>%n\<close>.\<close>

datatype uarg = UI cint | UL long | US "byte list" | ULoc

definition va_int :: "uarg list \<Rightarrow> (cint \<times> uarg list) option" where
  "va_int ap = (case ap of UI i # ap' \<Rightarrow> Some (i, ap') | _ \<Rightarrow> None)"

definition va_long :: "uarg list \<Rightarrow> (long \<times> uarg list) option" where
  "va_long ap = (case ap of UL l # ap' \<Rightarrow> Some (l, ap') | _ \<Rightarrow> None)"

definition va_str :: "uarg list \<Rightarrow> (byte list \<times> uarg list) option" where
  "va_str ap = (case ap of US s # ap' \<Rightarrow> Some (s, ap') | _ \<Rightarrow> None)"

definition getuint :: "uarg list \<Rightarrow> int \<Rightarrow> (long \<times> uarg list) option" where
  "getuint ap lflag =
     (if lflag \<noteq> 0 then va_long ap else map_option (\<lambda>(i, ap'). (ucast i, ap')) (va_int ap))"

definition getint :: "uarg list \<Rightarrow> int \<Rightarrow> (long \<times> uarg list) option" where
  "getint ap lflag =
     (if lflag \<noteq> 0 then va_long ap else map_option (\<lambda>(i, ap'). (scast i, ap')) (va_int ap))"

text \<open>The flags after a percent sign, up to the first other character.\<close>

fun u_flags :: "byte list \<Rightarrow> cint \<Rightarrow> (cint \<times> byte list) option" where
  "u_flags [] flags = None"
| "u_flags (c # fmt) flags =
     (if c = 45 then u_flags fmt (flags OR LEFT)
      else if c = 43 then u_flags fmt (flags OR PLUS)
      else if c = 32 then u_flags fmt (flags OR SPACE)
      else if c = 35 then u_flags fmt (flags OR SPECIAL)
      else if c = 48 then u_flags fmt (flags OR ZEROPAD)
      else Some (flags, c # fmt))"

definition u_width :: "byte list \<Rightarrow> cint \<Rightarrow> uarg list \<Rightarrow> (cint \<times> cint \<times> byte list \<times> uarg list) option" where
  "u_width fmt flags ap =
     (case fmt of
        [] \<Rightarrow> None
      | c # fmt' \<Rightarrow>
          if u_isdigit c then map_option (\<lambda>(w, r). (w, flags, r, ap)) (skip_atoi fmt 0)
          else if c = 42 then
            map_option (\<lambda>(w, ap'). if w <s 0 then (- w, flags OR LEFT, fmt', ap') else (w, flags, fmt', ap')) (va_int ap)
          else Some (- 1, flags, fmt, ap))"

definition u_prec :: "byte list \<Rightarrow> uarg list \<Rightarrow> (cint \<times> byte list \<times> uarg list) option" where
  "u_prec fmt ap =
     (case fmt of
        [] \<Rightarrow> None
      | c # fmt' \<Rightarrow>
          if c \<noteq> 46 then Some (- 1, fmt, ap)
          else
            map_option (\<lambda>(p, r, ap'). (if p <s 0 then 0 else p, r, ap'))
              (case fmt' of
                 [] \<Rightarrow> None
               | d # fmt'' \<Rightarrow>
                   if u_isdigit d then map_option (\<lambda>(p, r). (p, r, ap)) (skip_atoi fmt' 0)
                   else if d = 42 then map_option (\<lambda>(p, ap'). (p, fmt'', ap')) (va_int ap)
                   else Some (- 1, fmt', ap)))"

text \<open>The qualifier, 0 if there is none.\<close>

definition u_qual :: "byte list \<Rightarrow> (byte \<times> byte list) option" where
  "u_qual fmt =
     (case fmt of
        [] \<Rightarrow> None
      | c # fmt' \<Rightarrow> if c = 104 \<or> c = 108 \<or> c = 76 then Some (c, fmt') else Some (0, fmt))"

record uspec =
  u_fl :: cint
  u_wd :: cint
  u_pr :: cint
  u_ql :: byte

text \<open>A whole directive up to its conversion character, which is the first of the bytes returned.\<close>

definition u_directive :: "byte list \<Rightarrow> uarg list \<Rightarrow> (uspec \<times> byte list \<times> uarg list) option" where
  "u_directive fmt ap = do {
     (flags0, f1) \<leftarrow> u_flags fmt 0;
     (width, flags, f2, ap1) \<leftarrow> u_width f1 flags0 ap;
     (prec, f3, ap2) \<leftarrow> u_prec f2 ap1;
     (qual, f4) \<leftarrow> u_qual f3;
     Some (\<lparr>u_fl = flags, u_wd = width, u_pr = prec, u_ql = qual\<rparr>, f4, ap2) }"

section \<open>Conversions\<close>

text \<open>Case \<open>'c'\<close>: the padding loops pre-decrement the width.\<close>

definition conv_c :: "uspec \<Rightarrow> cint \<Rightarrow> byte list" where
  "conv_c sp i =
     (let pad = replicate (nat (sint (u_wd sp) - 1)) 32
      in if u_fl sp AND LEFT = 0 then pad @ [ucast i] else ucast i # pad)"

text \<open>Case \<open>'s'\<close>; the precision is converted to \<open>size_t\<close>, so that -1 is no limit.\<close>

definition conv_s :: "uspec \<Rightarrow> byte list \<Rightarrow> byte list option" where
  "conv_s sp s =
     map_option (\<lambda>len.
       let pad = replicate (nat (sint (u_wd sp) - int len)) 32
       in if u_fl sp AND LEFT = 0 then pad @ take len s else take len s @ pad)
     (u_strnlen s (scast (u_pr sp)))"

text \<open>Case \<open>'p'\<close>; \<open>sizeof(void *)\<close> is 8.\<close>

definition conv_p :: "uspec \<Rightarrow> long \<Rightarrow> byte list option" where
  "conv_p sp v =
     (if u_wd sp = - 1 then number v 16 16 (sint (u_pr sp)) (u_fl sp OR ZEROPAD)
      else number v 16 (sint (u_wd sp)) (sint (u_pr sp)) (u_fl sp))"

text \<open>The argument of an integer conversion, read by qualifier and sign.\<close>

definition conv_num :: "uspec \<Rightarrow> cint \<Rightarrow> uarg list \<Rightarrow> (long \<times> uarg list) option" where
  "conv_num sp flags ap =
     (if u_ql sp = 108 then va_long ap
      else map_option (\<lambda>(i, ap').
        (if u_ql sp = 104 then
           (if flags AND SIGN \<noteq> 0 then scast (ucast i :: 16 word) else ucast (ucast i :: 16 word))
         else if flags AND SIGN \<noteq> 0 then scast i
         else ucast i, ap')) (va_int ap))"

definition conv_int :: "uspec \<Rightarrow> int \<Rightarrow> cint \<Rightarrow> uarg list \<Rightarrow> (byte list \<times> uarg list) option" where
  "conv_int sp base extra ap =
     (let flags = u_fl sp OR extra in
      Option.bind (conv_num sp flags ap) (\<lambda>(num, ap').
        map_option (\<lambda>bs. (bs, ap')) (number num base (sint (u_wd sp)) (sint (u_pr sp)) flags)))"

text \<open>
  The switch on the conversion character \<open>c\<close>, with \<open>pos\<close> bytes written before: the bytes, the remaining
  arguments, and the value stored by \<open>%n\<close>, if it is one.
\<close>

definition u_convert ::
  "uspec \<Rightarrow> byte \<Rightarrow> nat \<Rightarrow> uarg list \<Rightarrow> (byte list \<times> uarg list \<times> nat option) option"
where
  "u_convert sp c pos ap =
     (let int_conv = (\<lambda>base extra. map_option (\<lambda>(bs, ap'). (bs, ap', None)) (conv_int sp base extra ap)) in
      if c = 99 then map_option (\<lambda>(i, ap'). (conv_c sp i, ap', None)) (va_int ap)
      else if c = 115 then
        Option.bind (va_str ap) (\<lambda>(s, ap'). map_option (\<lambda>bs. (bs, ap', None)) (conv_s sp s))
      else if c = 112 then
        Option.bind (va_long ap) (\<lambda>(v, ap'). map_option (\<lambda>bs. (bs, ap', None)) (conv_p sp v))
      else if c = 110 then (case ap of ULoc # ap' \<Rightarrow> Some ([], ap', Some pos) | _ \<Rightarrow> None)
      else if c = 37 then Some ([37], ap, None)
      else if c = 111 then int_conv 8 0
      else if c = 120 then int_conv 16 SMALL
      else if c = 88 then int_conv 16 0
      else if c = 100 \<or> c = 105 then int_conv 10 SIGN
      else if c = 117 then int_conv 10 0
      else if c \<noteq> 0 then Some ([37, c], ap, None)
      else Some ([37], ap, None))"

lemma u_flags_length: "u_flags fmt fl = Some (fl', r) \<Longrightarrow> length r \<le> length fmt"
  by (induction fmt fl rule: u_flags.induct) (auto split: if_splits)

lemma skip_atoi_length: "skip_atoi s i = Some (v, r) \<Longrightarrow> length r \<le> length s"
  by (induction s i rule: skip_atoi.induct) (auto split: if_splits)

lemma u_width_length: "u_width fmt fl ap = Some (w, fl', r, ap') \<Longrightarrow> length r \<le> length fmt"
  by (auto simp: u_width_def split: list.splits if_splits dest!: skip_atoi_length)

lemma u_prec_length: "u_prec fmt ap = Some (p, r, ap') \<Longrightarrow> length r \<le> length fmt"
  by (auto simp: u_prec_def split: list.splits if_splits dest!: skip_atoi_length)

lemma u_qual_length: "u_qual fmt = Some (q, r) \<Longrightarrow> length r \<le> length fmt"
  by (auto simp: u_qual_def split: list.splits if_splits)

lemma u_directive_length: "u_directive fmt ap = Some (sp, r, ap') \<Longrightarrow> length r \<le> length fmt"
  by (auto simp: u_directive_def bind_eq_Some_conv
      dest!: u_flags_length u_width_length u_prec_length u_qual_length)

section \<open>vprintfmt\<close>

text \<open>
  The loop over the format: the text built so far comes in as \<open>buf\<close>; the result is the text and the
  values stored by \<open>%n\<close>. At the terminator inside a directive the loop ends there.
\<close>

function fmt_loop :: "byte list \<Rightarrow> uarg list \<Rightarrow> byte list \<Rightarrow> (byte list \<times> nat list) option" where
  "fmt_loop [] ap buf = None"
| "fmt_loop (c # fmt) ap buf =
     (if c = 0 then Some (buf, [])
      else if c \<noteq> 37 then fmt_loop fmt ap (buf @ [c])
      else (case u_directive fmt ap of
              None \<Rightarrow> None
            | Some (sp, [], ap1) \<Rightarrow> None
            | Some (sp, d # rest, ap1) \<Rightarrow>
                (case u_convert sp d (length buf) ap1 of
                   None \<Rightarrow> None
                 | Some (bs, ap2, st) \<Rightarrow>
                     map_option (\<lambda>(text, sts). (text, (case st of None \<Rightarrow> sts | Some n \<Rightarrow> n # sts)))
                       (if d = 0 then Some (buf @ bs, []) else fmt_loop rest ap2 (buf @ bs)))))"
  by pat_completeness auto
termination
  by (relation "measure (\<lambda>(fmt, ap, buf). length fmt)") (auto dest!: u_directive_length)

definition BUFLEN :: nat where "BUFLEN = 1024"

text \<open>What is sent to \<open>putch\<close>: the text up to its first null byte, and a null byte.\<close>

definition vprintfmt :: "byte list \<Rightarrow> uarg list \<Rightarrow> (byte list \<times> nat list) option" where
  "vprintfmt fmt ap =
     (case fmt_loop fmt ap [] of
        None \<Rightarrow> None
      | Some (text, sts) \<Rightarrow>
          if length text < BUFLEN then Some (takeWhile (\<lambda>c. c \<noteq> 0) text @ [0], sts) else None)"

section \<open>Printing to a buffer\<close>

record sprintbuf =
  sb_buf :: nat
  sb_ebuf :: nat
  sb_cnt :: cint

definition sprintputch :: "byte \<Rightarrow> sprintbuf \<times> mem \<Rightarrow> (sprintbuf \<times> mem) option" where
  "sprintputch ch = (\<lambda>(b, m).
     if sb_buf b < sb_ebuf b then
       map_option (\<lambda>m'. (b\<lparr>sb_cnt := sb_cnt b + 1, sb_buf := sb_buf b + 1\<rparr>, m')) (storen m (sb_buf b) [ch])
     else Some (b\<lparr>sb_cnt := sb_cnt b + 1\<rparr>, m))"

fun putch_all :: "('s \<Rightarrow> 's option) list \<Rightarrow> 's \<Rightarrow> 's option" where
  "putch_all [] s = Some s"
| "putch_all (f # fs) s = Option.bind (f s) (putch_all fs)"

definition E_INVAL :: cint where "E_INVAL = 3"

text \<open>The result is the return value and the memory; \<open>str\<close> is not null.\<close>

definition u_vsnprintf :: "mem \<Rightarrow> nat \<Rightarrow> nat \<Rightarrow> byte list \<Rightarrow> uarg list \<Rightarrow> (cint \<times> mem) option" where
  "u_vsnprintf m str sz fmt ap =
     (if sz = 0 then Some (- E_INVAL, m)
      else do {
        out \<leftarrow> vprintfmt fmt ap;
        (b, m1) \<leftarrow> putch_all (map sprintputch (fst out)) (\<lparr>sb_buf = str, sb_ebuf = str + sz - 1, sb_cnt = 0\<rparr>, m);
        m2 \<leftarrow> storen m1 (sb_buf b) [0];
        Some (sb_cnt b, m2) })"

definition u_snprintf :: "mem \<Rightarrow> nat \<Rightarrow> nat \<Rightarrow> byte list \<Rightarrow> uarg list \<Rightarrow> (cint \<times> mem) option" where
  "u_snprintf m str sz fmt ap = u_vsnprintf m str sz fmt ap"

section \<open>Numbers in text\<close>

lemma all_digits: "\<forall>k \<in> set [0..<16]. \<forall>lc \<in> set [0, 32]. u_digit (u_digits ! k OR lc) = Some (int k)"
  by code_simp

lemma digit_char:
  assumes "k < 16" "lc = 0 \<or> lc = 32"
  shows "u_digit (u_digits ! k OR lc) = Some (int k)"
proof -
  have "k \<in> set [0..<16]" "lc \<in> set [0, 32]" using assms by auto
  then show ?thesis using all_digits by blast
qed

lemma digits_val_zeros: "digits_val b (replicate n 48 @ ds) = digits_val b ds"
proof -
  have "digit_val 48 = 0" by code_simp
  then have "foldl (\<lambda>a d. a * b + digit_val d) 0 (replicate n 48) = 0" by (induction n) auto
  then show ?thesis by (simp add: digits_val_def)
qed

text \<open>The digit string of \<open>number\<close> denotes the number.\<close>

lemma number_digits_val:
  assumes "2 \<le> b" "b \<le> 16" "lc = 0 \<or> lc = 32"
  shows "digits_val b (rev (number_digits (word_of_int b) num lc)) = uint num \<and>
    (\<forall>d \<in> set (number_digits (word_of_int b) num lc). \<exists>v. u_digit d = Some v \<and> v < b)"
proof (induction "unat num" arbitrary: num rule: less_induct)
  case (less num)
  note simps = number_digits.simps[of "word_of_int b" num lc]
  have ub: "uint (word_of_int b :: long) = b" using assms by (simp add: uint_word_of_int)
  then have nb: "\<not> (word_of_int b :: long) < 2" "unat (word_of_int b :: long) = nat b"
    using assms by (simp_all add: word_less_def unat_eq_nat_uint)
  show ?case
  proof (cases "num = 0")
    case True
    then show ?thesis by (simp add: digits_val_def number_digits.simps[of _ 0])
  next
    case False
    have "unat num div nat b < unat num" using False assms by (intro div_less_dividend) (auto simp: unat_gt_0)
    then have smaller: "unat (num div word_of_int b) < unat num" by (simp add: unat_div nb)
    let ?k = "unat (num mod word_of_int b)"
    have k1: "?k < nat b" using assms nb(2) by (simp add: unat_mod)
    have "int ?k = uint (num mod word_of_int b)" by (simp only: uint_nat)
    then have k2: "int ?k = uint num mod b" by (simp only: uint_mod ub)
    note k = k1 k2
    have dc: "u_digit (u_digits ! ?k OR lc) = Some (int ?k)" using k(1) assms by (intro digit_char) auto
    have "digits_val b (rev (number_digits (word_of_int b) (num div word_of_int b) lc)) = uint (num div word_of_int b)"
      "\<forall>d \<in> set (number_digits (word_of_int b) (num div word_of_int b) lc). \<exists>v. u_digit d = Some v \<and> v < b"
      using less[OF smaller] by auto
    moreover have "uint (num div word_of_int b) = uint num div b" using ub by (simp add: uint_div)
    ultimately show ?thesis
      using False nb(1) dc k u_digit_val(1)[OF dc] assms by (auto simp: simps digits_val_snoc)
  qed
qed

lemma and_not_zeropad:
  "(type AND NOT ZEROPAD) AND SIGN = type AND SIGN" "(type AND NOT ZEROPAD) AND PLUS = type AND PLUS"
  "(type AND NOT ZEROPAD) AND SPACE = type AND SPACE" "(type AND NOT ZEROPAD) AND LEFT = type AND LEFT"
  "(type AND NOT ZEROPAD) AND SMALL = type AND SMALL" "(type AND NOT ZEROPAD) AND SPECIAL = type AND SPECIAL"
  "(type AND NOT ZEROPAD) AND ZEROPAD = 0"
  by (simp_all add: flag_defs and.assoc)

lemma and_two: "type AND (ZEROPAD + LEFT) = 0 \<longleftrightarrow> type AND ZEROPAD = 0 \<and> type AND LEFT = 0" for type :: cint
proof -
  have "ZEROPAD + LEFT = ZEROPAD OR LEFT" by (simp add: flag_defs)
  then show ?thesis by (auto simp: bit_eq_iff bit_simps)
qed

definition num_pad :: "long \<Rightarrow> int \<Rightarrow> int \<Rightarrow> int \<Rightarrow> cint \<Rightarrow> nat" where
  "num_pad num base sz prec fl =
     nat (sz - int (length (num_sign num fl)) - int (length (num_special base fl)) - max (int (length (num_tmp num base fl))) prec)"

definition num_zeros :: "long \<Rightarrow> int \<Rightarrow> int \<Rightarrow> cint \<Rightarrow> nat" where
  "num_zeros num base prec fl = nat (prec - int (length (num_tmp num base fl)))"

lemma parts_mask:
  "num_sign num (fl AND NOT ZEROPAD) = num_sign num fl" "num_special base (fl AND NOT ZEROPAD) = num_special base fl"
  "num_tmp num base (fl AND NOT ZEROPAD) = num_tmp num base fl"
  by (simp_all add: num_sign_def num_special_def num_tmp_def num_abs_def sign_char_def and_not_zeropad)

lemma pad_loop_eq: "pad_loop s c = (replicate (nat s) c, if s > 0 then - 1 else s - 1)"
  "nat (if s > 0 then - 1 else s - 1) = 0"
  by (simp_all add: pad_loop_def)

text \<open>Of the three paddings at most one is not empty, and it fills the text to the field width.\<close>

lemma number_shape:
  assumes "2 \<le> base" "base \<le> 16"
  shows "number num base sz prec fl = Some
    (replicate (if fl AND LEFT = 0 \<and> fl AND ZEROPAD = 0 then num_pad num base sz prec fl else 0) 32 @
     num_sign num fl @ num_special base fl @
     replicate ((if fl AND LEFT = 0 \<and> fl AND ZEROPAD \<noteq> 0 then num_pad num base sz prec fl else 0) + num_zeros num base prec fl) 48 @
     rev (num_tmp num base fl) @
     replicate (if fl AND LEFT \<noteq> 0 then num_pad num base sz prec fl else 0) 32)"
proof -
  have b: "\<not> (base < 2 \<or> base > 16)" using assms by auto
  have z: "(if int n > prec then int n else prec) = max (int n) prec" "nat (max (int n) prec - int n) = nat (prec - int n)" for n
    by auto
  consider (left) "fl AND LEFT \<noteq> 0" | (zero) "fl AND LEFT = 0" "fl AND ZEROPAD \<noteq> 0" | (plain) "fl AND LEFT = 0" "fl AND ZEROPAD = 0"
    by blast
  then show ?thesis
  proof cases
    case left
    then show ?thesis
      by (simp add: number_def Let_def b parts_mask and_not_zeropad and_two pad_loop_eq z num_pad_def num_zeros_def replicate_add)
  next
    case zero
    then show ?thesis
      by (simp add: number_def Let_def b and_two pad_loop_eq z num_pad_def num_zeros_def replicate_add)
  next
    case plain
    then show ?thesis
      by (simp add: number_def Let_def b and_two pad_loop_eq z num_pad_def num_zeros_def replicate_add) (auto simp: max_def)
  qed
qed

lemma and_small: "fl AND SMALL = 0 \<or> fl AND SMALL = SMALL" for fl :: cint
proof -
  have S: "SMALL = push_bit 5 1" by (simp add: flag_defs)
  have "bit SMALL n \<longleftrightarrow> n = 5" for n unfolding S bit_push_bit_iff bit_1_iff by auto
  then have "fl AND SMALL = (if bit fl 5 then SMALL else 0)"
    by (intro bit_word_eqI) (auto simp: bit_and_iff)
  then show ?thesis by simp
qed

lemma small_special: "fl AND SMALL \<noteq> 0 \<Longrightarrow> 88 OR ucast (fl AND SMALL) = (120 :: byte)" for fl :: cint
  using and_small[of fl] by (auto simp: flag_defs)

lemma num_tmp_ok:
  assumes "2 \<le> base" "base \<le> 16"
  shows "digits_val base (rev (num_tmp num base fl)) = uint (num_abs num fl)"
    "\<forall>d \<in> set (num_tmp num base fl). \<exists>v. u_digit d = Some v \<and> v < base" "num_tmp num base fl \<noteq> []"
proof -
  have lc: "ucast (fl AND SMALL) = (0 :: byte) \<or> ucast (fl AND SMALL) = (32 :: byte)"
    using and_small[of fl] by (auto simp: flag_defs)
  have z: "u_digit 48 = Some 0" "digits_val base [48] = 0" by (simp_all add: u_digit_def digits_val_def) code_simp
  note nd = number_digits_val[OF assms lc, of "num_abs num fl"]
  show "digits_val base (rev (num_tmp num base fl)) = uint (num_abs num fl)"
    "\<forall>d \<in> set (num_tmp num base fl). \<exists>v. u_digit d = Some v \<and> v < base"
    using nd z assms by (auto simp: num_tmp_def)
  have "number_digits (word_of_int base) (num_abs num fl) (ucast (fl AND SMALL)) \<noteq> []" if "num_abs num fl \<noteq> 0"
    using nd that by (auto simp: digits_val_def unsigned_eq_0_iff)
  then show "num_tmp num base fl \<noteq> []" by (simp add: num_tmp_def)
qed

lemma num_sign_cases:
  "num_sign num fl \<in> {[], [43], [32]} \<and> num_abs num fl = num \<or>
   num_sign num fl = [45] \<and> num_abs num fl = - num"
  by (auto simp: num_sign_def num_abs_def sign_char_def)

lemma num_special_cases:
  "num_special base fl = [] \<or> base = 8 \<and> num_special base fl = [48] \<or>
   base = 16 \<and> fl AND SPECIAL \<noteq> 0 \<and> num_special base fl = [48, 88 OR ucast (fl AND SMALL)]"
  by (auto simp: num_special_def)

lemma number_strtol:
  assumes base: "base = 8 \<or> base = 10 \<or> base = 16" and sp: "base = 16 \<Longrightarrow> fl AND SPECIAL \<noteq> 0 \<Longrightarrow> fl AND SMALL \<noteq> 0"
  shows "\<exists>bs k. number num base sz prec fl = Some bs \<and> u_strtol (bs @ [0]) base = Some (num, replicate k 32 @ [0])"
proof -
  have b: "2 \<le> base" "base \<le> 16" using base by auto
  obtain a z k where shape: "number num base sz prec fl = Some (replicate a 32 @ num_sign num fl @ num_special base fl @
      replicate z 48 @ rev (num_tmp num base fl) @ replicate k 32)"
    using number_shape[OF b, of num sz prec fl] by blast
  let ?s = "num_sign num fl" and ?sp = "num_special base fl" and ?D = "rev (num_tmp num base fl)"
  define ws :: "byte list" where "ws = replicate a 32 @ (if ?s = [32] then [32] else [])"
  define sg where "sg = (if ?s = [43] \<or> ?s = [45] then ?s else [])"
  define pre where "pre = (if base = 16 then ?sp else [])"
  define ds where "ds = (if base = 16 then [] else ?sp) @ replicate z 48 @ ?D"
  obtain c rest where c: "replicate k 32 @ [0] = (c :: byte) # rest" "c = 32 \<or> c = 0" by (cases k) auto
  have parts: "(replicate a 32 @ ?s @ ?sp @ replicate z 48 @ ?D @ replicate k 32) @ [0] = ws @ sg @ pre @ ds @ c # rest"
    using num_sign_cases[of num fl] c(1) by (auto simp: ws_def sg_def pre_def ds_def)
  have "\<exists>v. u_digit d = Some v \<and> v < base" if "d \<in> set ds" for d
  proof -
    have "d = 48 \<or> d \<in> set (num_tmp num base fl)" using that num_special_cases[of base fl] by (auto simp: ds_def split: if_splits)
    moreover have "u_digit 48 = Some 0" by (simp add: u_digit_def)
    ultimately show ?thesis using num_tmp_ok(2)[OF b, of num fl] b by auto
  qed
  moreover have "pre = [] \<or> base = 16 \<and> pre = [48, 120]"
    using num_special_cases[of base fl] sp small_special[of fl] by (auto simp: pre_def)
  ultimately have "u_strtol (ws @ sg @ pre @ ds @ c # rest) base =
      Some (word_of_int ((if sg = [45] then -1 else 1) * digits_val base ds), c # rest)"
    using c(2) b num_tmp_ok(3)[OF b, of num fl]
    by (intro u_strtol_num) (auto simp: ws_def sg_def ds_def u_digit_def)
  moreover have "digits_val base ds = uint (num_abs num fl)"
  proof -
    have "ds = replicate (length (if base = 16 then [] else ?sp) + z) 48 @ ?D"
      using num_special_cases[of base fl] by (auto simp: ds_def)
    then show ?thesis using num_tmp_ok(1)[OF b, of num fl] by (simp add: digits_val_zeros)
  qed
  moreover have "(word_of_int ((if sg = [45] then -1 else 1) * uint (num_abs num fl)) :: long) = num"
    using num_sign_cases[of num fl] by (auto simp: sg_def)
  ultimately show ?thesis using shape parts c(1) by metis
qed

section \<open>Printing to a buffer, in one go\<close>

lemma put_Nil [simp]: "put m p [] = m"
  by (simp add: put_def)

lemma sprintputch_step:
  "sprintputch ch (b, m) =
     (if sb_buf b < sb_ebuf b then
        map_option (\<lambda>m'. (b\<lparr>sb_cnt := sb_cnt b + 1, sb_buf := sb_buf b + 1\<rparr>, m')) (storen m (sb_buf b) [ch])
      else Some (b\<lparr>sb_cnt := sb_cnt b + 1\<rparr>, m))"
  by (simp add: sprintputch_def)

lemma putch_all_put:
  assumes "sb_buf b \<le> sb_ebuf b" "sb_ebuf b < length m"
  shows "putch_all (map sprintputch out) (b, m) =
    Some (b\<lparr>sb_buf := sb_buf b + min (sb_ebuf b - sb_buf b) (length out), sb_cnt := sb_cnt b + of_nat (length out)\<rparr>,
          put m (sb_buf b) (take (sb_ebuf b - sb_buf b) out))"
  using assms
proof (induction out arbitrary: b m)
  case (Cons ch out)
  show ?case
  proof (cases "sb_buf b < sb_ebuf b")
    case True
    let ?b = "b\<lparr>sb_cnt := sb_cnt b + 1, sb_buf := sb_buf b + 1\<rparr>" and ?m = "put m (sb_buf b) [ch]"
    obtain d where d: "sb_ebuf b - sb_buf b = Suc d" "sb_ebuf b - (sb_buf b + 1) = d" using True by (cases "sb_ebuf b - sb_buf b") auto
    have st: "storen m (sb_buf b) [ch] = Some ?m" "length ?m = length m" using Cons.prems True by (simp_all add: storen_def put_def)
    have "putch_all (map sprintputch out) (?b, ?m) =
      Some (?b\<lparr>sb_buf := sb_buf b + 1 + min d (length out), sb_cnt := sb_cnt b + 1 + of_nat (length out)\<rparr>,
          put ?m (sb_buf b + 1) (take d out))"
      using Cons.IH[of ?b ?m] Cons.prems True st(2) d by simp
    moreover have "put ?m (sb_buf b + 1) (take d out) = put m (sb_buf b) (ch # take d out)"
      by (rule put_Cons) (use Cons.prems d in simp)
    ultimately show ?thesis using True st(1) d by (simp add: sprintputch_step algebra_simps)
  next
    case False
    then show ?thesis using Cons.IH[of "b\<lparr>sb_cnt := sb_cnt b + 1\<rparr>" m] Cons.prems
      by (simp add: sprintputch_step algebra_simps)
  qed
qed simp

lemma put_snoc: "p + length bs < length m \<Longrightarrow> storen (put m p bs) (p + length bs) [c] = Some (put m p (bs @ [c]))"
  by (simp add: storen_def put_def)

lemma u_vsnprintf_put:
  assumes "vprintfmt fmt ap = Some (out, sts)" "0 < sz" "str + sz \<le> length m"
  shows "u_vsnprintf m str sz fmt ap = Some (of_nat (length out), put m str (take (sz - 1) out @ [0]))"
proof -
  let ?b = "\<lparr>sb_buf = str, sb_ebuf = str + sz - 1, sb_cnt = 0\<rparr>"
  have "putch_all (map sprintputch out) (?b, m) =
    Some (?b\<lparr>sb_buf := str + min (sz - 1) (length out), sb_cnt := of_nat (length out)\<rparr>, put m str (take (sz - 1) out))"
    using putch_all_put[of ?b m out] assms by simp
  moreover have "storen (put m str (take (sz - 1) out)) (str + min (sz - 1) (length out)) [0] = Some (put m str (take (sz - 1) out @ [0]))"
    using put_snoc[of str "take (sz - 1) out" m 0] assms by (simp add: min.commute)
  ultimately show ?thesis using assms by (simp add: u_vsnprintf_def)
qed

lemma vprintfmt_nul: "vprintfmt fmt ap = Some (out, sts) \<Longrightarrow> \<exists>text. out = text @ [0] \<and> 0 \<notin> set text \<and> length text < BUFLEN"
proof -
  assume "vprintfmt fmt ap = Some (out, sts)"
  then obtain tx where "out = takeWhile (\<lambda>c. c \<noteq> 0) tx @ [0]" "length tx < BUFLEN"
    by (auto simp: vprintfmt_def split: option.splits if_splits)
  then show ?thesis using length_takeWhile_le[of "\<lambda>c. c \<noteq> 0" tx]
    by (intro exI[of _ "takeWhile (\<lambda>c. c \<noteq> 0) tx"]) (auto dest: set_takeWhileD)
qed

lemma fmt_loop_plain: "0 \<notin> set s \<Longrightarrow> 37 \<notin> set s \<Longrightarrow> fmt_loop (s @ [0]) ap buf = Some (buf @ s, [])"
  by (induction s arbitrary: buf) auto

section \<open>Properties\<close>

text \<open>
  C23: numbers survive printing and parsing. Whatever the field width, the precision and the flags (for
  base 16 with a prefix: lower case), the text that \<open>number\<close> writes in base 8, 10 or 16 is read back by
  \<open>strtol\<close> as the same 64-bit value, and only blanks follow the number.
\<close>

theorem number_roundtrip:
  assumes "base = 8 \<or> base = 10 \<or> base = 16" "base = 16 \<Longrightarrow> fl AND SPECIAL \<noteq> 0 \<Longrightarrow> fl AND SMALL \<noteq> 0"
  shows "\<exists>bs k. number num base sz prec fl = Some bs \<and> u_strtol (bs @ [0]) base = Some (num, replicate k 32 @ [0])"
  by (rule number_strtol[OF assms])

theorem number_roundtrip_witness:
  "\<exists>bs k. number (- 42) 10 8 5 (SIGN OR LEFT) = Some bs \<and> u_strtol (bs @ [0]) 10 = Some (- 42, replicate k 32 @ [0])"
  by (rule number_roundtrip) simp_all

text \<open>
  the text of \<open>number\<close> fills its field: it has exactly as many characters as the larger of the field
  width and what sign, prefix and digits (or the precision) need, so a field is never truncated.
\<close>

theorem number_width:
  assumes "2 \<le> base" "base \<le> 16"
  shows "\<exists>bs. number num base sz prec fl = Some bs \<and>
    int (length bs) = max sz (int (length (num_sign num fl)) + int (length (num_special base fl)) +
      max (int (length (num_tmp num base fl))) prec)"
  using number_shape[OF assms, of num sz prec fl] by (auto simp: num_pad_def num_zeros_def max_def)

theorem number_width_witness:
  "\<exists>bs. number 255 16 6 (- 1) SPECIAL = Some bs \<and>
    int (length bs) = max 6 (int (length (num_sign 255 SPECIAL)) + int (length (num_special 16 SPECIAL)) +
      max (int (length (num_tmp 255 16 SPECIAL))) (- 1))"
  by (rule number_width) simp_all

text \<open>
  \<open>vsnprintf\<close> of uCore stays within its buffer. If the text of the format is \<open>text\<close>, it stores the
  first \<open>size - 1\<close> characters of \<open>text\<close> with its terminator, then a terminator, changes no byte outside
  the \<open>size\<close> bytes at \<open>str\<close>, and returns the length of \<open>text\<close> plus one, because the terminator that
  \<open>vprintfmt\<close> sends is counted as well. For size 0 it returns \<open>-E_INVAL\<close> and touches nothing.
\<close>

theorem u_vsnprintf_correct:
  assumes "vprintfmt fmt ap = Some (out, sts)" "str + sz \<le> length m"
  shows "\<exists>text. out = text @ [0] \<and> 0 \<notin> set text \<and>
    u_vsnprintf m str sz fmt ap =
      (if sz = 0 then Some (- E_INVAL, m)
       else Some (of_nat (length text) + 1, put m str (take (sz - 1) (text @ [0]) @ [0])))"
proof (cases "sz = 0")
  case True
  then show ?thesis using vprintfmt_nul[OF assms(1)] by (auto simp: u_vsnprintf_def)
next
  case False
  then show ?thesis using vprintfmt_nul[OF assms(1)] u_vsnprintf_put[OF assms(1), of sz str m] assms(2)
    by (auto simp: add.commute)
qed

theorem u_vsnprintf_correct_witness:
  "\<exists>text. [104, 105, 0] = text @ [0] \<and> u_vsnprintf [1, 1, 1] 0 2 (lit ''hi'') [] =
     Some (of_nat (length text) + 1, put [1, 1, 1] 0 (take (2 - 1) (text @ [0]) @ [0]))"
proof -
  have "vprintfmt (lit ''hi'') [] = Some ([104, 105, 0], [])" by code_simp
  from u_vsnprintf_correct[OF this, of 0 2 "[1, 1, 1]"] show ?thesis by simp
qed

text \<open>
  a format without directives of at least 1024 characters overruns the buffer on the stack of
  \<open>vprintfmt\<close>; one character less is printed.
\<close>

theorem vprintfmt_overflow:
  assumes "0 \<notin> set s" "37 \<notin> set s"
  shows "vprintfmt (s @ [0]) ap = None \<longleftrightarrow> 1024 \<le> length s"
  using fmt_loop_plain[OF assms, of ap "[]"] by (simp add: vprintfmt_def BUFLEN_def)

theorem vprintfmt_overflow_witness: "vprintfmt (replicate 1024 65 @ [0]) [] = None"
  using vprintfmt_overflow[of "replicate 1024 65" "[]"] by simp

text \<open>
  \<open>%e\<close> is not implemented: the directive is copied to the output and takes no argument, although the
  comment at the head of the file promises the text of an error code.
\<close>

theorem percent_e_literal: "vprintfmt (lit ''%e'') [UI i] = Some (bytes_of ''%e'' @ [0], [])"
proof -
  have d: "lit ''%e'' = [37, 101, 0]" "bytes_of ''%e'' = [37, 101]" by code_simp+
  have "u_directive [101, 0] [UI i] = Some (\<lparr>u_fl = 0, u_wd = - 1, u_pr = - 1, u_ql = 0\<rparr>, [101, 0], [UI i])"
    by (simp add: u_directive_def u_width_def u_prec_def u_qual_def u_isdigit_def)
  then show ?thesis by (simp add: d vprintfmt_def u_convert_def BUFLEN_def)
qed

end
