(* ===== verification/Ucore_Sys.thy ===== *)
theory Ucore_Sys
  imports Ucore_Printfmt
begin

unbundle bit_operations_syntax

text \<open>
  The system call layer of the uCore user library and what is built on it: \<open>lib/syscall.c\<close> with the call
  numbers of \<open>unistd.h\<close>, and the wrappers and small routines of \<open>lib/file.c\<close>, \<open>lib/ulib.c\<close>, \<open>lib/dir.c\<close>,
  \<open>lib/stdio.c\<close>, \<open>lib/panic.c\<close> and \<open>lib/umain.c\<close>.

  The kernel is a parameter. It is given the call number and the arguments that the wrapper passes, and
  answers with the result register, the error flag of the MIPS convention, the arguments with the objects
  it wrote to, and its next state. An \<open>int\<close> argument is 32 bits; what the registers hold above it, and in
  place of arguments that are not passed, is left to the kernel parameter, whose state may determine it.
  A kernel writes an object only within its size (\<open>fit\<close>).

  \<open>None\<close> is an access outside an object. \<open>uninit\<close> is the byte, any byte, that uninitialised objects hold.
\<close>

section \<open>The kernel and the process\<close>

datatype karg = KI cint | KL long | KP "byte list" | KV "byte list list"

datatype uarch = X86 | RiscV | Arm64 | Mips

type_synonym 'k ukernel = "cint \<Rightarrow> karg list \<Rightarrow> 'k \<Rightarrow> (long \<times> bool) \<times> karg list \<times> 'k"

text \<open>\<open>ubuf\<close> and \<open>ubuf_pos\<close> are \<open>buf\<close> and \<open>buf_pos\<close> of \<open>stdio.c\<close>, \<open>udir\<close> is the one \<open>DIR\<close> of \<open>dir.c\<close>.\<close>

record DIR =
  dir_fd :: cint
  dir_ent :: "byte list"

record 'k ustate =
  ukern :: 'k
  uarch_of :: uarch
  ubuf :: mem
  ubuf_pos :: nat
  udir :: DIR
  uninit :: byte

fun fit1 :: "karg \<Rightarrow> karg \<Rightarrow> karg" where
  "fit1 (KP old) (KP new) = KP (if length new = length old then new else old)"
| "fit1 a b = a"

fun fit :: "karg list \<Rightarrow> karg list \<Rightarrow> karg list" where
  "fit [] bs = []"
| "fit as [] = as"
| "fit (a # as) (b # bs) = fit1 a b # fit as bs"

fun kobj :: "karg \<Rightarrow> byte list" where
  "kobj (KP bs) = bs"
| "kobj _ = []"

section \<open>Call numbers\<close>

datatype ucall = C_exit | C_fork | C_wait | C_exec | C_clone | C_yield | C_sleep | C_kill | C_gettime
  | C_getpid | C_mmap | C_munmap | C_shmem | C_pgdir | C_openat | C_close | C_read | C_write | C_seek
  | C_fstat | C_fsync | C_getcwd | C_getdirentry64 | C_dup3 | C_set_priority

fun sys_x86 :: "ucall \<Rightarrow> cint" where
  "sys_x86 C_exit = 60" | "sys_x86 C_fork = 57" | "sys_x86 C_wait = 61" | "sys_x86 C_exec = 59"
| "sys_x86 C_clone = 56" | "sys_x86 C_yield = 24" | "sys_x86 C_sleep = 35" | "sys_x86 C_kill = 62"
| "sys_x86 C_gettime = 96" | "sys_x86 C_getpid = 39" | "sys_x86 C_mmap = 9" | "sys_x86 C_munmap = 11"
| "sys_x86 C_shmem = - 1" | "sys_x86 C_pgdir = - 1" | "sys_x86 C_openat = 257" | "sys_x86 C_close = 3"
| "sys_x86 C_read = 0" | "sys_x86 C_write = 1" | "sys_x86 C_seek = 8" | "sys_x86 C_fstat = 5"
| "sys_x86 C_fsync = 74" | "sys_x86 C_getcwd = 79" | "sys_x86 C_getdirentry64 = 217"
| "sys_x86 C_dup3 = 292" | "sys_x86 C_set_priority = 141"

definition MIPS_SYSCALL :: cint where "MIPS_SYSCALL = 4000"

fun sys_mips :: "ucall \<Rightarrow> cint" where
  "sys_mips C_exit = MIPS_SYSCALL + 1" | "sys_mips C_fork = MIPS_SYSCALL + 2"
| "sys_mips C_wait = MIPS_SYSCALL + 114" | "sys_mips C_exec = MIPS_SYSCALL + 11"
| "sys_mips C_clone = MIPS_SYSCALL + 120" | "sys_mips C_yield = MIPS_SYSCALL + 162"
| "sys_mips C_sleep = MIPS_SYSCALL + 166" | "sys_mips C_kill = MIPS_SYSCALL + 37"
| "sys_mips C_gettime = MIPS_SYSCALL + 78" | "sys_mips C_getpid = MIPS_SYSCALL + 20"
| "sys_mips C_mmap = MIPS_SYSCALL + 90" | "sys_mips C_munmap = MIPS_SYSCALL + 91"
| "sys_mips C_shmem = - 1" | "sys_mips C_pgdir = - 1" | "sys_mips C_openat = MIPS_SYSCALL + 288"
| "sys_mips C_close = MIPS_SYSCALL + 6" | "sys_mips C_read = MIPS_SYSCALL + 3"
| "sys_mips C_write = MIPS_SYSCALL + 4" | "sys_mips C_seek = MIPS_SYSCALL + 18"
| "sys_mips C_fstat = MIPS_SYSCALL + 198" | "sys_mips C_fsync = MIPS_SYSCALL + 118"
| "sys_mips C_getcwd = MIPS_SYSCALL + 203" | "sys_mips C_getdirentry64 = MIPS_SYSCALL + 219"
| "sys_mips C_dup3 = MIPS_SYSCALL + 327" | "sys_mips C_set_priority = 141"

fun sys_generic :: "ucall \<Rightarrow> cint" where
  "sys_generic C_exit = 93" | "sys_generic C_fork = - 1" | "sys_generic C_wait = 260" | "sys_generic C_exec = 221"
| "sys_generic C_clone = 220" | "sys_generic C_yield = 124" | "sys_generic C_sleep = 101" | "sys_generic C_kill = 129"
| "sys_generic C_gettime = 169" | "sys_generic C_getpid = 172" | "sys_generic C_mmap = 222" | "sys_generic C_munmap = 215"
| "sys_generic C_shmem = - 1" | "sys_generic C_pgdir = - 1" | "sys_generic C_openat = 56" | "sys_generic C_close = 57"
| "sys_generic C_read = 63" | "sys_generic C_write = 64" | "sys_generic C_seek = 62" | "sys_generic C_fstat = 80"
| "sys_generic C_fsync = 82" | "sys_generic C_getcwd = 17" | "sys_generic C_getdirentry64 = 61"
| "sys_generic C_dup3 = 24" | "sys_generic C_set_priority = 140"

definition sys_num :: "uarch \<Rightarrow> ucall \<Rightarrow> cint" where
  "sys_num a = (case a of X86 \<Rightarrow> sys_x86 | Mips \<Rightarrow> sys_mips | _ \<Rightarrow> sys_generic)"

section \<open>System calls\<close>

definition MAX_ARGS :: nat where "MAX_ARGS = 5"

text \<open>\<open>ret\<close> is an \<open>int\<close>: the low half of the result register; on MIPS negated if the flag is set.\<close>

definition u_syscall :: "'k ukernel \<Rightarrow> ucall \<Rightarrow> karg list \<Rightarrow> 'k ustate \<Rightarrow> cint \<times> karg list \<times> 'k ustate" where
  "u_syscall K c as st =
     (let a = take MAX_ARGS as;
          ((v0, a3), a', k') = K (sys_num (uarch_of st) c) a (ukern st)
      in (ucast (if uarch_of st = Mips \<and> a3 then - v0 else v0), fit a a', st\<lparr>ukern := k'\<rparr>))"

text \<open>A call whose objects, if any, are only read.\<close>

definition u_call :: "'k ukernel \<Rightarrow> ucall \<Rightarrow> karg list \<Rightarrow> 'k ustate \<Rightarrow> cint \<times> 'k ustate" where
  "u_call K c as st = (case u_syscall K c as st of (r, _, st') \<Rightarrow> (r, st'))"

definition CLONE_VM :: cint where "CLONE_VM = 0x100"
definition CLONE_VFORK :: cint where "CLONE_VFORK = 0x4000"
definition AT_FDCWD :: cint where "AT_FDCWD = - 100"

definition sys_exit :: "'k ukernel \<Rightarrow> cint \<Rightarrow> 'k ustate \<Rightarrow> cint \<times> 'k ustate" where
  "sys_exit K error_code = u_call K C_exit [KI error_code]"

definition sys_fork :: "'k ukernel \<Rightarrow> 'k ustate \<Rightarrow> cint \<times> 'k ustate" where
  "sys_fork K = u_call K C_clone [KI (CLONE_VFORK OR CLONE_VM OR 17), KI 0]"

definition sys_wait :: "'k ukernel \<Rightarrow> cint \<Rightarrow> karg \<Rightarrow> 'k ustate \<Rightarrow> cint \<times> karg list \<times> 'k ustate" where
  "sys_wait K pid store = u_syscall K C_wait [KI pid, store]"

definition sys_yield :: "'k ukernel \<Rightarrow> 'k ustate \<Rightarrow> cint \<times> 'k ustate" where
  "sys_yield K = u_call K C_yield []"

definition sys_kill :: "'k ukernel \<Rightarrow> cint \<Rightarrow> 'k ustate \<Rightarrow> cint \<times> 'k ustate" where
  "sys_kill K pid = u_call K C_kill [KI pid, KI 9]"

definition sys_getpid :: "'k ukernel \<Rightarrow> 'k ustate \<Rightarrow> cint \<times> 'k ustate" where
  "sys_getpid K = u_call K C_getpid []"

definition sys_pgdir :: "'k ukernel \<Rightarrow> 'k ustate \<Rightarrow> cint \<times> 'k ustate" where
  "sys_pgdir K = u_call K C_pgdir []"

definition sys_set_priority :: "'k ukernel \<Rightarrow> cint \<Rightarrow> 'k ustate \<Rightarrow> 'k ustate" where
  "sys_set_priority K priority st = snd (u_call K C_set_priority [KI priority] st)"

definition sys_sleep :: "'k ukernel \<Rightarrow> cint \<Rightarrow> 'k ustate \<Rightarrow> cint \<times> 'k ustate" where
  "sys_sleep K time = u_call K C_sleep [KI time]"

definition sys_gettime :: "'k ukernel \<Rightarrow> 'k ustate \<Rightarrow> cint \<times> 'k ustate" where
  "sys_gettime K = u_call K C_gettime []"

definition sys_exec :: "'k ukernel \<Rightarrow> karg \<Rightarrow> cint \<Rightarrow> byte list list \<Rightarrow> 'k ustate \<Rightarrow> cint \<times> 'k ustate" where
  "sys_exec K name argc argv = u_call K C_exec [name, KI argc, KV argv]"

definition sys_open :: "'k ukernel \<Rightarrow> byte list \<Rightarrow> cint \<Rightarrow> 'k ustate \<Rightarrow> cint \<times> 'k ustate" where
  "sys_open K path open_flags = u_call K C_openat [KI AT_FDCWD, KP path, KI open_flags]"

definition sys_close :: "'k ukernel \<Rightarrow> cint \<Rightarrow> 'k ustate \<Rightarrow> cint \<times> 'k ustate" where
  "sys_close K fd = u_call K C_close [KI fd]"

definition sys_read :: "'k ukernel \<Rightarrow> cint \<Rightarrow> byte list \<Rightarrow> long \<Rightarrow> 'k ustate \<Rightarrow> cint \<times> karg list \<times> 'k ustate" where
  "sys_read K fd base len = u_syscall K C_read [KI fd, KP base, KL len]"

definition sys_write :: "'k ukernel \<Rightarrow> cint \<Rightarrow> byte list \<Rightarrow> long \<Rightarrow> 'k ustate \<Rightarrow> cint \<times> 'k ustate" where
  "sys_write K fd base len = u_call K C_write [KI fd, KP base, KL len]"

definition sys_seek :: "'k ukernel \<Rightarrow> cint \<Rightarrow> long \<Rightarrow> cint \<Rightarrow> 'k ustate \<Rightarrow> cint \<times> 'k ustate" where
  "sys_seek K fd pos whence = u_call K C_seek [KI fd, KL pos, KI whence]"

definition sys_fstat :: "'k ukernel \<Rightarrow> cint \<Rightarrow> byte list \<Rightarrow> 'k ustate \<Rightarrow> cint \<times> karg list \<times> 'k ustate" where
  "sys_fstat K fd stat = u_syscall K C_fstat [KI fd, KP stat]"

definition sys_fsync :: "'k ukernel \<Rightarrow> cint \<Rightarrow> 'k ustate \<Rightarrow> cint \<times> 'k ustate" where
  "sys_fsync K fd = u_call K C_fsync [KI fd]"

definition sys_getcwd :: "'k ukernel \<Rightarrow> byte list \<Rightarrow> long \<Rightarrow> 'k ustate \<Rightarrow> cint \<times> karg list \<times> 'k ustate" where
  "sys_getcwd K buffer len = u_syscall K C_getcwd [KP buffer, KL len]"

definition sys_getdirentry :: "'k ukernel \<Rightarrow> cint \<Rightarrow> byte list \<Rightarrow> 'k ustate \<Rightarrow> cint \<times> karg list \<times> 'k ustate" where
  "sys_getdirentry K fd dirent = u_syscall K C_getdirentry64 [KI fd, KP dirent]"

definition sys_dup :: "'k ukernel \<Rightarrow> cint \<Rightarrow> cint \<Rightarrow> 'k ustate \<Rightarrow> cint \<times> 'k ustate" where
  "sys_dup K fd1 fd2 = u_call K C_dup3 [KI fd1, KI fd2]"

text \<open>The \<open>int\<close> that \<open>syscall\<close> returns is converted to a pointer; \<open>offset\<close> is the sixth argument.\<close>

definition sys_mmap ::
  "'k ukernel \<Rightarrow> long \<Rightarrow> long \<Rightarrow> cint \<Rightarrow> cint \<Rightarrow> cint \<Rightarrow> long \<Rightarrow> 'k ustate \<Rightarrow> long \<times> 'k ustate"
where
  "sys_mmap K addr len prot flags fd offset st =
     (case u_call K C_mmap [KL addr, KL len, KI prot, KI flags, KI fd, KL offset] st of (r, st') \<Rightarrow> (scast r, st'))"

section \<open>Files\<close>

definition u_open :: "'k ukernel \<Rightarrow> byte list \<Rightarrow> cint \<Rightarrow> 'k ustate \<Rightarrow> cint \<times> 'k ustate" where
  "u_open K path open_flags = sys_open K path open_flags"

definition u_close :: "'k ukernel \<Rightarrow> cint \<Rightarrow> 'k ustate \<Rightarrow> cint \<times> 'k ustate" where
  "u_close K fd = sys_close K fd"

definition u_read :: "'k ukernel \<Rightarrow> cint \<Rightarrow> byte list \<Rightarrow> long \<Rightarrow> 'k ustate \<Rightarrow> cint \<times> byte list \<times> 'k ustate" where
  "u_read K fd base len st = (case sys_read K fd base len st of (r, as, st') \<Rightarrow> (r, kobj (as ! 1), st'))"

definition u_write :: "'k ukernel \<Rightarrow> cint \<Rightarrow> byte list \<Rightarrow> long \<Rightarrow> 'k ustate \<Rightarrow> cint \<times> 'k ustate" where
  "u_write K fd base len = sys_write K fd base len"

definition u_seek :: "'k ukernel \<Rightarrow> cint \<Rightarrow> long \<Rightarrow> cint \<Rightarrow> 'k ustate \<Rightarrow> cint \<times> 'k ustate" where
  "u_seek K fd pos whence = sys_seek K fd pos whence"

definition u_fstat :: "'k ukernel \<Rightarrow> cint \<Rightarrow> byte list \<Rightarrow> 'k ustate \<Rightarrow> cint \<times> byte list \<times> 'k ustate" where
  "u_fstat K fd stat st = (case sys_fstat K fd stat st of (r, as, st') \<Rightarrow> (r, kobj (as ! 1), st'))"

definition u_fsync :: "'k ukernel \<Rightarrow> cint \<Rightarrow> 'k ustate \<Rightarrow> cint \<times> 'k ustate" where
  "u_fsync K fd = sys_fsync K fd"

definition u_dup2 :: "'k ukernel \<Rightarrow> cint \<Rightarrow> cint \<Rightarrow> 'k ustate \<Rightarrow> cint \<times> 'k ustate" where
  "u_dup2 K fd1 fd2 = sys_dup K fd1 fd2"

section \<open>Standard output\<close>

definition STDIN :: cint where "STDIN = 0"
definition STDOUT :: cint where "STDOUT = 1"

text \<open>A \<open>char\<close> as an \<open>int\<close>: signed on x86 and MIPS, unsigned on the others.\<close>

definition char_int :: "uarch \<Rightarrow> byte \<Rightarrow> cint" where
  "char_int a c = (if a = X86 \<or> a = Mips then scast c else ucast c)"

text \<open>\<open>fputch\<close> works on the counter \<open>cnt\<close> and the state; a null byte flushes the buffer.\<close>

definition fputch :: "'k ukernel \<Rightarrow> cint \<Rightarrow> byte \<Rightarrow> cint \<times> 'k ustate \<Rightarrow> (cint \<times> 'k ustate) option" where
  "fputch K fd c = (\<lambda>(cnt, st).
     if c \<noteq> 0 then
       map_option (\<lambda>b. (cnt, st\<lparr>ubuf := b, ubuf_pos := ubuf_pos st + 1\<rparr>)) (storen (ubuf st) (ubuf_pos st) [c])
     else
       (case u_write K fd (ubuf st) (of_nat (ubuf_pos st)) st of
          (_, st') \<Rightarrow> Some (of_nat (ubuf_pos st), st'\<lparr>ubuf_pos := 0\<rparr>)))"

definition cputch :: "'k ukernel \<Rightarrow> byte \<Rightarrow> cint \<times> 'k ustate \<Rightarrow> (cint \<times> 'k ustate) option" where
  "cputch K c = fputch K STDOUT c"

text \<open>The printers return the count, the values stored by \<open>%n\<close>, and the state.\<close>

definition vcprintf :: "'k ukernel \<Rightarrow> byte list \<Rightarrow> uarg list \<Rightarrow> 'k ustate \<Rightarrow> (cint \<times> nat list \<times> 'k ustate) option" where
  "vcprintf K fmt ap st = do {
     (out, sts) \<leftarrow> vprintfmt fmt ap;
     (cnt, st') \<leftarrow> putch_all (map (cputch K) out) (0, st);
     Some (cnt, sts, st') }"

definition cprintf :: "'k ukernel \<Rightarrow> byte list \<Rightarrow> uarg list \<Rightarrow> 'k ustate \<Rightarrow> (cint \<times> nat list \<times> 'k ustate) option" where
  "cprintf K fmt ap st = vcprintf K fmt ap st"

fun cputs_loop :: "'k ukernel \<Rightarrow> byte list \<Rightarrow> cint \<times> 'k ustate \<Rightarrow> (cint \<times> 'k ustate) option" where
  "cputs_loop K [] s = None"
| "cputs_loop K (c # str) s = (if c \<noteq> 0 then Option.bind (cputch K c s) (cputs_loop K str) else Some s)"

definition cputs :: "'k ukernel \<Rightarrow> byte list \<Rightarrow> 'k ustate \<Rightarrow> (cint \<times> 'k ustate) option" where
  "cputs K str st = do { s \<leftarrow> cputs_loop K str (0, st); cputch K 10 s }"

definition vfprintf ::
  "'k ukernel \<Rightarrow> cint \<Rightarrow> byte list \<Rightarrow> uarg list \<Rightarrow> 'k ustate \<Rightarrow> (cint \<times> nat list \<times> 'k ustate) option"
where
  "vfprintf K fd fmt ap st = do {
     (out, sts) \<leftarrow> vprintfmt fmt ap;
     (cnt, st') \<leftarrow> putch_all (map (fputch K fd) out) (0, st);
     Some (cnt, sts, st') }"

definition u_fprintf ::
  "'k ukernel \<Rightarrow> cint \<Rightarrow> byte list \<Rightarrow> uarg list \<Rightarrow> 'k ustate \<Rightarrow> (cint \<times> nat list \<times> 'k ustate) option"
where
  "u_fprintf K fd fmt ap st = vfprintf K fd fmt ap st"

definition getchar :: "'k ukernel \<Rightarrow> 'k ustate \<Rightarrow> cint \<times> 'k ustate" where
  "getchar K st =
     (case u_read K STDIN [uninit st] 1 st of
        (result, c, st') \<Rightarrow> (if result <s 0 then - 1 else char_int (uarch_of st) (c ! 0), st'))"

section \<open>Processes\<close>

text \<open>
  \<open>exit\<close>: the state in which the process spins if the kernel lets \<open>sys_exit\<close> return. \<open>umain\<close> runs \<open>main\<close>
  and exits with its result.
\<close>

definition u_exit :: "'k ukernel \<Rightarrow> cint \<Rightarrow> 'k ustate \<Rightarrow> 'k ustate option" where
  "u_exit K error_code st =
     map_option (\<lambda>(_, _, st'). st')
       (cprintf K (lit (''BUG: exit failed.'' @ [CHR 0x0A])) [] (snd (sys_exit K error_code st)))"

definition umain :: "'k ukernel \<Rightarrow> ('k ustate \<Rightarrow> (cint \<times> 'k ustate) option) \<Rightarrow> 'k ustate \<Rightarrow> 'k ustate option" where
  "umain K main st = do { (ret, st') \<leftarrow> main st; u_exit K ret st' }"

definition u_fork :: "'k ukernel \<Rightarrow> 'k ustate \<Rightarrow> cint \<times> 'k ustate" where
  "u_fork K = sys_fork K"

definition u_wait :: "'k ukernel \<Rightarrow> 'k ustate \<Rightarrow> cint \<times> 'k ustate" where
  "u_wait K st = (case sys_wait K 0 (KL 0) st of (r, _, st') \<Rightarrow> (r, st'))"

text \<open>\<open>store\<close> is the object of an \<open>int\<close>, or \<open>NULL\<close>.\<close>

definition u_waitpid :: "'k ukernel \<Rightarrow> cint \<Rightarrow> karg \<Rightarrow> 'k ustate \<Rightarrow> cint \<times> byte list \<times> 'k ustate" where
  "u_waitpid K pid store st = (case sys_wait K pid store st of (r, as, st') \<Rightarrow> (r, kobj (as ! 1), st'))"

definition u_yield :: "'k ukernel \<Rightarrow> 'k ustate \<Rightarrow> 'k ustate" where
  "u_yield K st = snd (sys_yield K st)"

definition u_kill :: "'k ukernel \<Rightarrow> cint \<Rightarrow> 'k ustate \<Rightarrow> cint \<times> 'k ustate" where
  "u_kill K pid = sys_kill K pid"

definition u_getpid :: "'k ukernel \<Rightarrow> 'k ustate \<Rightarrow> cint \<times> 'k ustate" where
  "u_getpid K = sys_getpid K"

definition print_pgdir :: "'k ukernel \<Rightarrow> 'k ustate \<Rightarrow> 'k ustate" where
  "print_pgdir K st = snd (sys_pgdir K st)"

definition lab6_set_priority :: "'k ukernel \<Rightarrow> cint \<Rightarrow> 'k ustate \<Rightarrow> 'k ustate" where
  "lab6_set_priority K priority = sys_set_priority K priority"

definition u_sleep :: "'k ukernel \<Rightarrow> cint \<Rightarrow> 'k ustate \<Rightarrow> cint \<times> 'k ustate" where
  "u_sleep K time = sys_sleep K time"

definition gettime_msec :: "'k ukernel \<Rightarrow> 'k ustate \<Rightarrow> cint \<times> 'k ustate" where
  "gettime_msec K = sys_gettime K"

text \<open>\<open>argv\<close> without its terminating null pointer, which the counting loop runs to.\<close>

definition s_exec :: "'k ukernel \<Rightarrow> karg \<Rightarrow> byte list list \<Rightarrow> 'k ustate \<Rightarrow> cint \<times> 'k ustate" where
  "s_exec K name argv = sys_exec K name (of_nat (length argv)) argv"

definition E_PANIC :: cint where "E_PANIC = 10"

text \<open>The common text of \<open>__panic\<close> and \<open>__warn\<close>, which differ in the first word and in the exit.\<close>

definition s_warn ::
  "'k ukernel \<Rightarrow> byte list \<Rightarrow> cint \<Rightarrow> byte list \<Rightarrow> uarg list \<Rightarrow> 'k ustate \<Rightarrow> 'k ustate option"
where
  "s_warn K file line fmt ap st = do {
     (_, _, st1) \<leftarrow> cprintf K (lit (''user warning at %s:%d:'' @ [CHR 0x0A] @ ''    '')) [US file, UI line] st;
     (_, _, st2) \<leftarrow> vcprintf K fmt ap st1;
     (_, _, st3) \<leftarrow> cprintf K (lit [CHR 0x0A]) [] st2;
     Some st3 }"

definition s_panic ::
  "'k ukernel \<Rightarrow> byte list \<Rightarrow> cint \<Rightarrow> byte list \<Rightarrow> uarg list \<Rightarrow> 'k ustate \<Rightarrow> 'k ustate option"
where
  "s_panic K file line fmt ap st = do {
     (_, _, st1) \<leftarrow> cprintf K (lit (''user panic at %s:%d:'' @ [CHR 0x0A] @ ''    '')) [US file, UI line] st;
     (_, _, st2) \<leftarrow> vcprintf K fmt ap st1;
     (_, _, st3) \<leftarrow> cprintf K (lit [CHR 0x0A]) [] st2;
     u_exit K (- E_PANIC) st3 }"

section \<open>File attributes and directories\<close>

text \<open>The fields of \<open>struct stat\<close>, which is 120 bytes long, by the layout of the port.\<close>

definition STAT_SIZE :: nat where "STAT_SIZE = 120"

definition st_mode :: "uarch \<Rightarrow> byte list \<Rightarrow> cint" where
  "st_mode a s = from_le (take 4 (drop (if a = X86 then 24 else 16) s))"

definition st_nlinks :: "uarch \<Rightarrow> byte list \<Rightarrow> long" where
  "st_nlinks a s =
     (if a = X86 then from_le (take 8 (drop 16 s)) else ucast (from_le (take 4 (drop 20 s)) :: cint))"

definition st_size :: "uarch \<Rightarrow> byte list \<Rightarrow> long" where
  "st_size a s = from_le (take 8 (drop 48 s))"

definition st_blocks :: "uarch \<Rightarrow> byte list \<Rightarrow> long" where
  "st_blocks a s = from_le (take 8 (drop 64 s))"

definition S_IFMT :: cint where "S_IFMT = 0xF000"
definition S_ISREG :: "cint \<Rightarrow> bool" where "S_ISREG m \<longleftrightarrow> m AND S_IFMT = 0x8000"
definition S_ISDIR :: "cint \<Rightarrow> bool" where "S_ISDIR m \<longleftrightarrow> m AND S_IFMT = 0x4000"
definition S_ISLNK :: "cint \<Rightarrow> bool" where "S_ISLNK m \<longleftrightarrow> m AND S_IFMT = 0xA000"
definition S_ISCHR :: "cint \<Rightarrow> bool" where "S_ISCHR m \<longleftrightarrow> m AND S_IFMT = 0x2000"
definition S_ISBLK :: "cint \<Rightarrow> bool" where "S_ISBLK m \<longleftrightarrow> m AND S_IFMT = 0x6000"

definition transmode :: "cint \<Rightarrow> byte" where
  "transmode mode =
     (if S_ISREG mode then 114 else if S_ISDIR mode then 100 else if S_ISLNK mode then 108
      else if S_ISCHR mode then 99 else if S_ISBLK mode then 98 else 45)"

definition print_stat :: "'k ukernel \<Rightarrow> byte list \<Rightarrow> cint \<Rightarrow> byte list \<Rightarrow> 'k ustate \<Rightarrow> 'k ustate option" where
  "print_stat K name fd s st = (let a = uarch_of st; nl = [CHR 0x0A] in do {
     (_, _, st1) \<leftarrow> cprintf K (lit (''[%03d] %s'' @ nl)) [UI fd, US name] st;
     (_, _, st2) \<leftarrow> cprintf K (lit (''    mode    : %c'' @ nl)) [UI (ucast (transmode (st_mode a s)))] st1;
     (_, _, st3) \<leftarrow> cprintf K (lit (''    links   : %lu'' @ nl)) [UL (st_nlinks a s)] st2;
     (_, _, st4) \<leftarrow> cprintf K (lit (''    blocks  : %lu'' @ nl)) [UL (st_blocks a s)] st3;
     (_, _, st5) \<leftarrow> cprintf K (lit (''    size    : %lu'' @ nl)) [UL (st_size a s)] st4;
     Some st5 })"

definition U_O_RDONLY :: cint where "U_O_RDONLY = 0"

text \<open>\<open>opendir\<close> returns \<open>dirp\<close> (\<open>True\<close>) or the null pointer; the directory entry keeps its name.\<close>

definition opendir :: "'k ukernel \<Rightarrow> byte list \<Rightarrow> 'k ustate \<Rightarrow> bool \<times> 'k ustate" where
  "opendir K path st =
     (let (fd, st1) = u_open K path U_O_RDONLY st;
          st2 = st1\<lparr>udir := (udir st1)\<lparr>dir_fd := fd\<rparr>\<rparr>
      in if fd <s 0 then (False, st2)
      else
        (let (r, s, st3) = u_fstat K fd (replicate STAT_SIZE (uninit st2)) st2
         in if r \<noteq> 0 \<or> \<not> S_ISDIR (st_mode (uarch_of st3) s) then (False, st3)
         else (True, st3\<lparr>udir := (udir st3)\<lparr>dir_ent := [0, 0, 0, 0] @ drop 4 (dir_ent (udir st3))\<rparr>\<rparr>)))"

definition readdir :: "'k ukernel \<Rightarrow> 'k ustate \<Rightarrow> byte list option \<times> 'k ustate" where
  "readdir K st =
     (let (r, as, st1) = sys_getdirentry K (dir_fd (udir st)) (dir_ent (udir st)) st;
          st2 = st1\<lparr>udir := (udir st1)\<lparr>dir_ent := kobj (as ! 1)\<rparr>\<rparr>
      in (if r = 0 then Some (dir_ent (udir st2)) else None, st2))"

definition closedir :: "'k ukernel \<Rightarrow> 'k ustate \<Rightarrow> 'k ustate" where
  "closedir K st = snd (u_close K (dir_fd (udir st)) st)"

definition u_getcwd :: "'k ukernel \<Rightarrow> byte list \<Rightarrow> long \<Rightarrow> 'k ustate \<Rightarrow> cint \<times> byte list \<times> 'k ustate" where
  "u_getcwd K buffer len st = (case sys_getcwd K buffer len st of (r, as, st') \<Rightarrow> (r, kobj (as ! 0), st'))"

section \<open>The output buffer\<close>

text \<open>
  \<open>stdio_ok\<close>: the buffer has its size and the position lies in it. \<open>pending\<close>: the bytes that wait in it.
\<close>

definition stdio_ok :: "'k ustate \<Rightarrow> bool" where
  "stdio_ok st \<longleftrightarrow> length (ubuf st) = 1024 \<and> ubuf_pos st \<le> 1024"

definition pending :: "'k ustate \<Rightarrow> byte list" where
  "pending st = take (ubuf_pos st) (ubuf st)"

lemma stdio_okI [intro]: "length (ubuf st) = 1024 \<Longrightarrow> ubuf_pos st \<le> 1024 \<Longrightarrow> stdio_ok st"
  by (simp add: stdio_ok_def)

lemma length_pending [simp]: "stdio_ok st \<Longrightarrow> length (pending st) = ubuf_pos st"
  by (simp add: stdio_ok_def pending_def)

lemma u_call_simps [simp]:
  "ubuf (snd (u_call K c as st)) = ubuf st" "ubuf_pos (snd (u_call K c as st)) = ubuf_pos st"
  "uarch_of (snd (u_call K c as st)) = uarch_of st" "udir (snd (u_call K c as st)) = udir st"
  "uninit (snd (u_call K c as st)) = uninit st"
  by (simp_all add: u_call_def u_syscall_def Let_def split_beta)

lemma ukern_u_call:
  "ukern (snd (u_call K c as st)) = snd (snd (K (sys_num (uarch_of st) c) (take MAX_ARGS as) (ukern st)))"
  by (simp add: u_call_def u_syscall_def Let_def split_beta)

text \<open>The state after \<open>s\<close> has been put in the buffer.\<close>

definition buffered :: "byte list \<Rightarrow> 'k ustate \<Rightarrow> 'k ustate" where
  "buffered s st = st\<lparr>ubuf := put (ubuf st) (ubuf_pos st) s, ubuf_pos := ubuf_pos st + length s\<rparr>"

lemma buffered_Nil [simp]: "buffered [] st = st"
  by (simp add: buffered_def)

lemma buffered_ok:
  assumes "stdio_ok st" "ubuf_pos st + length s \<le> 1024"
  shows "stdio_ok (buffered s st)" "pending (buffered s st) = pending st @ s"
  using assms by (auto simp: stdio_ok_def buffered_def pending_def put_def min_absorb2)

lemma buffered_Cons:
  assumes "stdio_ok st" "ubuf_pos st + length (c # s) \<le> 1024"
  shows "buffered s (buffered [c] st) = buffered (c # s) st"
  using assms put_Cons[of "ubuf_pos st" s "ubuf st" c] by (simp add: buffered_def stdio_ok_def)

lemma fputch_buffered:
  assumes "stdio_ok st" "ubuf_pos st < 1024" "c \<noteq> 0"
  shows "fputch K fd c (cnt, st) = Some (cnt, buffered [c] st)"
  using assms by (simp add: fputch_def storen_def buffered_def put_def stdio_ok_def)

lemma fputch_all_buffered:
  assumes "stdio_ok st" "ubuf_pos st + length s \<le> 1024" "0 \<notin> set s"
  shows "putch_all (map (fputch K fd) s @ rest) (cnt, st) = putch_all rest (cnt, buffered s st)"
  using assms
proof (induction s arbitrary: st)
  case (Cons c s)
  then have "fputch K fd c (cnt, st) = Some (cnt, buffered [c] st)" by (intro fputch_buffered) auto
  moreover have "stdio_ok (buffered [c] st)" using Cons.prems by (intro buffered_ok) auto
  ultimately show ?case using Cons.IH[of "buffered [c] st"] Cons.prems buffered_Cons[of st c s]
    by (simp add: buffered_def)
qed simp

lemma cputs_loop_buffered:
  assumes "stdio_ok st" "ubuf_pos st + length s \<le> 1024" "0 \<notin> set s"
  shows "cputs_loop K (s @ [0]) (cnt, st) = Some (cnt, buffered s st)"
  using assms
proof (induction s arbitrary: st)
  case (Cons c s)
  then have "fputch K STDOUT c (cnt, st) = Some (cnt, buffered [c] st)" by (intro fputch_buffered) auto
  moreover have "stdio_ok (buffered [c] st)" using Cons.prems by (intro buffered_ok) auto
  ultimately show ?case using Cons.IH[of "buffered [c] st"] Cons.prems buffered_Cons[of st c s]
    by (simp add: cputch_def) (simp add: buffered_def)
qed simp

lemma fputch_flush:
  "fputch K fd 0 (cnt, st) =
     Some (of_nat (ubuf_pos st), (snd (u_write K fd (ubuf st) (of_nat (ubuf_pos st)) st))\<lparr>ubuf_pos := 0\<rparr>)"
  by (simp add: fputch_def split: prod.splits)

text \<open>A formatted print: everything pending and the text go out in one write.\<close>

definition flushed :: "'k ukernel \<Rightarrow> cint \<Rightarrow> 'k ustate \<Rightarrow> 'k ustate" where
  "flushed K fd st = (snd (u_write K fd (ubuf st) (of_nat (ubuf_pos st)) st))\<lparr>ubuf_pos := 0\<rparr>"

lemma flushed_ok: "stdio_ok st \<Longrightarrow> stdio_ok (flushed K fd st) \<and> pending (flushed K fd st) = []"
  by (simp add: stdio_ok_def pending_def flushed_def u_write_def sys_write_def)

lemma vfprintf_flushed:
  assumes "vprintfmt fmt ap = Some (out @ [0], sts)" "stdio_ok st" "ubuf_pos st + length out \<le> 1024" "0 \<notin> set out"
  shows "vfprintf K fd fmt ap st =
    Some (of_nat (ubuf_pos st + length out), sts, flushed K fd (buffered out st))"
  using assms fputch_all_buffered[of st out K fd "[fputch K fd 0]" 0]
  by (simp add: vfprintf_def fputch_flush flushed_def) (simp add: buffered_def)

lemma vcprintf_vfprintf: "vcprintf K = vfprintf K STDOUT"
proof -
  have "cputch K = fputch K STDOUT" by (rule ext) (simp add: cputch_def)
  then show ?thesis by (intro ext) (simp only: vcprintf_def vfprintf_def)
qed

section \<open>Properties\<close>

text \<open>
  formatted output reaches the kernel. If the text of the format fits the 1024-byte buffer together
  with the bytes that wait there, \<open>fprintf\<close> makes exactly one system call, a write to \<open>fd\<close> of the waiting
  bytes followed by the text, returns their number, and leaves the buffer empty.
\<close>

theorem fprintf_writes:
  assumes "vprintfmt fmt ap = Some (out @ [0], sts)" "0 \<notin> set out" "stdio_ok st"
    and "length (pending st @ out) \<le> 1024"
  shows "\<exists>b st'. u_fprintf K fd fmt ap st = Some (of_nat (length (pending st @ out)), sts, st') \<and>
    take (length (pending st @ out)) b = pending st @ out \<and>
    ukern st' = snd (snd (K (sys_num (uarch_of st) C_write)
      [KI fd, KP b, KL (of_nat (length (pending st @ out)))] (ukern st))) \<and>
    stdio_ok st' \<and> pending st' = []"
proof -
  let ?s = "buffered out st"
  have fits: "ubuf_pos st + length out \<le> 1024" using assms(3,4) by simp
  note b = buffered_ok[OF assms(3) fits]
  have pos: "ubuf_pos ?s = length (pending st @ out)" using assms(3) by (simp add: buffered_def)
  show ?thesis
  proof (intro exI conjI)
    show "u_fprintf K fd fmt ap st = Some (of_nat (length (pending st @ out)), sts, flushed K fd ?s)"
      using vfprintf_flushed[OF assms(1,3) fits assms(2)] assms(3) by (simp add: u_fprintf_def)
    show "take (length (pending st @ out)) (ubuf ?s) = pending st @ out" using b(2) pos by (simp add: pending_def)
    show "ukern (flushed K fd ?s) = snd (snd (K (sys_num (uarch_of st) C_write)
      [KI fd, KP (ubuf ?s), KL (of_nat (length (pending st @ out)))] (ukern st)))"
      using pos by (simp add: flushed_def u_write_def sys_write_def ukern_u_call MAX_ARGS_def) (simp add: buffered_def)
  qed (use flushed_ok[OF b(1)] in auto)
qed

text \<open>A kernel that keeps the calls it gets and answers 0.\<close>

definition log_kernel :: "(cint \<times> karg list) list ukernel" where
  "log_kernel n as k = ((0, False), as, k @ [(n, as)])"

definition ustate0 :: "'k \<Rightarrow> 'k ustate" where
  "ustate0 k = \<lparr>ukern = k, uarch_of = X86, ubuf = replicate 1024 0, ubuf_pos = 0,
     udir = \<lparr>dir_fd = 0, dir_ent = replicate 260 0\<rparr>, uninit = 0\<rparr>"

lemma ustate0_ok [simp]: "stdio_ok (ustate0 k)" "pending (ustate0 k) = []"
  by (simp_all add: stdio_ok_def pending_def ustate0_def)

lemma vprintfmt_hi: "vprintfmt (lit ''hi'') [] = Some ([104, 105] @ [0], [])"
  by code_simp

theorem fprintf_writes_witness:
  "\<exists>b st'. u_fprintf log_kernel 1 (lit ''hi'') [] (ustate0 []) = Some (2, [], st') \<and> take 2 b = [104, 105] \<and>
     ukern st' = [(1, [KI 1, KP b, KL 2])]"
proof -
  have "\<exists>b st'. u_fprintf log_kernel 1 (lit ''hi'') [] (ustate0 []) = Some (2, [], st') \<and>
      take (Suc (Suc 0)) b = [104, 105] \<and> ukern st' = [(1, [KI 1, KP b, KL 2])]"
    using fprintf_writes[OF vprintfmt_hi _ ustate0_ok(1)[of "[]"], of log_kernel 1]
    by (auto simp: log_kernel_def sys_num_def ustate0_def pending_def)
  then show ?thesis unfolding numeral_2_eq_2 .
qed

text \<open>
  \<open>cputs\<close> prints nothing by itself. As long as the buffer has room, the string and the newline only
  join the bytes that wait there, the result is 0 and the kernel is not called; the next formatted
  print sends them, to its own file descriptor.
\<close>

theorem cputs_deferred:
  assumes "0 \<notin> set s" "stdio_ok st" "length (pending st @ s) < 1024"
  shows "\<exists>st'. cputs K (s @ [0]) st = Some (0, st') \<and> ukern st' = ukern st \<and> stdio_ok st' \<and>
    pending st' = pending st @ s @ [10]"
proof -
  have fits: "ubuf_pos st + length s < 1024" using assms(2,3) by simp
  note b = buffered_ok[OF assms(2), of s]
  have pos: "ubuf_pos (buffered s st) < 1024" using fits by (simp add: buffered_def)
  have "cputs K (s @ [0]) st = Some (0, buffered [10] (buffered s st))"
    using cputs_loop_buffered[OF assms(2) _ assms(1), of K 0] fits b(1) pos
    by (simp add: cputs_def cputch_def fputch_buffered)
  moreover have "ukern (buffered [10] (buffered s st)) = ukern st" by (simp add: buffered_def)
  moreover have "stdio_ok (buffered [10] (buffered s st))" "pending (buffered [10] (buffered s st)) = pending st @ s @ [10]"
    using buffered_ok[of "buffered s st" "[10]"] b fits pos by simp_all
  ultimately show ?thesis by blast
qed

theorem cputs_deferred_witness:
  "\<exists>st'. cputs log_kernel ([104, 105] @ [0]) (ustate0 []) = Some (0, st') \<and> ukern st' = [] \<and> pending st' = [104, 105, 10]"
  using cputs_deferred[of "[104, 105]" "ustate0 []" log_kernel] by (auto simp: ustate0_def pending_def stdio_ok_def)

text \<open>
  \<open>sys_mmap\<close> cannot deliver an address. The kernel never sees the offset, the sixth argument, and the
  pointer returned is the sign-extended low half of the kernel's answer, so it is the right one only
  for addresses that fit a signed 32-bit number.
\<close>

theorem sys_mmap_loses:
  assumes "K (sys_num (uarch_of st) C_mmap) [KL addr, KL len, KI prot, KI flags, KI fd] (ukern st) = ((r, False), as, k)"
  shows "sys_mmap K addr len prot flags fd offset st = (scast (ucast r :: cint), st\<lparr>ukern := k\<rparr>) \<and>
    (fst (sys_mmap K addr len prot flags fd offset st) = r \<longleftrightarrow> - (2 ^ 31) \<le> sint r \<and> sint r < 2 ^ 31)"
proof -
  have "scast (ucast r :: cint) = r \<longleftrightarrow> - (2 ^ 31) \<le> sint r \<and> sint r < 2 ^ 31"
  proof
    assume e: "scast (ucast r :: cint) = r"
    have "sint (ucast r :: cint) = sint r" using sint_scast_long[of "ucast r"] e by simp
    then show "- (2 ^ 31) \<le> sint r \<and> sint r < 2 ^ 31"
      using sint_ge[of "ucast r :: cint"] sint_lt[of "ucast r :: cint"] by simp
  next
    assume "- (2 ^ 31) \<le> sint r \<and> sint r < 2 ^ 31"
    then have "signed_take_bit 31 (sint r) = sint r" by (intro signed_take_bit_int_eq_self) auto
    moreover have "sint (ucast r :: cint) = signed_take_bit 31 (sint r)"
      by (simp add: signed_ucast_eq sint_uint[of r] signed_take_bit_signed_take_bit)
    ultimately have "sint (ucast r :: cint) = sint r" by simp
    then show "scast (ucast r :: cint) = r" using sint_scast_long[of "ucast r"] signed_word_eqI by metis
  qed
  with assms show ?thesis by (simp add: sys_mmap_def u_call_def u_syscall_def MAX_ARGS_def)
qed

definition addr_kernel :: "long \<Rightarrow> unit ukernel" where
  "addr_kernel r n as k = ((r, False), as, k)"

theorem sys_mmap_loses_witness:
  "fst (sys_mmap (addr_kernel 0x180000000) 0 4096 2 0 (- 1) 0 (ustate0 ())) = 0xFFFFFFFF80000000"
  using conjunct1[OF sys_mmap_loses[of "addr_kernel 0x180000000" "ustate0 ()" 0 4096 2 0 "- 1" "0x180000000"]]
  by (simp add: addr_kernel_def)

end
