(* ===== verification/Ucore_Sh.thy ===== *)
theory Ucore_Sh
  imports Ucore_Sys
begin

unbundle bit_operations_syntax

text \<open>
  The uCore shell (\<open>sh.c\<close>): the tokenizer, the line editor, redirection, the command interpreter and the
  main loop, over the system calls and the printer of the library.

  A pointer into the line is an offset into the line buffer, which the tokenizer changes in place; the
  object that a pointer stands for in a system call is the buffer from that offset on. \<open>None\<close> is an access
  outside an object, or, for \<open>readline\<close> and \<open>main\<close>, a loop that does not end. The process that goes on
  after \<open>fork\<close> is the one the kernel's answer says.
\<close>

section \<open>The tokenizer\<close>

definition BUFSIZE :: nat where "BUFSIZE = 4096"

definition WHITESPACE :: "byte list" where "WHITESPACE = lit ('' '' @ [CHR 0x09, CHR 0x0D, CHR 0x0A])"

definition SYMBOLS :: "byte list" where "SYMBOLS = lit ''<|>&;''"

definition WHITESPACE_SYMBOLS :: "byte list" where
  "WHITESPACE_SYMBOLS = lit ('' '' @ [CHR 0x09, CHR 0x0D, CHR 0x0A] @ ''<|>&;'')"

text \<open>\<open>strchr(s, c) != NULL\<close> for a string literal \<open>s\<close>.\<close>

definition in_chars :: "byte list \<Rightarrow> byte \<Rightarrow> bool" where
  "in_chars s c \<longleftrightarrow> (case u_strchr s c of Some (Some _) \<Rightarrow> True | _ \<Rightarrow> False)"

text \<open>The loop over white space, which it overwrites with null bytes.\<close>

function gt_skip :: "mem \<Rightarrow> nat \<Rightarrow> (mem \<times> nat) option" where
  "gt_skip m s =
     (if s < length m then
        (if in_chars WHITESPACE (m ! s) then gt_skip (m[s := 0]) (s + 1) else Some (m, s))
      else None)"
  by pat_completeness auto
termination
  by (relation "measure (\<lambda>(m, s). length m - s)") auto

declare gt_skip.simps [simp del]

text \<open>The loop over a word; a quotation mark becomes a blank and toggles \<open>flag\<close>.\<close>

function gt_word :: "mem \<Rightarrow> nat \<Rightarrow> bool \<Rightarrow> (mem \<times> nat) option" where
  "gt_word m s flag =
     (if s < length m then
        (if m ! s \<noteq> 0 \<and> (flag \<or> \<not> in_chars WHITESPACE_SYMBOLS (m ! s)) then
           (if m ! s = 34 then gt_word (m[s := 32]) (s + 1) (\<not> flag) else gt_word m (s + 1) flag)
         else Some (m, s))
      else None)"
  by pat_completeness auto
termination
  by (relation "measure (\<lambda>(m, s, flag). length m - s)") auto

declare gt_word.simps [simp del]

text \<open>\<open>*p1 = (*s != 0 ? s : NULL)\<close>\<close>

definition gt_next :: "mem \<Rightarrow> nat \<Rightarrow> nat option option" where
  "gt_next m s = (if s < length m then Some (if m ! s \<noteq> 0 then Some s else None) else None)"

text \<open>
  \<open>gettoken\<close>: the token, 0 at the end, the new \<open>*p1\<close>, what is stored in \<open>*p2\<close> if anything, and the buffer.
\<close>

definition gettoken :: "mem \<Rightarrow> nat option \<Rightarrow> (byte \<times> nat option \<times> nat option \<times> mem) option" where
  "gettoken m p1 =
     (case p1 of
        None \<Rightarrow> Some (0, p1, None, m)
      | Some s0 \<Rightarrow> do {
          (m1, s) \<leftarrow> gt_skip m s0;
          if m1 ! s = 0 then Some (0, p1, None, m1)
          else if in_chars SYMBOLS (m1 ! s) then do {
            nxt \<leftarrow> gt_next (m1[s := 0]) (s + 1);
            Some (m1 ! s, nxt, Some s, m1[s := 0]) }
          else do {
            (m2, s2) \<leftarrow> gt_word m1 s False;
            nxt \<leftarrow> gt_next m2 s2;
            Some (119, nxt, Some s, m2) } })"

section \<open>The shell's memory and its printing\<close>

record 'k sh =
  sh_line :: mem
  sh_cwd :: mem
  sh_argv0 :: mem
  sh_st :: "'k ustate"

definition sh_printf :: "'k ukernel \<Rightarrow> byte list \<Rightarrow> uarg list \<Rightarrow> 'k ustate \<Rightarrow> 'k ustate option" where
  "sh_printf K fmt ap st = map_option (\<lambda>(_, _, st'). st') (u_fprintf K 1 fmt ap st)"

definition sh_putc :: "'k ukernel \<Rightarrow> byte \<Rightarrow> 'k ustate \<Rightarrow> 'k ustate option" where
  "sh_putc K c st = sh_printf K (lit ''%c'') [UI (char_int (uarch_of st) c)] st"

section \<open>Reading a line\<close>

text \<open>
  The loop of \<open>readline\<close>: \<open>i\<close> characters are in the buffer. The result tells whether a line was read, and
  gives the buffer and the state.
\<close>

partial_function (option) readline_loop ::
  "'k ukernel \<Rightarrow> nat \<Rightarrow> mem \<Rightarrow> 'k ustate \<Rightarrow> (bool \<times> mem \<times> 'k ustate) option"
where
  "readline_loop K i buffer st =
     (let (ret, cs, st1) = u_read K 0 [uninit st] 1 st; c = cs ! 0
      in if ret <s 0 then Some (False, buffer, st1)
      else if ret = 0 then
        (if i > 0 then map_option (\<lambda>b. (True, b, st1)) (storen buffer i [0]) else Some (False, buffer, st1))
      else if c = 3 then Some (False, buffer, st1)
      else if 32 \<le>s char_int (uarch_of st) c \<and> i < BUFSIZE - 1 then
        Option.bind (sh_putc K c st1) (\<lambda>st2. Option.bind (storen buffer i [c]) (\<lambda>b. readline_loop K (i + 1) b st2))
      else if c = 8 \<and> i > 0 then
        Option.bind (sh_putc K c st1) (\<lambda>st2. readline_loop K (i - 1) buffer st2)
      else if c = 10 \<or> c = 13 then
        Option.bind (sh_putc K 10 st1) (\<lambda>st2. map_option (\<lambda>b. (True, b, st2)) (storen buffer i [0]))
      else readline_loop K i buffer st1)"

definition readline ::
  "'k ukernel \<Rightarrow> byte list option \<Rightarrow> mem \<Rightarrow> 'k ustate \<Rightarrow> (bool \<times> mem \<times> 'k ustate) option"
where
  "readline K prompt buffer st =
     (case prompt of
        None \<Rightarrow> readline_loop K 0 buffer st
      | Some p \<Rightarrow> Option.bind (sh_printf K (lit ''%s'') [US p] st) (readline_loop K 0 buffer))"

definition usage :: "'k ukernel \<Rightarrow> 'k ustate \<Rightarrow> 'k ustate option" where
  "usage K st = sh_printf K (lit (''usage: sh [command-file]'' @ [CHR 0x0A])) [] st"

section \<open>Files\<close>

definition reopen :: "'k ukernel \<Rightarrow> cint \<Rightarrow> byte list \<Rightarrow> cint \<Rightarrow> 'k ustate \<Rightarrow> cint \<times> 'k ustate" where
  "reopen K fd2 filename open_flags st =
     (let (_, st1) = u_close K fd2 st;
          (fd1, st2) = u_open K filename open_flags st1;
          (ret, st3) =
            (if \<not> fd1 <s 0 \<and> fd1 \<noteq> fd2 then
               (let (_, s1) = u_close K fd2 st2;
                    (ret, s2) = u_dup2 K fd1 fd2 s1;
                    (_, s3) = u_close K fd1 s2
                in (ret, s3))
             else (fd1, st2))
      in (if ret <s 0 then ret else 0, st3))"

definition testfile :: "'k ukernel \<Rightarrow> byte list \<Rightarrow> 'k ustate \<Rightarrow> cint \<times> 'k ustate" where
  "testfile K name st =
     (let (ret, st1) = u_open K name U_O_RDONLY st
      in if ret <s 0 then (ret, st1) else (0, snd (u_close K ret st1)))"

section \<open>Running a command\<close>

definition EXEC_MAX_ARG_NUM :: nat where "EXEC_MAX_ARG_NUM = 32"
definition E_NOENT :: cint where "E_NOENT = 16"
definition U_O_RDWR :: cint where "U_O_RDWR = 2"
definition U_O_CREAT :: cint where "U_O_CREAT = 0x4"
definition U_O_TRUNC :: cint where "U_O_TRUNC = 0x10"

text \<open>How the loop over the tokens goes on: return, run the command, start over, or read the next token.\<close>

datatype sh_next = ShReturn cint | ShRunit | ShAgain | ShMore

definition sh_say :: "'k ukernel \<Rightarrow> byte list \<Rightarrow> uarg list \<Rightarrow> 'k sh \<Rightarrow> 'k sh option" where
  "sh_say K fmt ap s = map_option (\<lambda>st. s\<lparr>sh_st := st\<rparr>) (sh_printf K fmt ap (sh_st s))"

text \<open>The cases \<open>'<'\<close> and \<open>'>'\<close>.\<close>

definition sh_redirect ::
  "'k ukernel \<Rightarrow> cint \<Rightarrow> cint \<Rightarrow> byte list \<Rightarrow> nat option \<Rightarrow> nat list \<Rightarrow> 'k sh \<Rightarrow>
   (sh_next \<times> nat option \<times> nat list \<times> 'k sh) option"
where
  "sh_redirect K fd flags msg cmd argv s =
     (case gettoken (sh_line s) cmd of
        None \<Rightarrow> None
      | Some (token, cmd', t, m) \<Rightarrow>
          (let s1 = s\<lparr>sh_line := m\<rparr> in
           if token \<noteq> 119 then map_option (\<lambda>s2. (ShReturn (- 1), cmd', argv, s2)) (sh_say K msg [] s1)
           else
             (let (ret, st) = reopen K fd (drop (the t) m) flags (sh_st s1); s2 = s1\<lparr>sh_st := st\<rparr>
              in Some (if ret \<noteq> 0 then ShReturn ret else ShMore, cmd', argv, s2))))"

text \<open>The case \<open>'|'\<close>; the call of \<open>pipe\<close> is commented out, and both elements of \<open>p\<close> are 0.\<close>

definition sh_pipe :: "'k ukernel \<Rightarrow> 'k ustate \<Rightarrow> sh_next \<times> 'k ustate" where
  "sh_pipe K st =
     (let (ret, st1) = u_fork K st
      in if ret = 0 then
        (let (_, st2) = u_close K 0 st1; (r, st3) = u_dup2 K 0 0 st2
         in if r <s 0 then (ShReturn r, st3)
         else (ShAgain, snd (u_close K 0 (snd (u_close K 0 st3)))))
      else if ret <s 0 then (ShReturn ret, st1)
      else
        (let (_, st2) = u_close K 1 st1; (r, st3) = u_dup2 K 0 1 st2
         in if r <s 0 then (ShReturn r, st3)
         else (ShRunit, snd (u_close K 0 (snd (u_close K 0 st3))))))"

text \<open>The case \<open>';'\<close>: the child runs the command, the parent waits and goes on with the line.\<close>

definition sh_seq :: "'k ukernel \<Rightarrow> 'k ustate \<Rightarrow> sh_next \<times> 'k ustate" where
  "sh_seq K st =
     (let (ret, st1) = u_fork K st
      in if ret = 0 then (ShRunit, st1)
      else if ret <s 0 then (ShReturn ret, st1)
      else (let (_, _, st2) = u_waitpid K ret (KL 0) st1 in (ShAgain, st2)))"

text \<open>One round of the loop: a token and its case.\<close>

definition runcmd_step ::
  "'k ukernel \<Rightarrow> nat option \<Rightarrow> nat list \<Rightarrow> 'k sh \<Rightarrow> (sh_next \<times> nat option \<times> nat list \<times> 'k sh) option"
where
  "runcmd_step K cmd argv s0 =
     (case gettoken (sh_line s0) cmd of
        None \<Rightarrow> None
      | Some (token, cmd1, t, m) \<Rightarrow>
          (let s = s0\<lparr>sh_line := m\<rparr>; nl = [CHR 0x0A] in
           if token = 119 then
             (if length argv = EXEC_MAX_ARG_NUM then
                map_option (\<lambda>s'. (ShReturn (- 1), cmd1, argv, s')) (sh_say K (lit (''sh error: too many arguments'' @ nl)) [] s)
              else Some (ShMore, cmd1, argv @ [the t], s))
           else if token = 60 then
             sh_redirect K 0 U_O_RDONLY (lit (''sh error: syntax error: < not followed by word'' @ nl)) cmd1 argv s
           else if token = 62 then
             sh_redirect K 1 (U_O_RDWR OR U_O_TRUNC OR U_O_CREAT)
               (lit (''sh error: syntax error: > not followed by word'' @ nl)) cmd1 argv s
           else if token = 124 then
             (let (n, st) = sh_pipe K (sh_st s) in Some (n, cmd1, argv, s\<lparr>sh_st := st\<rparr>))
           else if token = 0 then Some (ShRunit, cmd1, argv, s)
           else if token = 59 then
             (let (n, st) = sh_seq K (sh_st s) in Some (n, cmd1, argv, s\<lparr>sh_st := st\<rparr>))
           else
             map_option (\<lambda>s'. (ShReturn (- 1), cmd1, argv, s'))
               (sh_say K (lit (''sh error: bad return %d from gettoken'' @ nl)) [UI (ucast token)] s)))"

text \<open>The label \<open>runit\<close>; the words are offsets in the line, \<open>strcpy\<close> works on the line followed by \<open>shcwd\<close>.\<close>

definition sh_cd :: "nat \<Rightarrow> 'k sh \<Rightarrow> 'k sh option" where
  "sh_cd t s =
     map_option (\<lambda>(_, m). s\<lparr>sh_cwd := drop (length (sh_line s)) m\<rparr>)
       (u_strcpy (sh_line s @ sh_cwd s) (length (sh_line s)) t)"

definition runit :: "'k ukernel \<Rightarrow> nat list \<Rightarrow> 'k sh \<Rightarrow> (cint \<times> 'k sh) option" where
  "runit K argv s =
     (case argv of
        [] \<Rightarrow> Some (0, s)
      | t0 # ts \<Rightarrow>
          (let arg = (\<lambda>t. drop t (sh_line s)) in do {
             c \<leftarrow> u_strcmp (arg t0) (lit ''cd'');
             if c = 0 then
               (case ts of
                  [t1] \<Rightarrow> map_option (Pair 0) (sh_cd t1 s)
                | _ \<Rightarrow> Some (- 1, s))
             else
               (let (ret, st1) = testfile K (arg t0) (sh_st s); s1 = s\<lparr>sh_st := st1\<rparr>
                in if ret \<noteq> 0 \<and> ret \<noteq> - E_NOENT then Some (ret, s1)
                else do {
                  (a0, s2) \<leftarrow>
                    (if ret \<noteq> 0 then
                       map_option (\<lambda>(_, m). (m, s1\<lparr>sh_argv0 := m\<rparr>))
                         (u_snprintf (sh_argv0 s1) 0 BUFSIZE (lit ''/%s'') [US (arg t0)])
                     else Some (arg t0, s1));
                  let (r, st2) = s_exec K (KL 0) (a0 # map arg ts) (sh_st s2) in Some (r, s2\<lparr>sh_st := st2\<rparr>) }) }))"

text \<open>
  Every token takes the cursor forward: \<open>left\<close> is the number of characters from the cursor on. This is
  what makes the loop of \<open>runcmd\<close> end.
\<close>

fun left :: "nat \<Rightarrow> nat option \<Rightarrow> nat" where
  "left n None = 0"
| "left n (Some s) = Suc n - s"

lemma gt_skip_bounds: "gt_skip m s = Some (m', s') \<Longrightarrow> s \<le> s' \<and> s' < length m' \<and> length m' = length m"
proof (induction m s rule: gt_skip.induct)
  case (1 m s)
  from "1.prems" show ?case
    by (subst (asm) gt_skip.simps) (use "1.IH" in \<open>fastforce split: if_splits\<close>)
qed

lemma gt_word_bounds: "gt_word m s f = Some (m', s') \<Longrightarrow> s \<le> s' \<and> s' < length m' \<and> length m' = length m"
proof (induction m s f rule: gt_word.induct)
  case (1 m s f)
  from "1.prems" show ?case
    by (subst (asm) gt_word.simps) (use "1.IH" in \<open>fastforce split: if_splits\<close>)
qed

lemma symbols_words: "in_chars WHITESPACE_SYMBOLS c \<longleftrightarrow> in_chars WHITESPACE c \<or> in_chars SYMBOLS c"
  by (simp add: in_chars_def WHITESPACE_SYMBOLS_def WHITESPACE_def SYMBOLS_def lit_def bytes_of_def)

lemma gt_skip_stops: "gt_skip m s = Some (m', s') \<Longrightarrow> \<not> in_chars WHITESPACE (m' ! s')"
proof (induction m s rule: gt_skip.induct)
  case (1 m s)
  from "1.prems" show ?case
    by (subst (asm) gt_skip.simps) (use "1.IH" in \<open>fastforce split: if_splits\<close>)
qed

lemma gt_word_starts:
  assumes "gt_word m s f = Some (m', s')" "m ! s \<noteq> 0" "\<not> in_chars WHITESPACE_SYMBOLS (m ! s)"
  shows "s < s'"
proof -
  have "\<exists>m1 f1. gt_word m1 (s + 1) f1 = Some (m', s')"
    using assms by (subst (asm) gt_word.simps) (auto split: if_splits)
  then show ?thesis using gt_word_bounds by (metis Suc_eq_plus1 Suc_le_lessD)
qed

lemma gt_next_Some: "gt_next m s = Some p \<Longrightarrow> left n p \<le> Suc n - s"
  by (auto simp: gt_next_def split: if_splits)

lemma gettoken_progress:
  assumes "gettoken m cmd = Some (token, cmd', t, m')"
  shows "length m' = length m" "left (length m') cmd' \<le> left (length m) cmd"
    "token \<noteq> 0 \<Longrightarrow> left (length m') cmd' < left (length m) cmd \<and> (\<exists>s. t = Some s \<and> s < length m)"
proof -
  have "length m' = length m \<and> left (length m') cmd' \<le> left (length m) cmd \<and>
    (token \<noteq> 0 \<longrightarrow> left (length m') cmd' < left (length m) cmd \<and> (\<exists>s. t = Some s \<and> s < length m))"
  proof (cases cmd)
    case None
    then show ?thesis using assms by (simp add: gettoken_def)
  next
    case (Some s0)
    then obtain m1 s where k: "gt_skip m s0 = Some (m1, s)"
      using assms by (auto simp: gettoken_def bind_eq_Some_conv)
    note b = gt_skip_bounds[OF k]
    consider "m1 ! s = 0" | "m1 ! s \<noteq> 0" "in_chars SYMBOLS (m1 ! s)" | "m1 ! s \<noteq> 0" "\<not> in_chars SYMBOLS (m1 ! s)"
      by blast
    then show ?thesis
    proof cases
      case 1
      then show ?thesis using assms k Some b by (simp add: gettoken_def)
    next
      case 2
      then show ?thesis using assms k Some b
        by (auto simp: gettoken_def bind_eq_Some_conv dest!: gt_next_Some[where n = "length m"])
    next
      case 3
      then obtain s2 where w: "gt_word m1 s False = Some (m', s2)" "gt_next m' s2 = Some cmd'" "t = Some s"
        using assms k Some by (auto simp: gettoken_def bind_eq_Some_conv)
      have "s < s2" using gt_word_starts[OF w(1)] 3 gt_skip_stops[OF k] symbols_words by blast
      then show ?thesis using gt_word_bounds[OF w(1)] gt_next_Some[OF w(2), of "length m"] b w(3) Some by auto
    qed
  qed
  then show "length m' = length m" "left (length m') cmd' \<le> left (length m) cmd"
    "token \<noteq> 0 \<Longrightarrow> left (length m') cmd' < left (length m) cmd \<and> (\<exists>s. t = Some s \<and> s < length m)" by blast+
qed

lemma sh_say_line: "sh_say K fmt ap s = Some s' \<Longrightarrow> sh_line s' = sh_line s"
  by (auto simp: sh_say_def)

lemma sh_redirect_progress:
  assumes "sh_redirect K fd flags msg cmd argv s = Some (n, cmd', argv', s')"
  shows "length (sh_line s') = length (sh_line s)"
    "left (length (sh_line s')) cmd' \<le> left (length (sh_line s)) cmd"
proof -
  obtain tk t m where g: "gettoken (sh_line s) cmd = Some (tk, cmd', t, m)" and "sh_line s' = m"
    using assms by (auto simp: sh_redirect_def Let_def split: option.splits prod.splits if_splits dest!: sh_say_line)
  then show "length (sh_line s') = length (sh_line s)"
    "left (length (sh_line s')) cmd' \<le> left (length (sh_line s)) cmd"
    using gettoken_progress(1,2)[OF g] by simp_all
qed

lemma runcmd_step_progress:
  assumes "runcmd_step K cmd argv s = Some (n, cmd', argv', s')"
  shows "length (sh_line s') = length (sh_line s)"
    "n = ShMore \<or> n = ShAgain \<Longrightarrow> left (length (sh_line s')) cmd' < left (length (sh_line s)) cmd"
proof -
  obtain tk cmd1 t m where g: "gettoken (sh_line s) cmd = Some (tk, cmd1, t, m)"
    using assms by (auto simp: runcmd_step_def split: option.splits)
  note p = gettoken_progress[OF g]
  have "length (sh_line s') = length (sh_line s) \<and>
    (n = ShMore \<or> n = ShAgain \<longrightarrow> left (length (sh_line s')) cmd' < left (length (sh_line s)) cmd)"
  proof (cases "tk = 60 \<or> tk = 62")
    case True
    then obtain fd flags msg where "sh_redirect K fd flags msg cmd1 argv (s\<lparr>sh_line := m\<rparr>) = Some (n, cmd', argv', s')"
      using assms g by (auto simp: runcmd_step_def)
    from sh_redirect_progress[OF this] p True show ?thesis by auto
  next
    case False
    then have "sh_line s' = m" "cmd' = cmd1" "n = ShMore \<or> n = ShAgain \<Longrightarrow> tk \<noteq> 0"
      using assms g by (auto simp: runcmd_step_def Let_def split: if_splits prod.splits dest!: sh_say_line)
    then show ?thesis using p by auto
  qed
  then show "length (sh_line s') = length (sh_line s)"
    "n = ShMore \<or> n = ShAgain \<Longrightarrow> left (length (sh_line s')) cmd' < left (length (sh_line s)) cmd" by blast+
qed

function runcmd_loop :: "'k ukernel \<Rightarrow> nat option \<Rightarrow> nat list \<Rightarrow> 'k sh \<Rightarrow> (cint \<times> 'k sh) option" where
  "runcmd_loop K cmd argv s =
     (case runcmd_step K cmd argv s of
        None \<Rightarrow> None
      | Some (ShReturn r, cmd', argv', s') \<Rightarrow> Some (r, s')
      | Some (ShRunit, cmd', argv', s') \<Rightarrow> runit K argv' s'
      | Some (ShAgain, cmd', argv', s') \<Rightarrow> runcmd_loop K cmd' [] s'
      | Some (ShMore, cmd', argv', s') \<Rightarrow> runcmd_loop K cmd' argv' s')"
  by pat_completeness auto
termination
  by (relation "measure (\<lambda>(K, cmd, argv, s). left (length (sh_line s)) cmd)")
    (auto dest!: runcmd_step_progress(2))

declare runcmd_loop.simps [simp del]

text \<open>\<open>runcmd\<close> on the line in the buffer.\<close>

definition runcmd :: "'k ukernel \<Rightarrow> 'k sh \<Rightarrow> (cint \<times> 'k sh) option" where
  "runcmd K s = runcmd_loop K (Some 0) [] s"

section \<open>The main loop\<close>

text \<open>How the program ends: \<open>main\<close> returns, or \<open>exit\<close> is called with a code.\<close>

datatype shend = MainReturns cint | Exits cint

text \<open>
  One line: \<open>None\<close> in the first component if the loop goes on. The status that \<open>waitpid\<close> stores is an \<open>int\<close>
  in memory. The assertion fails if \<open>fork\<close> does; \<open>line\<close> is its line number.
\<close>

definition sh_command :: "'k ukernel \<Rightarrow> 'k sh \<Rightarrow> (shend option \<times> 'k sh) option" where
  "sh_command K s0 = do {
     cwd \<leftarrow> storen (sh_cwd s0) 0 [0];
     let s = s0\<lparr>sh_cwd := cwd\<rparr>;
     let (pid, st1) = u_fork K (sh_st s);
     let s1 = s\<lparr>sh_st := st1\<rparr>;
     if pid = 0 then do {
       (ret, s2) \<leftarrow> runcmd K s1;
       st \<leftarrow> u_exit K ret (sh_st s2);
       Some (Some (Exits ret), s2\<lparr>sh_st := st\<rparr>) }
     else if pid <s 0 then do {
       st \<leftarrow> s_panic K (lit ''sh.c'') 242 (lit ''assertion failed: %s'') [US (lit ''pid >= 0'')] st1;
       Some (Some (Exits (- E_PANIC)), s1\<lparr>sh_st := st\<rparr>) }
     else
       (let (r, store, st2) = u_waitpid K pid (KP (replicate 4 (uninit st1))) st1;
            s2 = s1\<lparr>sh_st := st2\<rparr>;
            ret = from_le store :: cint
        in if r = pid \<and> ret \<noteq> 0 then
          map_option (Pair None) (sh_say K (lit (''error: %d - %e'' @ [CHR 0x0A])) [UI ret, UI ret] s2)
        else Some (None, s2)) }"

partial_function (option) sh_loop :: "'k ukernel \<Rightarrow> byte list option \<Rightarrow> 'k sh \<Rightarrow> (shend \<times> 'k sh) option" where
  "sh_loop K prompt s =
     Option.bind (readline K prompt (sh_line s) (sh_st s)) (\<lambda>(ok, line, st).
       let s1 = s\<lparr>sh_line := line, sh_st := st\<rparr> in
       if \<not> ok then Some (MainReturns 0, s1)
       else Option.bind (sh_command K s1) (\<lambda>(e, s2).
         case e of Some x \<Rightarrow> Some (x, s2) | None \<Rightarrow> sh_loop K prompt s2))"

definition sh_main :: "'k ukernel \<Rightarrow> byte list list \<Rightarrow> 'k sh \<Rightarrow> (shend \<times> 'k sh) option" where
  "sh_main K argv s0 = do {
     s \<leftarrow> sh_say K (lit ''user sh is running!!!'') [] s0;
     if length argv = 2 then
       (let (ret, st) = reopen K 0 (argv ! 1) U_O_RDONLY (sh_st s); s1 = s\<lparr>sh_st := st\<rparr>
        in if ret \<noteq> 0 then Some (MainReturns ret, s1) else sh_loop K None s1)
     else if length argv > 2 then
       map_option (\<lambda>st. (MainReturns (- 1), s\<lparr>sh_st := st\<rparr>)) (usage K (sh_st s))
     else sh_loop K (Some (lit ''$ '')) s }"

section \<open>What the tokenizer does\<close>

text \<open>White space, and the characters that words are made of: no quotation mark, no null byte.\<close>

definition blanks :: "byte list \<Rightarrow> bool" where
  "blanks b \<longleftrightarrow> (\<forall>c \<in> set b. in_chars WHITESPACE c)"

definition plain :: "byte list \<Rightarrow> bool" where
  "plain w \<longleftrightarrow> w \<noteq> [] \<and> (\<forall>c \<in> set w. c \<noteq> 0 \<and> c \<noteq> 34 \<and> \<not> in_chars WHITESPACE_SYMBOLS c)"

abbreviation zeros :: "'a list \<Rightarrow> byte list" where
  "zeros b \<equiv> replicate (length b) 0"

lemma not_in_chars_0 [simp]:
  "\<not> in_chars WHITESPACE 0" "\<not> in_chars SYMBOLS 0" "\<not> in_chars WHITESPACE_SYMBOLS 0"
  by (simp_all add: in_chars_def WHITESPACE_SYMBOLS_def WHITESPACE_def SYMBOLS_def lit_def bytes_of_def)

lemma blanks_simps [simp]: "blanks []" "blanks (c # b) \<longleftrightarrow> in_chars WHITESPACE c \<and> blanks b"
  by (auto simp: blanks_def)

lemma plain_Cons: "plain (c # w) \<Longrightarrow> c \<noteq> 0 \<and> c \<noteq> 34 \<and> \<not> in_chars WHITESPACE c \<and> \<not> in_chars SYMBOLS c"
  by (auto simp: plain_def symbols_words)

lemma plain_nz: "plain w \<Longrightarrow> 0 \<notin> set w"
  by (auto simp: plain_def)

lemma gt_skip_blanks:
  assumes "blanks b" "\<not> in_chars WHITESPACE c"
  shows "gt_skip (pre @ b @ c # rest) (length pre) = Some (pre @ zeros b @ c # rest, length pre + length b)"
  using assms(1)
proof (induction b arbitrary: pre)
  case Nil
  then show ?case using assms(2) by (subst gt_skip.simps) simp
next
  case (Cons x b)
  have "gt_skip (pre @ (x # b) @ c # rest) (length pre) = gt_skip ((pre @ [0]) @ b @ c # rest) (length (pre @ [0]))"
    using Cons.prems by (subst gt_skip.simps) simp
  then show ?case using Cons.IH[of "pre @ [0]"] Cons.prems by simp
qed

lemma gt_word_plain:
  assumes "\<forall>x \<in> set w. x \<noteq> 0 \<and> x \<noteq> 34 \<and> \<not> in_chars WHITESPACE_SYMBOLS x" "c = 0 \<or> in_chars WHITESPACE_SYMBOLS c"
  shows "gt_word (pre @ w @ c # rest) (length pre) False = Some (pre @ w @ c # rest, length pre + length w)"
  using assms(1)
proof (induction w arbitrary: pre)
  case Nil
  then show ?case using assms(2) by (subst gt_word.simps) auto
next
  case (Cons x w)
  have "gt_word (pre @ (x # w) @ c # rest) (length pre) False =
      gt_word ((pre @ [x]) @ w @ c # rest) (length (pre @ [x])) False"
    using Cons.prems by (subst gt_word.simps) simp
  then show ?case using Cons.IH[of "pre @ [x]"] Cons.prems by simp
qed

lemma gettoken_word:
  assumes "blanks b" "plain w" "c = 0 \<or> in_chars WHITESPACE_SYMBOLS c"
  shows "gettoken (pre @ b @ w @ c # rest) (Some (length pre)) =
    Some (119, if c = 0 then None else Some (length pre + length b + length w), Some (length pre + length b),
      pre @ zeros b @ w @ c # rest)"
proof -
  obtain x w' where w: "w = x # w'" using assms(2) by (cases w) (auto simp: plain_def)
  note x = plain_Cons[OF assms(2)[unfolded w]]
  let ?p = "pre @ zeros b"
  have k: "gt_skip (pre @ b @ w @ c # rest) (length pre) = Some (?p @ w @ c # rest, length pre + length b)"
    using gt_skip_blanks[OF assms(1), of x pre "w' @ c # rest"] x w by simp
  have g: "gt_word (?p @ w @ c # rest) (length pre + length b) False =
      Some (?p @ w @ c # rest, length pre + length b + length w)"
    using gt_word_plain[of w c ?p rest] assms(2,3) by (simp add: plain_def)
  have at: "(?p @ w @ c # rest) ! (length pre + length b) = x" using w by (simp add: nth_append)
  have nx: "gt_next (?p @ w @ c # rest) (length pre + length b + length w) =
      Some (if c = 0 then None else Some (length pre + length b + length w))"
    by (simp add: gt_next_def nth_append)
  show ?thesis using k g at nx x by (simp add: gettoken_def)
qed

lemma gettoken_end:
  assumes "blanks b"
  shows "gettoken (pre @ b @ 0 # rest) (Some (length pre)) = Some (0, Some (length pre), None, pre @ zeros b @ 0 # rest)"
proof -
  have "(pre @ zeros b @ 0 # rest) ! (length pre + length b) = 0" by (simp add: nth_append)
  then show ?thesis using gt_skip_blanks[OF assms, of 0 pre rest] by (simp add: gettoken_def)
qed

lemma gettoken_symbol:
  assumes "blanks b" "in_chars SYMBOLS y" "\<not> in_chars WHITESPACE y" "y \<noteq> 0"
  shows "gettoken (pre @ b @ y # c # rest) (Some (length pre)) =
    Some (y, if c = 0 then None else Some (length pre + length b + 1), Some (length pre + length b),
      pre @ zeros b @ 0 # c # rest)"
proof -
  let ?m = "pre @ zeros b @ y # c # rest" and ?i = "length pre + length b"
  have "?m ! ?i = y" "?m[?i := 0] = pre @ zeros b @ 0 # c # rest"
    by (simp_all add: nth_append list_update_append)
  moreover have "gt_next (pre @ zeros b @ 0 # c # rest) (?i + 1) = Some (if c = 0 then None else Some (?i + 1))"
    by (simp add: gt_next_def nth_append)
  ultimately show ?thesis using gt_skip_blanks[OF assms(1,3), of pre "c # rest"] assms by (simp add: gettoken_def)
qed

section \<open>Simple commands\<close>

text \<open>A line of words, each after its blanks, the line that the tokenizer leaves, and the words' offsets.\<close>

definition cmd_text :: "(byte list \<times> byte list) list \<Rightarrow> byte list" where
  "cmd_text bws = concat (map (\<lambda>(b, w). b @ w) bws)"

definition cmd_cut :: "(byte list \<times> byte list) list \<Rightarrow> byte list" where
  "cmd_cut bws = concat (map (\<lambda>(b, w). zeros b @ w) bws)"

fun word_offs :: "nat \<Rightarrow> (byte list \<times> byte list) list \<Rightarrow> nat list" where
  "word_offs n [] = []"
| "word_offs n ((b, w) # bws) = (n + length b) # word_offs (n + length b + length w) bws"

text \<open>Words apart from each other: blanks in between, at most before the first none.\<close>

definition words_ok :: "(byte list \<times> byte list) list \<Rightarrow> bool" where
  "words_ok bws \<longleftrightarrow> (\<forall>(b, w) \<in> set bws. blanks b \<and> plain w) \<and> (\<forall>(b, w) \<in> set (tl bws). b \<noteq> [])"

lemma runcmd_loop_end:
  assumes "gettoken (sh_line s) cmd = Some (0, cmd', t, m)"
  shows "runcmd_loop K cmd argv s = runit K argv (s\<lparr>sh_line := m\<rparr>)"
  using assms by (subst runcmd_loop.simps) (simp add: runcmd_step_def)

lemma runcmd_loop_word:
  assumes "gettoken (sh_line s) cmd = Some (119, cmd', Some p, m)" "length argv < EXEC_MAX_ARG_NUM"
  shows "runcmd_loop K cmd argv s = runcmd_loop K cmd' (argv @ [p]) (s\<lparr>sh_line := m\<rparr>)"
  using assms by (subst runcmd_loop.simps) (simp add: runcmd_step_def)

lemma runcmd_loop_words:
  assumes "\<forall>(b, w) \<in> set bws. blanks b \<and> plain w" "\<forall>(b, w) \<in> set (tl bws). b \<noteq> []" "blanks b0"
    and "length argv + length bws \<le> EXEC_MAX_ARG_NUM" "sh_line s = pre @ cmd_text bws @ b0 @ 0 # rest"
  shows "runcmd_loop K (Some (length pre)) argv s =
    runit K (argv @ word_offs (length pre) bws) (s\<lparr>sh_line := pre @ cmd_cut bws @ zeros b0 @ 0 # rest\<rparr>)"
  using assms
proof (induction bws arbitrary: argv pre s)
  case Nil
  then show ?case using runcmd_loop_end[OF gettoken_end[of b0 pre rest, folded Nil.prems(5)[simplified cmd_text_def, simplified]]]
    by (simp add: cmd_text_def cmd_cut_def)
next
  case (Cons bw bws)
  obtain b w where bw: "bw = (b, w)" by (cases bw)
  have bp: "blanks b" "plain w" using Cons.prems(1) bw by auto
  let ?pre = "pre @ zeros b @ w" and ?tail = "cmd_text bws @ b0 @ 0 # rest"
  obtain c r where tail: "?tail = c # r" by (cases ?tail) auto
  have c: "c = 0 \<and> bws = [] \<and> b0 = [] \<or> c \<noteq> 0 \<and> in_chars WHITESPACE_SYMBOLS c"
  proof (cases bws)
    case Nil
    then show ?thesis using tail Cons.prems(3) by (cases b0) (auto simp: cmd_text_def symbols_words)
  next
    case (Cons bw' bws')
    then have "fst bw' \<noteq> []" "blanks (fst bw')"
      using \<open>\<forall>(b, w)\<in>set (tl (bw # bws)). b \<noteq> []\<close> \<open>\<forall>(b, w)\<in>set (bw # bws). blanks b \<and> plain w\<close> by auto
    then have "in_chars WHITESPACE c" using tail Cons by (cases bw'; cases "fst bw'") (auto simp: cmd_text_def)
    then show ?thesis by (auto simp: symbols_words)
  qed
  define s' where "s' = s\<lparr>sh_line := ?pre @ ?tail\<rparr>"
  have line: "sh_line s = pre @ b @ w @ c # r" using Cons.prems(5) tail bw by (simp add: cmd_text_def)
  have step: "runcmd_loop K (Some (length pre)) argv s =
      runcmd_loop K (if c = 0 then None else Some (length ?pre)) (argv @ [length pre + length b]) s'"
    using runcmd_loop_word[of s "Some (length pre)" _ "length pre + length b" _ argv K]
      gettoken_word[OF bp, of c pre r] c line Cons.prems(4) tail by (auto simp: s'_def add.assoc)
  have goal: "s\<lparr>sh_line := pre @ cmd_cut (bw # bws) @ zeros b0 @ 0 # rest\<rparr> =
      s'\<lparr>sh_line := ?pre @ cmd_cut bws @ zeros b0 @ 0 # rest\<rparr>" by (simp add: s'_def cmd_cut_def bw)
  have offs: "argv @ word_offs (length pre) (bw # bws) = (argv @ [length pre + length b]) @ word_offs (length ?pre) bws"
    by (simp add: bw add.assoc)
  show ?case
  proof (cases "c = 0")
    case True
    then have "runcmd_loop K None (argv @ [length pre + length b]) s' = runit K (argv @ [length pre + length b]) s'"
      by (subst runcmd_loop_end[of _ _ None None "sh_line s'"]) (simp_all add: gettoken_def)
    then show ?thesis using True c step tail unfolding offs goal
      by (simp add: cmd_cut_def) (simp add: s'_def cmd_text_def)
  next
    case False
    have "\<forall>(b, w) \<in> set (tl bws). b \<noteq> []" using Cons.prems(2) by (cases bws) auto
    then have "runcmd_loop K (Some (length ?pre)) (argv @ [length pre + length b]) s' =
        runit K ((argv @ [length pre + length b]) @ word_offs (length ?pre) bws)
          (s'\<lparr>sh_line := ?pre @ cmd_cut bws @ zeros b0 @ 0 # rest\<rparr>)"
      by (intro Cons.IH) (use Cons.prems in \<open>auto simp: s'_def\<close>)
    then show ?thesis using False step unfolding offs goal by simp
  qed
qed

text \<open>After the tokenizer, every word is a C string at its offset.\<close>

lemma word_offs_cstr:
  assumes "\<forall>(b, w) \<in> set bws. blanks b \<and> plain w" "\<forall>(b, w) \<in> set (tl bws). b \<noteq> []"
  shows "list_all2 (\<lambda>t w. cstr (drop t (pre @ cmd_cut bws @ zeros b0 @ 0 # rest)) w) (word_offs (length pre) bws) (map snd bws)"
  using assms
proof (induction bws arbitrary: pre)
  case (Cons bw bws)
  obtain b w where bw: "bw = (b, w)" by (cases bw)
  let ?pre = "pre @ zeros b @ w" and ?tail = "cmd_cut bws @ zeros b0 @ 0 # rest"
  have "\<exists>r. ?tail = 0 # r"
  proof (cases bws)
    case Nil
    then show ?thesis by (cases b0) (simp_all add: cmd_cut_def)
  next
    case (Cons bw' bws')
    then have "fst bw' \<noteq> []" using \<open>\<forall>(b, w)\<in>set (tl (bw # bws)). b \<noteq> []\<close> by auto
    then show ?thesis using Cons by (cases bw'; cases "fst bw'") (simp_all add: cmd_cut_def)
  qed
  then have "cstr (w @ ?tail) w" using Cons.prems(1) bw plain_nz by (auto simp: cstr_def)
  moreover have "pre @ cmd_cut (bw # bws) @ zeros b0 @ 0 # rest = ?pre @ ?tail" by (simp add: cmd_cut_def bw)
  moreover have "\<forall>(b, w) \<in> set (tl bws). b \<noteq> []" using Cons.prems(2) by (cases bws) auto
  ultimately show ?case using Cons.IH[of ?pre] Cons.prems(1) by (simp add: bw add.assoc)
qed simp

lemma runit_exec:
  assumes "cstr (drop t0 (sh_line s)) w0" "w0 \<noteq> bytes_of ''cd''"
    and "testfile K (drop t0 (sh_line s)) (sh_st s) = (0, st1)"
    and "s_exec K (KL 0) (map (\<lambda>t. drop t (sh_line s)) (t0 # ts)) st1 = (r, st2)"
  shows "runit K (t0 # ts) s = Some (r, s\<lparr>sh_st := st2\<rparr>)"
proof -
  have "cstr (lit ''cd'') (bytes_of ''cd'')" by (simp add: lit_def bytes_of_def)
  from u_strcmp_lexord[OF assms(1) this] obtain c where "u_strcmp (drop t0 (sh_line s)) (lit ''cd'') = Some c" "c \<noteq> 0"
    using assms(2) by auto
  then show ?thesis using assms(3,4) by (simp add: runit_def)
qed

section \<open>Memory safety of the interpreter\<close>

text \<open>The output buffer is empty; system calls leave it alone.\<close>

definition clean :: "'k ustate \<Rightarrow> bool" where
  "clean st \<longleftrightarrow> stdio_ok st \<and> pending st = []"

lemma clean_syscall [simp]: "clean (snd (snd (u_syscall K c as st))) = clean st"
  by (simp add: u_syscall_def Let_def split_beta clean_def stdio_ok_def pending_def)

lemma clean_call [simp]: "clean (snd (u_call K c as st)) = clean st"
  using clean_syscall[of K c as st] by (simp add: u_call_def split_beta)

lemma clean_ukern [simp]: "clean (st\<lparr>ukern := k\<rparr>) = clean st"
  by (simp add: clean_def stdio_ok_def pending_def)

lemmas call_defs = u_close_def sys_close_def u_open_def sys_open_def u_dup2_def sys_dup_def u_fork_def sys_fork_def
  u_waitpid_def sys_wait_def Let_def split_beta

lemma clean_reopen [simp]: "clean (snd (reopen K fd name fl st)) = clean st"
  by (simp add: reopen_def call_defs)

lemma clean_testfile [simp]: "clean (snd (testfile K name st)) = clean st"
  by (simp add: testfile_def call_defs)

lemma clean_pipe [simp]: "clean (snd (sh_pipe K st)) = clean st"
  by (simp add: sh_pipe_def call_defs)

lemma clean_seq [simp]: "clean (snd (sh_seq K st)) = clean st"
  by (simp add: sh_seq_def call_defs)

lemma sh_printf_clean:
  assumes "vprintfmt fmt ap = Some r" "clean st"
  shows "\<exists>st'. sh_printf K fmt ap st = Some st' \<and> clean st'"
proof -
  obtain out sts where r: "r = (out, sts)" by (cases r)
  then obtain tx where tx: "out = tx @ [0]" "0 \<notin> set tx" "length tx < BUFLEN" using vprintfmt_nul assms(1) by blast
  have ok: "stdio_ok st" "ubuf_pos st = 0" using assms(2) by (auto simp: clean_def stdio_ok_def pending_def)
  then have fits: "ubuf_pos st + length tx \<le> 1024" using tx(3) by (simp add: BUFLEN_def)
  have "vfprintf K 1 fmt ap st = Some (of_nat (ubuf_pos st + length tx), sts, flushed K 1 (buffered tx st))"
    using vfprintf_flushed[OF _ ok(1) fits tx(2), of fmt ap sts K 1] assms(1) r tx(1) by simp
  then show ?thesis using flushed_ok[OF buffered_ok(1)[OF ok(1) fits], of K 1]
    by (simp add: sh_printf_def u_fprintf_def clean_def)
qed

text \<open>
  The line has a null byte at \<open>e\<close>, close enough to the start that the name of a command fits the buffer of
  \<open>vprintfmt\<close>; the other buffers have their sizes.
\<close>

definition sane :: "nat \<Rightarrow> 'k sh \<Rightarrow> bool" where
  "sane e s \<longleftrightarrow> e < length (sh_line s) \<and> sh_line s ! e = 0 \<and> e \<le> 1022 \<and> length (sh_cwd s) = BUFSIZE \<and>
     length (sh_argv0 s) = BUFSIZE \<and> clean (sh_st s)"

definition upto_end :: "nat \<Rightarrow> nat option \<Rightarrow> bool" where
  "upto_end e p \<longleftrightarrow> (case p of None \<Rightarrow> True | Some i \<Rightarrow> i \<le> e)"

lemma upto_end_simps [simp]: "upto_end e None" "upto_end e (Some i) \<longleftrightarrow> i \<le> e"
  by (simp_all add: upto_end_def)

lemma gt_skip_total:
  "s \<le> e \<Longrightarrow> e < length m \<Longrightarrow> m ! e = 0 \<Longrightarrow> \<exists>m' s'. gt_skip m s = Some (m', s') \<and> s' \<le> e \<and> m' ! e = 0"
proof (induction m s rule: gt_skip.induct)
  case (1 m s)
  show ?case
  proof (cases "in_chars WHITESPACE (m ! s)")
    case True
    then have "s \<noteq> e" using "1.prems"(3) by auto
    then show ?thesis using "1.IH" "1.prems" True by (subst gt_skip.simps) simp
  qed (use "1.prems" in \<open>subst gt_skip.simps, simp\<close>)
qed

lemma gt_word_total:
  "s \<le> e \<Longrightarrow> e < length m \<Longrightarrow> m ! e = 0 \<Longrightarrow> \<exists>m' s'. gt_word m s f = Some (m', s') \<and> s' \<le> e \<and> m' ! e = 0"
proof (induction m s f rule: gt_word.induct)
  case (1 m s f)
  show ?case
  proof (cases "m ! s \<noteq> 0 \<and> (f \<or> \<not> in_chars WHITESPACE_SYMBOLS (m ! s))")
    case True
    then have "s \<noteq> e" using "1.prems"(3) by auto
    then show ?thesis using "1.IH" "1.prems" True by (subst gt_word.simps) (cases "m ! s = 34"; simp)
  qed (use "1.prems" in \<open>subst gt_word.simps, auto\<close>)
qed

lemma gt_next_total:
  "s \<le> e \<Longrightarrow> e < length m \<Longrightarrow> \<exists>p. gt_next m s = Some p \<and> upto_end e p"
  by (simp add: gt_next_def)

lemma symbol_cases: "in_chars SYMBOLS c \<Longrightarrow> c = 60 \<or> c = 124 \<or> c = 62 \<or> c = 38 \<or> c = 59"
  by (auto simp: in_chars_def SYMBOLS_def lit_def bytes_of_def split: if_splits)

lemma gettoken_total:
  assumes "upto_end e cmd" "e < length m" "m ! e = 0"
  shows "\<exists>tk cmd' t m'. gettoken m cmd = Some (tk, cmd', t, m') \<and> m' ! e = 0 \<and> upto_end e cmd' \<and>
    (tk \<noteq> 0 \<longrightarrow> (\<exists>p. t = Some p \<and> p \<le> e)) \<and> tk \<in> {0, 119, 60, 124, 62, 38, 59}"
proof (cases cmd)
  case None
  then show ?thesis using assms by (simp add: gettoken_def)
next
  case (Some s0)
  then obtain m1 s where k: "gt_skip m s0 = Some (m1, s)" "s \<le> e" "m1 ! e = 0"
    using gt_skip_total[of s0 e m] assms by auto
  have len: "e < length m1" using gt_skip_bounds[OF k(1)] assms(2) by simp
  consider "m1 ! s = 0" | "m1 ! s \<noteq> 0" "in_chars SYMBOLS (m1 ! s)" | "m1 ! s \<noteq> 0" "\<not> in_chars SYMBOLS (m1 ! s)"
    by blast
  then show ?thesis
  proof cases
    case 1
    then show ?thesis using k Some assms(1) by (simp add: gettoken_def)
  next
    case 2
    then have "s \<noteq> e" using k(3) by auto
    then obtain p where "gt_next (m1[s := 0]) (s + 1) = Some p" "upto_end e p"
      using gt_next_total[of "s + 1" e "m1[s := 0]"] k(2) len by auto
    then show ?thesis using 2 k Some \<open>s \<noteq> e\<close> symbol_cases[OF 2(2)] by (simp add: gettoken_def)
  next
    case 3
    obtain m2 s2 where w: "gt_word m1 s False = Some (m2, s2)" "s2 \<le> e" "m2 ! e = 0"
      using gt_word_total[OF k(2) len k(3)] by blast
    moreover have "e < length m2" using gt_word_bounds[OF w(1)] len by simp
    ultimately obtain p where "gt_next m2 s2 = Some p" "upto_end e p" using gt_next_total by blast
    then show ?thesis using 3 k Some w by (simp add: gettoken_def)
  qed
qed

lemma sane_line: "sane e s \<Longrightarrow> length m = length (sh_line s) \<Longrightarrow> m ! e = 0 \<Longrightarrow> sane e (s\<lparr>sh_line := m\<rparr>)"
  by (simp add: sane_def)

lemma sane_st: "sane e s \<Longrightarrow> clean st \<Longrightarrow> sane e (s\<lparr>sh_st := st\<rparr>)"
  by (simp add: sane_def)

lemma sane_clean: "sane e s \<Longrightarrow> clean (sh_st s)"
  by (simp add: sane_def)

lemma sh_say_total:
  assumes "sane e s" "vprintfmt fmt ap \<noteq> None"
  shows "\<exists>s'. sh_say K fmt ap s = Some s' \<and> sane e s'"
  using sh_printf_clean[of fmt ap _ "sh_st s" K] assms sane_clean[OF assms(1)] sane_st[OF assms(1)]
  by (auto simp: sh_say_def)

lemma messages:
  "vprintfmt (lit (''sh error: too many arguments'' @ [CHR 0x0A])) [] \<noteq> None"
  "vprintfmt (lit (''sh error: syntax error: < not followed by word'' @ [CHR 0x0A])) [] \<noteq> None"
  "vprintfmt (lit (''sh error: syntax error: > not followed by word'' @ [CHR 0x0A])) [] \<noteq> None"
  "vprintfmt (lit (''sh error: bad return %d from gettoken'' @ [CHR 0x0A])) [UI 38] \<noteq> None"
  by code_simp+

lemma sh_redirect_total:
  assumes "sane e s" "upto_end e cmd" "vprintfmt msg [] \<noteq> None"
  shows "\<exists>n cmd' s'. sh_redirect K fd fl msg cmd argv s = Some (n, cmd', argv, s') \<and> upto_end e cmd' \<and> sane e s'"
proof -
  obtain tk cmd' t m where g: "gettoken (sh_line s) cmd = Some (tk, cmd', t, m)" "m ! e = 0" "upto_end e cmd'"
    using gettoken_total[OF assms(2), of "sh_line s"] assms(1) by (auto simp: sane_def)
  have s1: "sane e (s\<lparr>sh_line := m\<rparr>)" using sane_line[OF assms(1)] gettoken_progress(1)[OF g(1)] g(2) by simp
  obtain s2 where s2: "sh_say K msg [] (s\<lparr>sh_line := m\<rparr>) = Some s2" "sane e s2" using sh_say_total[OF s1 assms(3)] by blast
  have "sane e (s\<lparr>sh_line := m, sh_st := snd (reopen K fd (drop (the t) m) fl (sh_st s))\<rparr>)"
    using sane_st[OF s1, of "snd (reopen K fd (drop (the t) m) fl (sh_st s))"] sane_clean[OF s1] by simp
  then show ?thesis using g s2 by (simp add: sh_redirect_def Let_def split_beta)
qed

lemma runcmd_step_total:
  assumes "sane e s" "upto_end e cmd" "\<forall>t \<in> set argv. t \<le> e"
  shows "\<exists>n cmd' argv' s'. runcmd_step K cmd argv s = Some (n, cmd', argv', s') \<and> upto_end e cmd' \<and>
    (\<forall>t \<in> set argv'. t \<le> e) \<and> sane e s'"
proof -
  obtain tk cmd' t m where g: "gettoken (sh_line s) cmd = Some (tk, cmd', t, m)" "m ! e = 0" "upto_end e cmd'"
    "tk \<noteq> 0 \<longrightarrow> (\<exists>p. t = Some p \<and> p \<le> e)" "tk \<in> {0, 119, 60, 124, 62, 38, 59}"
    using gettoken_total[OF assms(2), of "sh_line s"] assms(1) by (auto simp: sane_def)
  let ?s = "s\<lparr>sh_line := m\<rparr>"
  have s1: "sane e ?s" using sane_line[OF assms(1)] gettoken_progress(1)[OF g(1)] g(2) by simp
  note say = sh_say_total[OF s1 messages(1), of K] sh_say_total[OF s1 messages(4), of K]
  note red = sh_redirect_total[OF s1 g(3) messages(2), of K] sh_redirect_total[OF s1 g(3) messages(3), of K]
  note st = sane_st[OF s1, of "snd (sh_pipe K (sh_st s))"] sane_st[OF s1, of "snd (sh_seq K (sh_st s))"] sane_clean[OF s1]
  from g(5) consider "tk = 119" | "tk = 60" | "tk = 62" | "tk = 124" | "tk = 0" | "tk = 59" | "tk = 38" by auto
  then show ?thesis
  proof cases
    case 1
    obtain p where "t = Some p" "p \<le> e" using g(4) 1 by auto
    moreover obtain s2 where "sh_say K (lit (''sh error: too many arguments'' @ [CHR 0x0A])) [] ?s = Some s2" "sane e s2"
      using say(1) by blast
    ultimately show ?thesis using 1 g(1,3) s1 assms(3) by (simp add: runcmd_step_def Let_def)
  next
    case 2
    then show ?thesis using g(1) red(1)[of 0 U_O_RDONLY argv] assms(3) by (auto simp: runcmd_step_def Let_def)
  next
    case 3
    then show ?thesis using g(1) red(2)[of 1 "U_O_RDWR OR U_O_TRUNC OR U_O_CREAT" argv] assms(3)
      by (auto simp: runcmd_step_def Let_def)
  next
    case 7
    obtain s2 where "sh_say K (lit (''sh error: bad return %d from gettoken'' @ [CHR 0x0A])) [UI 38] ?s = Some s2" "sane e s2"
      using say(2) by blast
    then show ?thesis using 7 g(1,3) assms(3) by (simp add: runcmd_step_def Let_def)
  qed (use g s1 st assms(3) in \<open>simp_all add: runcmd_step_def Let_def split_beta\<close>)
qed

lemma cstr_upto:
  assumes "t \<le> e" "e < length m" "m ! e = 0"
  shows "\<exists>w. cstr (drop t m) w \<and> t + length w \<le> e"
proof -
  let ?w = "takeWhile (\<lambda>c. c \<noteq> 0) (drop t m)"
  have "\<exists>c \<in> set (drop t m). c = 0" using assms by (auto simp: in_set_conv_nth intro!: exI[of _ "e - t"])
  then have d: "dropWhile (\<lambda>c. c \<noteq> 0) (drop t m) \<noteq> []" by (simp add: dropWhile_eq_Nil_conv)
  then obtain r where "drop t m = ?w @ 0 # r"
    using takeWhile_dropWhile_id[of "\<lambda>c. c \<noteq> 0" "drop t m"] hd_dropWhile[OF d]
    by (metis (mono_tags) list.exhaust_sel)
  moreover have "0 \<notin> set ?w" by (auto dest: set_takeWhileD)
  ultimately have "cstr (drop t m) ?w" unfolding cstr_def by blast
  moreover have "length ?w \<le> e - t"
  proof (rule ccontr)
    assume "\<not> length ?w \<le> e - t"
    then have "?w ! (e - t) = 0" "e - t < length ?w" using assms by (simp_all add: takeWhile_nth)
    then show False using \<open>0 \<notin> set ?w\<close> nth_mem by metis
  qed
  ultimately show ?thesis using assms(1) by (intro exI[of _ ?w]) auto
qed

lemma vprintfmt_slash:
  assumes "cstr p w" "length w < 2 ^ 63"
  shows "vprintfmt (lit ''/%s'') [US p] = (if length w < 1023 then Some ((47 # w) @ [0], []) else None)"
proof -
  have l: "lit ''/%s'' = [47, 37, 115, 0]" by code_simp
  have d: "u_directive [115, 0] [US p] = Some (\<lparr>u_fl = 0, u_wd = - 1, u_pr = - 1, u_ql = 0\<rparr>, [115, 0], [US p])"
    by (simp add: u_directive_def u_width_def u_prec_def u_qual_def u_isdigit_def)
  have "unat (- 1 :: long) = 2 ^ 64 - 1" by (simp add: unsigned_minus_1_eq_mask mask_eq_exp_minus_1)
  then have n: "u_strnlen p (- 1) = Some (length w)"
    using u_strnlen_spec[OF assms(1), of "- 1"] assms(2) by simp
  have tk: "take (length w) p = w" "0 \<notin> set w" using assms(1) by (auto simp: cstr_def)
  have "conv_s \<lparr>u_fl = 0, u_wd = - 1, u_pr = - 1, u_ql = 0\<rparr> p = Some w"
    using n tk by (simp add: conv_s_def)
  then have "fmt_loop (lit ''/%s'') [US p] [] = Some (47 # w, [])"
    using d by (simp add: l u_convert_def va_str_def)
  moreover have "takeWhile (\<lambda>c. c \<noteq> 0) w = w" using tk(2) by (auto simp: takeWhile_eq_all_conv)
  ultimately show ?thesis by (simp add: vprintfmt_def BUFLEN_def)
qed

lemma runit_total:
  assumes "sane e s" "\<forall>t \<in> set argv. t \<le> e"
  shows "\<exists>r s'. runit K argv s = Some (r, s')"
proof (cases argv)
  case Nil
  then show ?thesis by (simp add: runit_def)
next
  case (Cons t0 ts)
  have e: "e < length (sh_line s)" "sh_line s ! e = 0" "e \<le> 1022" using assms(1) by (auto simp: sane_def)
  obtain w where w: "cstr (drop t0 (sh_line s)) w" "t0 + length w \<le> e" using cstr_upto[OF _ e(1,2), of t0] assms(2) Cons by auto
  have "cstr (lit ''cd'') (bytes_of ''cd'')" by (simp add: lit_def bytes_of_def)
  then obtain c where c: "u_strcmp (drop t0 (sh_line s)) (lit ''cd'') = Some c" using u_strcmp_lexord[OF w(1)] by blast
  have "vprintfmt (lit ''/%s'') [US (drop t0 (sh_line s))] = Some ((47 # w) @ [0], [])"
    using vprintfmt_slash[OF w(1)] w(2) e(3) by simp
  from u_vsnprintf_put[OF this, of BUFSIZE 0 "sh_argv0 s"]
  have sn: "\<exists>x. u_snprintf (sh_argv0 s) 0 BUFSIZE (lit ''/%s'') [US (drop t0 (sh_line s))] = Some x"
    using assms(1) by (auto simp: u_snprintf_def sane_def BUFSIZE_def)
  have cd: "\<exists>x. sh_cd t1 s = Some x" if t1: "t1 \<le> e" for t1
  proof -
    obtain v where v: "cstr (drop t1 (sh_line s)) v" "t1 + length v \<le> e" using cstr_upto[OF t1 e(1,2)] by blast
    have "str_at (sh_line s @ sh_cwd s) t1 v" using v e(1) by (auto simp: str_at_def cstr_def)
    from u_strcpy_blit[OF this, of "length (sh_line s)"] v(2) e assms(1)
    show ?thesis by (simp add: sh_cd_def sane_def BUFSIZE_def)
  qed
  show ?thesis
  proof (cases "c = 0")
    case True
    then show ?thesis using Cons c cd assms(2) by (cases ts rule: remdups_adj.cases) (auto simp: runit_def)
  next
    case False
    then show ?thesis using Cons c sn by (auto simp: runit_def Let_def split_beta)
  qed
qed

lemma runcmd_loop_total:
  "sane e s \<Longrightarrow> upto_end e cmd \<Longrightarrow> \<forall>t \<in> set argv. t \<le> e \<Longrightarrow> \<exists>r s'. runcmd_loop K cmd argv s = Some (r, s')"
proof (induction K cmd argv s rule: runcmd_loop.induct)
  case (1 K cmd argv s)
  obtain n cmd' argv' s' where st: "runcmd_step K cmd argv s = Some (n, cmd', argv', s')" "upto_end e cmd'"
    "\<forall>t \<in> set argv'. t \<le> e" "sane e s'" using runcmd_step_total[OF "1.prems", of K] by blast
  note eq = runcmd_loop.simps[of K cmd argv s]
  show ?case
  proof (cases n)
    case ShRunit
    then show ?thesis using eq st runit_total by simp
  next
    case ShAgain
    then show ?thesis using eq st "1.IH"(1)[OF st(1)] by simp
  next
    case ShMore
    then show ?thesis using eq st "1.IH"(2)[OF st(1)] by simp
  qed (use eq st in simp)
qed

section \<open>Line editing\<close>

text \<open>
  What the shell relies on at a terminal: a read of one byte from descriptor 0 delivers the next byte of
  the input \<open>inp\<close>, and a write leaves the input alone.
\<close>

definition tty :: "uarch \<Rightarrow> 'k ukernel \<Rightarrow> ('k \<Rightarrow> byte list) \<Rightarrow> bool" where
  "tty a K inp \<longleftrightarrow>
     (\<forall>k x c cs. inp k = c # cs \<longrightarrow>
       (\<exists>k'. K (sys_num a C_read) [KI 0, KP [x], KL 1] k = ((1, False), [KI 0, KP [c], KL 1], k') \<and> inp k' = cs)) \<and>
     (\<forall>k fd b n. inp (snd (snd (K (sys_num a C_write) [KI fd, KP b, KL n] k))) = inp k)"

text \<open>The line that editing leaves: printing characters are added, a backspace takes the last one away.\<close>

fun edit :: "uarch \<Rightarrow> byte list \<Rightarrow> byte list \<Rightarrow> byte list" where
  "edit a acc [] = acc"
| "edit a acc (c # cs) =
     (if 32 \<le>s char_int a c \<and> length acc < BUFSIZE - 1 then edit a (acc @ [c]) cs
      else if c = 8 \<and> acc \<noteq> [] then edit a (butlast acc) cs
      else edit a acc cs)"

lemma sh_printf_tty:
  assumes "vprintfmt fmt ap \<noteq> None" "clean st" "tty (uarch_of st) K inp"
  shows "\<exists>st'. sh_printf K fmt ap st = Some st' \<and> clean st' \<and> inp (ukern st') = inp (ukern st) \<and> uarch_of st' = uarch_of st"
proof -
  obtain out sts where v: "vprintfmt fmt ap = Some (out, sts)" using assms(1) by auto
  then obtain tx where tx: "out = tx @ [0]" "0 \<notin> set tx" "length tx < BUFLEN" using vprintfmt_nul by blast
  have ok: "stdio_ok st" "ubuf_pos st = 0" using assms(2) by (auto simp: clean_def stdio_ok_def pending_def)
  then have fits: "ubuf_pos st + length tx \<le> 1024" using tx(3) by (simp add: BUFLEN_def)
  let ?st = "flushed K 1 (buffered tx st)"
  have "sh_printf K fmt ap st = Some ?st"
    using vfprintf_flushed[OF _ ok(1) fits tx(2), of fmt ap sts K 1] v tx(1) by (simp add: sh_printf_def u_fprintf_def)
  moreover have "clean ?st" using flushed_ok[OF buffered_ok(1)[OF ok(1) fits], of K 1] by (simp add: clean_def)
  moreover have "uarch_of (buffered tx st) = uarch_of st" "ukern (buffered tx st) = ukern st"
    by (simp_all add: buffered_def)
  then have "uarch_of ?st = uarch_of st" "inp (ukern ?st) = inp (ukern st)"
    using assms(3) by (simp_all add: flushed_def u_write_def sys_write_def ukern_u_call MAX_ARGS_def tty_def)
  ultimately show ?thesis by blast
qed

lemma vprintfmt_char: "vprintfmt (lit ''%c'') [UI i] \<noteq> None"
proof -
  have l: "lit ''%c'' = [37, 99, 0]" by code_simp
  have d: "u_directive [99, 0] [UI i] = Some (\<lparr>u_fl = 0, u_wd = - 1, u_pr = - 1, u_ql = 0\<rparr>, [99, 0], [UI i])"
    by (simp add: u_directive_def u_width_def u_prec_def u_qual_def u_isdigit_def)
  show ?thesis using d by (simp add: l vprintfmt_def u_convert_def va_int_def conv_c_def BUFLEN_def)
qed

lemma sh_putc_tty:
  assumes "clean st" "tty (uarch_of st) K inp"
  shows "\<exists>st'. sh_putc K c st = Some st' \<and> clean st' \<and> inp (ukern st') = inp (ukern st) \<and> uarch_of st' = uarch_of st"
  unfolding sh_putc_def by (rule sh_printf_tty[OF vprintfmt_char assms])

lemma u_read_tty:
  assumes "tty (uarch_of st) K inp" "inp (ukern st) = c # cs"
  shows "\<exists>k'. u_read K 0 [x] 1 st = (1, [c], st\<lparr>ukern := k'\<rparr>) \<and> inp k' = cs"
proof -
  obtain k' where "K (sys_num (uarch_of st) C_read) [KI 0, KP [x], KL 1] (ukern st) = ((1, False), [KI 0, KP [c], KL 1], k')"
    "inp k' = cs" using assms unfolding tty_def by blast
  then show ?thesis by (intro exI[of _ k']) (simp add: u_read_def sys_read_def u_syscall_def MAX_ARGS_def)
qed

lemma one_not_neg [simp]: "\<not> (1 :: cint) <s 0"
  by (simp add: word_sless_alt)

lemma take_snoc: "storen b (length l) [c] = Some b' \<Longrightarrow> take (length l) b = l \<Longrightarrow> take (Suc (length l)) b' = l @ [c]"
  by (auto simp: storen_def split: if_splits)

lemma readline_loop_edit:
  assumes "tty a K inp" "nl = 10 \<or> nl = 13" "\<forall>c \<in> set cs. c \<noteq> 3 \<and> c \<noteq> 10 \<and> c \<noteq> 13"
    and "take (length acc) b = acc" "length b = BUFSIZE" "length acc < BUFSIZE"
    and "clean st" "uarch_of st = a" "inp (ukern st) = cs @ nl # rest"
  shows "\<exists>b' st'. readline_loop K (length acc) b st = Some (True, b', st') \<and> length b' = BUFSIZE \<and>
    take (Suc (length (edit a acc cs))) b' = edit a acc cs @ [0] \<and> clean st' \<and> uarch_of st' = a \<and> inp (ukern st') = rest"
  using assms(3-)
proof (induction cs arbitrary: acc b st)
  case Nil
  obtain k' where r: "u_read K 0 [uninit st] 1 st = (1, [nl], st\<lparr>ukern := k'\<rparr>)" "inp k' = rest"
    using u_read_tty[of st K inp nl rest] assms(1) Nil.prems by auto
  obtain st2 where p: "sh_putc K 10 (st\<lparr>ukern := k'\<rparr>) = Some st2" "clean st2" "inp (ukern st2) = rest" "uarch_of st2 = a"
    using sh_putc_tty[of "st\<lparr>ukern := k'\<rparr>" K inp 10] assms(1) Nil.prems(5,6) r(2) by auto
  obtain b' where b': "storen b (length acc) [0] = Some b'" using Nil.prems(3,4) by (simp add: storen_def)
  have "char_int a nl = nl'" if "nl' = ucast nl" for nl' using that assms(2) by (auto simp: char_int_def)
  then have "\<not> 32 \<le>s char_int a nl" using assms(2) by (auto simp: word_sle_eq)
  then show ?case using r p b' assms(2) Nil.prems(3,6) take_snoc[OF b' Nil.prems(2)] storen_length[OF b']
    by (subst readline_loop.simps) auto
next
  case (Cons c cs)
  obtain k' where r: "u_read K 0 [uninit st] 1 st = (1, [c], st\<lparr>ukern := k'\<rparr>)" "inp k' = cs @ nl # rest"
    using u_read_tty[of st K inp c "cs @ nl # rest"] assms(1) Cons.prems by auto
  let ?st = "st\<lparr>ukern := k'\<rparr>"
  have cl: "clean ?st" "uarch_of ?st = a" using Cons.prems(5,6) by simp_all
  obtain st2 where p: "sh_putc K c ?st = Some st2" "clean st2" "inp (ukern st2) = cs @ nl # rest" "uarch_of st2 = a"
    using sh_putc_tty[of ?st K inp c] assms(1) cl r(2) by auto
  have c: "c \<noteq> 3" "c \<noteq> 10" "c \<noteq> 13" "\<forall>c \<in> set cs. c \<noteq> 3 \<and> c \<noteq> 10 \<and> c \<noteq> 13" using Cons.prems(1) by auto
  consider (add) "32 \<le>s char_int a c \<and> length acc < BUFSIZE - 1"
    | (del) "\<not> (32 \<le>s char_int a c \<and> length acc < BUFSIZE - 1)" "c = 8" "acc \<noteq> []"
    | (skip) "\<not> (32 \<le>s char_int a c \<and> length acc < BUFSIZE - 1)" "\<not> (c = 8 \<and> acc \<noteq> [])" by blast
  then show ?case
  proof cases
    case add
    obtain b' where b': "storen b (length acc) [c] = Some b'" using Cons.prems(3,4) by (simp add: storen_def)
    have "readline_loop K (length acc) b st = readline_loop K (length (acc @ [c])) b' st2"
      using r p b' add c Cons.prems(6) by (subst readline_loop.simps) simp
    moreover note Cons.IH[of "acc @ [c]" b' st2]
    moreover have "Suc (length acc) < BUFSIZE" using add by (simp add: BUFSIZE_def)
    ultimately show ?thesis using add c(4) p take_snoc[OF b' Cons.prems(2)] storen_length[OF b'] Cons.prems(3) by simp
  next
    case del
    have "readline_loop K (length acc) b st = readline_loop K (length (butlast acc)) b st2"
      using r p del c Cons.prems(6) by (subst readline_loop.simps) auto
    moreover have "take (length (butlast acc)) b = butlast acc"
      using Cons.prems(2) by (metis butlast_conv_take length_butlast min.absorb1 take_take diff_le_self)
    moreover note Cons.IH[of "butlast acc" b st2]
    moreover have "edit a acc (c # cs) = edit a (butlast acc) cs" using del by (simp only: edit.simps if_False) simp
    ultimately show ?thesis using c(4) p Cons.prems(3,4) by simp
  next
    case skip
    have "readline_loop K (length acc) b st = readline_loop K (length acc) b ?st"
      using r skip c Cons.prems(6) by (subst readline_loop.simps) auto
    moreover note Cons.IH[of acc b ?st]
    moreover have "edit a acc (c # cs) = edit a acc cs" using skip by (simp only: edit.simps if_False)
    ultimately show ?thesis using c(4) cl r(2) Cons.prems(2,3,4) by simp
  qed
qed

lemma edit_nz: "0 \<notin> set acc \<Longrightarrow> 0 \<notin> set (edit a acc cs)"
proof (induction a acc cs rule: edit.induct)
  case (2 a acc c cs)
  have "\<not> 32 \<le>s char_int a 0" by (simp add: char_int_def word_sle_eq)
  then show ?case using 2 by (auto dest: in_set_butlastD)
qed simp

lemma edit_length: "length acc < BUFSIZE \<Longrightarrow> length (edit a acc cs) < BUFSIZE"
  by (induction a acc cs rule: edit.induct) auto

text \<open>A line of words as a whole, and a line read at a terminal.\<close>

lemma runcmd_words:
  assumes "words_ok bws" "bws \<noteq> []" "length bws \<le> EXEC_MAX_ARG_NUM" "blanks b0"
    and "sh_line s = cmd_text bws @ b0 @ 0 # rest" "snd (hd bws) \<noteq> bytes_of ''cd''"
    and "\<And>path. cstr path (snd (hd bws)) \<Longrightarrow> fst (testfile K path (sh_st s)) = 0"
  shows "\<exists>argv line. list_all2 cstr argv (map snd bws) \<and>
    (case s_exec K (KL 0) argv (snd (testfile K (hd argv) (sh_st s))) of
       (r, st) \<Rightarrow> runcmd K s = Some (r, s\<lparr>sh_line := line, sh_st := st\<rparr>))"
proof -
  define line where "line = cmd_cut bws @ zeros b0 @ 0 # rest"
  let ?offs = "word_offs 0 bws" and ?arg = "\<lambda>t. drop t line" and ?s = "s\<lparr>sh_line := line\<rparr>"
  have ok: "\<forall>(b, w) \<in> set bws. blanks b \<and> plain w" "\<forall>(b, w) \<in> set (tl bws). b \<noteq> []"
    using assms(1) by (simp_all add: words_ok_def)
  have cs: "list_all2 (\<lambda>t w. cstr (?arg t) w) ?offs (map snd bws)" 
    using word_offs_cstr[OF ok, of "[]" b0 rest] by (simp add: line_def)
  obtain b w bws' where bws: "bws = (b, w) # bws'" using assms(2) by (cases bws) auto
  obtain t0 ts where offs: "?offs = t0 # ts" using bws by simp
  have c0: "cstr (?arg t0) w" using cs offs bws by simp
  obtain st1 where t: "testfile K (?arg t0) (sh_st s) = (0, st1)"
    using assms(7)[of "?arg t0"] c0 bws by (cases "testfile K (?arg t0) (sh_st s)") auto
  obtain r st2 where e: "s_exec K (KL 0) (map ?arg ?offs) st1 = (r, st2)" by (meson surj_pair)
  have "runcmd K s = runit K ?offs ?s"
    using runcmd_loop_words[OF ok assms(4), of "[]" s "[]" rest K] assms(3,5) by (simp add: runcmd_def line_def)
  also have "\<dots> = Some (r, ?s\<lparr>sh_st := st2\<rparr>)"
    unfolding offs by (rule runit_exec[of t0 ?s w]) (use c0 t e[unfolded offs] assms(6) bws in simp_all)
  finally have "runcmd K s = Some (r, s\<lparr>sh_line := line, sh_st := st2\<rparr>)" by simp
  moreover have "list_all2 cstr (map ?arg ?offs) (map snd bws)" using cs by (simp add: list.rel_map)
  moreover have "snd (testfile K (hd (map ?arg ?offs)) (sh_st s)) = st1" using t offs by simp
  ultimately show ?thesis using e by (intro exI[of _ "map ?arg ?offs"] exI[of _ line]) simp
qed

lemma readline_line:
  assumes "tty (uarch_of st) K inp" "inp (ukern st) = cs @ nl # rest" "nl = 10 \<or> nl = 13"
    and "\<forall>c \<in> set cs. c \<noteq> 3 \<and> c \<noteq> 10 \<and> c \<noteq> 13" "clean st" "length b = BUFSIZE"
    and "prompt = None \<or> prompt = Some (lit ''$ '')"
  shows "\<exists>b' st'. readline K prompt b st = Some (True, b', st') \<and> length b' = BUFSIZE \<and>
    cstr b' (edit (uarch_of st) [] cs) \<and> length (edit (uarch_of st) [] cs) < BUFSIZE \<and>
    clean st' \<and> inp (ukern st') = rest"
proof -
  let ?l = "edit (uarch_of st) [] cs"
  have "vprintfmt (lit ''%s'') [US (lit ''$ '')] \<noteq> None" by code_simp
  from sh_printf_tty[OF this assms(5,1)] obtain st1 where
    st1: "sh_printf K (lit ''%s'') [US (lit ''$ '')] st = Some st1" "clean st1" "inp (ukern st1) = cs @ nl # rest"
      "uarch_of st1 = uarch_of st" using assms(2) by auto
  note loop = readline_loop_edit[OF assms(1,3,4), of "[]" b]
  have "\<exists>b' st'. readline K prompt b st = Some (True, b', st') \<and> length b' = BUFSIZE \<and>
      take (Suc (length ?l)) b' = ?l @ [0] \<and> clean st' \<and> inp (ukern st') = rest"
    using assms(7)
  proof
    assume "prompt = None"
    then show ?thesis using loop[of st rest] assms(2,5,6) by (auto simp: readline_def BUFSIZE_def)
  next
    assume "prompt = Some (lit ''$ '')"
    then show ?thesis using loop[of st1 rest] st1 assms(6) by (auto simp: readline_def BUFSIZE_def)
  qed
  then obtain b' st' where r: "readline K prompt b st = Some (True, b', st')" "length b' = BUFSIZE"
    "take (Suc (length ?l)) b' = ?l @ [0]" "clean st'" "inp (ukern st') = rest" by blast
  have "b' = ?l @ 0 # drop (Suc (length ?l)) b'"
    using append_take_drop_id[of "Suc (length ?l)" b'] unfolding r(3) by simp
  then have "cstr b' ?l" using edit_nz[of "[]"] unfolding cstr_def by auto
  moreover have "length ?l < BUFSIZE" by (rule edit_length) (simp add: BUFSIZE_def)
  ultimately show ?thesis using r by blast
qed

section \<open>Properties\<close>

text \<open>
  C6: the shell runs what was typed. If the line consists of 1 to 32 words separated by white space, the
  first is not \<open>cd\<close>, and it can be opened, then \<open>runcmd\<close> calls \<open>__exec\<close> once, after the test of the file,
  with exactly these words as C strings, and returns its result.
\<close>

theorem runcmd_exec_words:
  assumes "words_ok bws" "bws \<noteq> []" "length bws \<le> EXEC_MAX_ARG_NUM" "blanks b0"
    and "sh_line s = cmd_text bws @ b0 @ 0 # rest" "snd (hd bws) \<noteq> bytes_of ''cd''"
    and "\<And>path. cstr path (snd (hd bws)) \<Longrightarrow> fst (testfile K path (sh_st s)) = 0"
  shows "\<exists>argv line. list_all2 cstr argv (map snd bws) \<and>
    (case s_exec K (KL 0) argv (snd (testfile K (hd argv) (sh_st s))) of
       (r, st) \<Rightarrow> runcmd K s = Some (r, s\<lparr>sh_line := line, sh_st := st\<rparr>))"
  using runcmd_words[OF assms] .

definition sh0 :: "byte list \<Rightarrow> 'k \<Rightarrow> 'k sh" where
  "sh0 line k = \<lparr>sh_line = line, sh_cwd = replicate 4096 0, sh_argv0 = replicate 4096 0, sh_st = ustate0 k\<rparr>"

lemma log_testfile: "fst (testfile log_kernel path st) = 0"
  by (simp add: testfile_def u_open_def sys_open_def u_call_def u_syscall_def log_kernel_def Let_def)

theorem runcmd_exec_words_witness:
  "\<exists>argv line. list_all2 cstr argv [bytes_of ''ls'', bytes_of ''-l''] \<and>
    (case s_exec log_kernel (KL 0) argv (snd (testfile log_kernel (hd argv) (ustate0 []))) of
       (r, st) \<Rightarrow> runcmd log_kernel (sh0 (lit ''ls -l'') []) = Some (r, (sh0 (lit ''ls -l'') [])\<lparr>sh_line := line, sh_st := st\<rparr>))"
proof -
  let ?bws = "[([], bytes_of ''ls''), ([32], bytes_of ''-l'')]"
  have "words_ok ?bws" by code_simp
  moreover have "sh_line (sh0 (lit ''ls -l'') []) = cmd_text ?bws @ [] @ 0 # []"
    by (simp add: sh0_def cmd_text_def lit_def bytes_of_def)
  ultimately show ?thesis
    using runcmd_exec_words[of ?bws "[]" "sh0 (lit ''ls -l'') []" "[]" log_kernel] log_testfile
    by (simp add: EXEC_MAX_ARG_NUM_def) (simp add: sh0_def bytes_of_def)
qed

text \<open>
  C36: a redirection takes the rest of the line as the name of the file. When the word after \<open>>\<close> is
  followed by a blank and more text, the character after the word has not yet been replaced by a null
  byte when \<open>reopen\<close> is called, so the file opened has a name with the blank and all that follows.
\<close>

theorem redirect_takes_rest:
  assumes "blanks b1" "blanks b" "plain f" "in_chars WHITESPACE c" "0 \<notin> set xs"
    and "sh_line s = pre @ b1 @ 62 # b @ f @ c # xs @ 0 # rest"
  shows "\<exists>path cmd line. cstr path (f @ c # xs) \<and>
    (case reopen K 1 path (U_O_RDWR OR U_O_TRUNC OR U_O_CREAT) (sh_st s) of
       (ret, st) \<Rightarrow> runcmd_step K (Some (length pre)) argv s =
         Some (if ret \<noteq> 0 then ShReturn ret else ShMore, cmd, argv, s\<lparr>sh_line := line, sh_st := st\<rparr>))"
proof -
  obtain d r where dr: "b @ f @ c # xs @ 0 # rest = d # r" by (cases "b @ f @ c # xs @ 0 # rest") auto
  have c0: "c \<noteq> 0" using assms(4) by auto
  have "d \<noteq> 0"
  proof (cases b)
    case Nil
    then show ?thesis using dr assms(3) plain_nz[OF assms(3)] by (cases f) (auto simp: plain_def)
  qed (use dr assms(2) in auto)
  have gt: "in_chars SYMBOLS 62" "\<not> in_chars WHITESPACE 62" by code_simp+
  let ?pre = "pre @ zeros b1 @ [0]"
  have g1: "gettoken (sh_line s) (Some (length pre)) =
      Some (62, Some (length ?pre), Some (length pre + length b1), ?pre @ b @ f @ c # xs @ 0 # rest)"
    using gettoken_symbol[OF assms(1) gt, of pre d r] \<open>d \<noteq> 0\<close> assms(6) dr by simp
  let ?line = "?pre @ zeros b @ f @ c # xs @ 0 # rest"
  have g2: "gettoken (?pre @ b @ f @ c # xs @ 0 # rest) (Some (length ?pre)) =
      Some (119, Some (length ?pre + length b + length f), Some (length ?pre + length b), ?line)"
    using gettoken_word[OF assms(2,3), of c ?pre "xs @ 0 # rest"] c0 assms(4) symbols_words by simp
  let ?path = "drop (length ?pre + length b) ?line"
  have "?path = (f @ c # xs) @ 0 # rest" by simp
  moreover have "0 \<notin> set (f @ c # xs)" using assms(5) c0 plain_nz[OF assms(3)] by auto
  ultimately have "cstr ?path (f @ c # xs)" unfolding cstr_def by blast
  moreover have "case reopen K 1 ?path (U_O_RDWR OR U_O_TRUNC OR U_O_CREAT) (sh_st s) of
       (ret, st) \<Rightarrow> runcmd_step K (Some (length pre)) argv s =
         Some (if ret \<noteq> 0 then ShReturn ret else ShMore, Some (length ?pre + length b + length f), argv,
           s\<lparr>sh_line := ?line, sh_st := st\<rparr>)"
    using g1 g2 by (simp add: runcmd_step_def sh_redirect_def Let_def split: prod.splits)
  ultimately show ?thesis by (intro exI conjI)
qed

theorem redirect_takes_rest_witness:
  "\<exists>path cmd line. cstr path (bytes_of ''out x'') \<and>
    (case reopen log_kernel 1 path 0x16 (ustate0 []) of
       (ret, st) \<Rightarrow> runcmd_step log_kernel (Some 3) [0] (sh0 (lit ''ls > out x'') []) =
         Some (if ret \<noteq> 0 then ShReturn ret else ShMore, cmd, [0],
           (sh0 (lit ''ls > out x'') [])\<lparr>sh_line := line, sh_st := st\<rparr>))"
proof -
  have "blanks [32]" "plain (bytes_of ''out'')" "in_chars WHITESPACE 32" by code_simp+
  moreover have "sh_line (sh0 (lit ''ls > out x'') []) = bytes_of ''ls '' @ [] @ 62 # [32] @ bytes_of ''out'' @ 32 # [120] @ 0 # []"
    by (simp add: sh0_def lit_def bytes_of_def)
  ultimately show ?thesis
    using redirect_takes_rest[of "[]" "[32]" "bytes_of ''out''" 32 "[120]" "sh0 (lit ''ls > out x'') []" "bytes_of ''ls ''" "[]" log_kernel "[0]"]
    by (simp add: U_O_RDWR_def U_O_TRUNC_def U_O_CREAT_def) (simp add: sh0_def bytes_of_def numeral_3_eq_3)
qed

text \<open>
  C33: the type of the tokenizer. On a line with a null byte at \<open>e\<close> and a cursor at most there, \<open>gettoken\<close>
  makes no access outside the line; it returns 0, a word or one of the five symbols, keeps the length
  of the buffer and the null byte, and leaves cursor and token within the line. Unless it returns 0, it
  delivers a token and moves the cursor forward, so that calling it again and again ends.
\<close>

theorem gettoken_wf:
  assumes "upto_end e cmd" "e < length m" "m ! e = 0"
  shows "\<exists>tk cmd' t m'. gettoken m cmd = Some (tk, cmd', t, m') \<and> tk \<in> {0, 119, 60, 124, 62, 38, 59} \<and>
    length m' = length m \<and> m' ! e = 0 \<and> upto_end e cmd' \<and>
    (tk \<noteq> 0 \<longrightarrow> (\<exists>p. t = Some p \<and> p \<le> e) \<and> left (length m) cmd' < left (length m) cmd)"
proof -
  obtain tk cmd' t m' where g: "gettoken m cmd = Some (tk, cmd', t, m')" "m' ! e = 0" "upto_end e cmd'"
    "tk \<noteq> 0 \<longrightarrow> (\<exists>p. t = Some p \<and> p \<le> e)" "tk \<in> {0, 119, 60, 124, 62, 38, 59}"
    using gettoken_total[OF assms] by blast
  then show ?thesis using gettoken_progress(1,3)[OF g(1)] by (intro exI conjI) auto
qed

theorem gettoken_wf_witness:
  "\<exists>tk cmd' t m'. gettoken [97, 32, 98, 0] (Some 1) = Some (tk, cmd', t, m') \<and> upto_end 3 cmd' \<and> length m' = 4"
  using gettoken_wf[of 3 "Some 1" "[97, 32, 98, 0]"] by fastforce


lemma sh0_clean [simp]: "clean (ustate0 k)"
  by (simp add: clean_def)


text \<open>
  the bound is sharp. If the name of the command has 1023 or more characters and the kernel reports
  that there is no such file, the call of \<open>snprintf\<close> overruns the buffer on the stack of \<open>vprintfmt\<close>.
\<close>

theorem runit_long_name:
  assumes "cstr (drop t (sh_line s)) w" "1023 \<le> length w" "length w < 2 ^ 63"
    and "fst (testfile K (drop t (sh_line s)) (sh_st s)) = - E_NOENT"
  shows "runit K (t # ts) s = None"
proof -
  have "cstr (lit ''cd'') (bytes_of ''cd'')" by (simp add: lit_def bytes_of_def)
  moreover have "w \<noteq> bytes_of ''cd''" using assms(2) by (auto simp: bytes_of_def)
  ultimately obtain c where "u_strcmp (drop t (sh_line s)) (lit ''cd'') = Some c" "c \<noteq> 0"
    using u_strcmp_lexord[OF assms(1)] by blast
  moreover have "vprintfmt (lit ''/%s'') [US (drop t (sh_line s))] = None"
    using vprintfmt_slash[OF assms(1,3)] assms(2) by simp
  ultimately show ?thesis using assms(4)
    by (simp add: runit_def Let_def split_beta E_NOENT_def u_snprintf_def u_vsnprintf_def BUFSIZE_def)
qed

text \<open>A kernel that answers every call with one number.\<close>

definition answer_kernel :: "long \<Rightarrow> unit ukernel" where
  "answer_kernel r n as k = ((r, False), as, k)"

theorem runit_long_name_witness:
  "runit (answer_kernel (- 16)) [0] (sh0 (replicate 1500 97 @ [0]) ()) = None"
proof (rule runit_long_name)
  show "cstr (drop 0 (sh_line (sh0 (replicate 1500 97 @ [0]) ()))) (replicate 1500 97)" by (simp add: sh0_def cstr_def)
  have "(ucast (- 16 :: long) :: cint) <s 0" "(ucast (- 16 :: long) :: cint) = - 16" by code_simp+
  then show "fst (testfile (answer_kernel (- 16)) (drop 0 (sh_line (sh0 (replicate 1500 97 @ [0]) ())))
      (sh_st (sh0 (replicate 1500 97 @ [0]) ()))) = - E_NOENT"
    by (simp add: testfile_def u_open_def sys_open_def u_call_def u_syscall_def answer_kernel_def Let_def E_NOENT_def)
qed simp_all

text \<open>
  C24: the line editor returns with the line that was typed. At a terminal whose input is \<open>cs\<close> and a
  newline or carriage return (and no control-C), \<open>readline\<close> ends, leaves the edited line, at most 4095
  characters, as a C string in the buffer, and consumes exactly this input.
\<close>

theorem readline_edits:
  assumes "tty (uarch_of st) K inp" "inp (ukern st) = cs @ nl # rest" "nl = 10 \<or> nl = 13"
    and "\<forall>c \<in> set cs. c \<noteq> 3 \<and> c \<noteq> 10 \<and> c \<noteq> 13" "clean st" "length b = BUFSIZE"
    and "prompt = None \<or> prompt = Some (lit ''$ '')"
  shows "\<exists>b' st'. readline K prompt b st = Some (True, b', st') \<and> length b' = BUFSIZE \<and>
    cstr b' (edit (uarch_of st) [] cs) \<and> length (edit (uarch_of st) [] cs) < BUFSIZE \<and>
    clean st' \<and> inp (ukern st') = rest"
  using readline_line[OF assms] .

text \<open>A terminal: the state is the input that has not been read.\<close>

definition tty_kernel :: "byte list ukernel" where
  "tty_kernel n as k =
     (if n = sys_num X86 C_read then
        (case k of [] \<Rightarrow> ((0, False), as, []) | c # cs \<Rightarrow> ((1, False), [as ! 0, KP [c], as ! 2], cs))
      else ((0, False), as, k))"

lemma tty_tty_kernel: "tty X86 tty_kernel (\<lambda>k. k)"
  by (simp add: tty_def tty_kernel_def sys_num_def)

theorem readline_edits_witness:
  "\<exists>b' st'. readline tty_kernel None (replicate 4096 0) (ustate0 [108, 97, 8, 115, 10]) = Some (True, b', st') \<and>
     cstr b' (bytes_of ''ls'')"
proof -
  have "edit X86 [] [108, 97, 8, 115] = bytes_of ''ls''" by code_simp
  then show ?thesis
    using readline_edits[of "ustate0 [108, 97, 8, 115, 10]" tty_kernel "\<lambda>k. k" "[108, 97, 8, 115]" 10 "[]" "replicate 4096 0" None]
      tty_tty_kernel by (auto simp: ustate0_def BUFSIZE_def clean_def stdio_ok_def pending_def)
qed

end
