(* ===== verification/Ucore_Ls.thy ===== *)
theory Ucore_Ls
  imports Ucore_Sh
begin

unbundle bit_operations_syntax

text \<open>
  The directory lister of uCore (\<open>ls.c\<close>) over the files, directories and printer of the library. An
  argument of \<open>%d\<close> that is a 64-bit field is read as an \<open>int\<close>, its low half. \<open>None\<close> is an access outside
  an object or a directory that never ends.
\<close>

section \<open>The code\<close>

definition getmode :: "cint \<Rightarrow> byte" where
  "getmode m =
     (let mode = 63;
          mode = (if S_ISREG m then 45 else mode);
          mode = (if S_ISDIR m then 100 else mode);
          mode = (if S_ISLNK m then 108 else mode);
          mode = (if S_ISCHR m then 99 else mode)
      in if S_ISBLK m then 98 else mode)"

text \<open>The result and the attributes, which stay as they were if the file cannot be opened.\<close>

definition getstat :: "'k ukernel \<Rightarrow> byte list \<Rightarrow> byte list \<Rightarrow> 'k ustate \<Rightarrow> cint \<times> byte list \<times> 'k ustate" where
  "getstat K name s st =
     (let (fd, st1) = u_open K name U_O_RDONLY st
      in if fd <s 0 then (fd, s, st1)
      else (let (ret, s', st2) = u_fstat K fd s st1 in (ret, s', snd (u_close K fd st2))))"

definition lsstat :: "'k ukernel \<Rightarrow> byte list \<Rightarrow> byte list \<Rightarrow> 'k ustate \<Rightarrow> 'k ustate option" where
  "lsstat K s filename st = (let a = uarch_of st in do {
     st1 \<leftarrow> sh_printf K (lit ''   [%c]'') [UI (char_int a (getmode (st_mode a s)))] st;
     st2 \<leftarrow> sh_printf K (lit '' %3d(h)'') [UI (ucast (st_nlinks a s))] st1;
     st3 \<leftarrow> sh_printf K (lit '' %8d(b)'') [UI (ucast (st_blocks a s))] st2;
     st4 \<leftarrow> sh_printf K (lit '' %8d(s)'') [UI (ucast (st_size a s))] st3;
     sh_printf K (lit (''   %s'' @ [CHR 0x0A])) [US filename] st4 })"

text \<open>The loop over the directory: the result, or \<open>None\<close> inside if the end was reached. A name follows the offset.\<close>

partial_function (option) lsdir_loop ::
  "'k ukernel \<Rightarrow> byte list \<Rightarrow> 'k ustate \<Rightarrow> (cint option \<times> 'k ustate) option"
where
  "lsdir_loop K s st =
     (case readdir K st of
        (None, st1) \<Rightarrow> Some (None, st1)
      | (Some ent, st1) \<Rightarrow>
          (case getstat K (drop 4 ent) s st1 of
             (ret, s', st2) \<Rightarrow>
               if ret \<noteq> 0 then Some (Some ret, st2)
               else Option.bind (lsstat K s' (drop 4 (dir_ent (udir st2))) st2) (lsdir_loop K s')))"

text \<open>The directory listed is always the current one.\<close>

definition lsdir :: "'k ukernel \<Rightarrow> byte list \<Rightarrow> 'k ustate \<Rightarrow> (cint \<times> 'k ustate) option" where
  "lsdir K path st =
     (let (ok, st1) = opendir K (lit ''.'') st
      in if \<not> ok then Some (- 1, st1)
      else do {
        (e, st2) \<leftarrow> lsdir_loop K (replicate STAT_SIZE (uninit st)) st1;
        (case e of
           Some ret \<Rightarrow> Some (ret, closedir K st2)
         | None \<Rightarrow> map_option (\<lambda>st3. (0, closedir K st3)) (sh_printf K (lit (''lsdir: step 4'' @ [CHR 0x0A])) [] st2)) })"

definition ls_filetype :: "nat \<Rightarrow> byte list" where
  "ls_filetype n = map lit ['' [  file   ]'', '' [directory]'', '' [ symlink ]'', '' [character]'', '' [  block  ]'', '' [  ?????  ]''] ! n"

definition ls_type :: "byte \<Rightarrow> nat" where
  "ls_type c = (if c = 48 then 0 else if c = 100 then 1 else if c = 108 then 2 else if c = 99 then 3 else if c = 98 then 4 else 5)"

definition ls :: "'k ukernel \<Rightarrow> byte list \<Rightarrow> 'k ustate \<Rightarrow> (cint \<times> 'k ustate) option" where
  "ls K path st =
     (let (ret, s, st0) = getstat K path (replicate STAT_SIZE (uninit st)) st; a = uarch_of st
      in if ret \<noteq> 0 then Some (ret, st0)
      else do {
        st1 \<leftarrow> sh_printf K (lit '' @ is %s'') [US (ls_filetype (ls_type (getmode (st_mode a s))))] st0;
        st2 \<leftarrow> sh_printf K (lit '' %d(hlinks)'') [UI (ucast (st_nlinks a s))] st1;
        st3 \<leftarrow> sh_printf K (lit '' %d(blocks)'') [UI (ucast (st_blocks a s))] st2;
        st4 \<leftarrow> sh_printf K (lit ('' %d(bytes) : @'' @ [CHR 0x27] @ ''%s'' @ [CHR 0x27, CHR 0x0A]))
          [UI (ucast (st_size a s)), US path] st3;
        if S_ISDIR (st_mode a s) then lsdir K path st4 else Some (0, st4) })"

fun ls_args :: "'k ukernel \<Rightarrow> byte list list \<Rightarrow> 'k ustate \<Rightarrow> (cint \<times> 'k ustate) option" where
  "ls_args K [] st = Some (0, st)"
| "ls_args K (p # ps) st =
     (case ls K p st of
        None \<Rightarrow> None
      | Some (ret, st') \<Rightarrow> if ret \<noteq> 0 then Some (ret, st') else ls_args K ps st')"

definition ls_main :: "'k ukernel \<Rightarrow> byte list list \<Rightarrow> 'k ustate \<Rightarrow> (cint \<times> 'k ustate) option" where
  "ls_main K argv st = (if length argv = 1 then ls K (lit ''.'') st else ls_args K (tl argv) st)"

section \<open>Properties\<close>

text \<open>The type characters exclude each other: a mode is of at most one kind.\<close>

lemma mode_kinds:
  "S_ISREG m \<Longrightarrow> \<not> S_ISDIR m \<and> \<not> S_ISLNK m \<and> \<not> S_ISCHR m \<and> \<not> S_ISBLK m"
  "S_ISDIR m \<Longrightarrow> \<not> S_ISLNK m \<and> \<not> S_ISCHR m \<and> \<not> S_ISBLK m"
  "S_ISLNK m \<Longrightarrow> \<not> S_ISCHR m \<and> \<not> S_ISBLK m" "S_ISCHR m \<Longrightarrow> \<not> S_ISBLK m"
  by (auto simp: S_ISREG_def S_ISDIR_def S_ISLNK_def S_ISCHR_def S_ISBLK_def)

text \<open>
  what \<open>ls\<close> calls a file. Directories, links and devices get their own text, but a regular file, like
  a mode of unknown kind, is shown as \<open>?????\<close>, because the switch tests for the character \<open>0\<close> where
  \<open>getmode\<close> gives a hyphen; the text \<open>file\<close> is never printed. \<open>transmode\<close> of \<open>print_stat\<close> and \<open>getmode\<close>
  agree except on regular files and unknown modes.
\<close>

theorem ls_file_type:
  "ls_type (getmode m) =
     (if S_ISDIR m then 1 else if S_ISLNK m then 2 else if S_ISCHR m then 3 else if S_ISBLK m then 4 else 5) \<and>
   (getmode m = transmode m \<longleftrightarrow> S_ISDIR m \<or> S_ISLNK m \<or> S_ISCHR m \<or> S_ISBLK m)"
  using mode_kinds[of m] by (auto simp: ls_type_def getmode_def transmode_def Let_def)

end
