(* ===== verification/Spec2Isabelle.thy ===== *)
theory Spec2Isabelle
  imports Litc_Mem Litc_Ctype Litc_Str Litc_Printf Litc_Sys Litc_Malloc Litc_Stdio Litc_Scan Litc_Dir Litc_Select
    Litc_Qsort Litc_Barrier
    Ucore_List Ucore_Skew Ucore_Misc Ucore_Ls
begin

text \<open>
  \<^bold>\<open>The program.\<close> The repository holds a kernel and user programs for it. This development is about the C
  code of the user side that carries logic of its own: the C library of the Biscuit programs
  (\<open>src/user/biscuit/c/libs/litc.c\<close> with \<open>src/user/biscuit/c/include-litc/litc.h\<close>) and the user library, shell and directory
  lister of uCore (under \<open>src/user/ucore/src\<close>: \<open>lib\<close>, \<open>include/list.h\<close>, \<open>include/skew_heap.h\<close>,
  \<open>include/lock.h\<close>, \<open>sh.c\<close>, \<open>ls.c\<close>). The two libraries have twins of many functions; uCore's carry the prefix \<open>u_\<close> here,
  leading underscores of C names become \<open>s_\<close>, and a name that clashes with one of HOL gets \<open>_c\<close>.

  \<^bold>\<open>Common conventions\<close> (\<open>Prelude\<close>). Bytes, \<open>int\<close> and \<open>long\<close> are words of 8, 32 and 64 bits, with the
  wrap-around of the machine. Memory is a list of bytes, or, where pointers are stored in it, a map from
  addresses to records. A C string is given by the bytes from its address on; \<open>cstr p s\<close> says that \<open>p\<close>
  starts with \<open>s\<close> and a null byte. \<open>None\<close> (or \<open>Fault\<close>) is an access outside an object, so a result \<open>Some\<close>
  states memory safety as well. The exit through \<open>errx\<close> and waiting are values of \<open>outcome\<close>.

  \<^bold>\<open>litc\<close>, one theory per part:
  \<^item> \<open>Litc_Mem\<close>: \<open>memmove\<close>, \<open>memcpy\<close>, \<open>memset\<close>, \<open>memcmp\<close> with their loops over 8 and 1 bytes, shown to
    move and fill the block for every overlap.
  \<^item> \<open>Litc_Ctype\<close>, \<open>Litc_Str\<close>: character classes, comparison and search in strings, \<open>strtol\<close>.
  \<^item> \<open>Litc_Printf\<close>: \<open>_vprintf\<close> with all its directives. The code is written once over an output sink; the
    sink of the real code is the bounded buffer, the reference is an unbounded list, and a refinement
    (locales \<open>sink_sim\<close> and \<open>sink_refine\<close>) relates them. The rounding of a product of floating-point numbers
    is the parameter \<open>rnd\<close>.
  \<^item> \<open>Litc_Sys\<close>: \<open>syscall6\<close>, the \<open>errno\<close> macros and the system call wrappers. The kernel is a parameter;
    the locale \<open>errno_call\<close> is the contract of a wrapper.
  \<^item> \<open>Litc_Malloc\<close>: the allocator: segments obtained by \<open>mmap\<close>, a doubly linked list of headers, a bump
    pointer; the invariant \<open>heap_ok\<close> is kept by \<open>malloc\<close> and \<open>free\<close>, and the locale
    \<open>allocator\<close> is what a client may rely on.
  \<^item> \<open>Litc_Stdio\<close>: the streams. A \<open>FILE\<close> is a record in a store, with a buffer of 4096 bytes and two offsets into it; the
    open files are a doubly linked list. \<open>content\<close> and \<open>unread\<close> abstract a stream to the bytes written and the bytes to be
    read, and the operations refine appending to the one and taking from the other. The locale \<open>out_stream\<close> is the
    contract of an output stream.
  \<^item> \<open>Litc_Scan\<close>: \<open>strtod\<close> and \<open>strtold\<close>, \<open>sscanf\<close> with its directives, and \<open>getopt\<close>. Floating-point numbers are
    rationals with infinities and NaN; how an operation rounds is the parameter \<open>fpu\<close>.
  \<^item> \<open>Litc_Dir\<close>: directory streams, read in two passes over \<open>getdents64\<close> into an allocated block.
  \<^item> \<open>Litc_Select\<close>: \<open>select\<close> as a client of \<open>poll\<close>, with the descriptor sets as lists of words; \<open>fds_of\<close> is the set of
    descriptors they stand for.
  \<^item> \<open>Litc_Qsort\<close>: \<open>qsort\<close> in a flat memory, shown equal to a functional quicksort on the elements.
  \<^item> \<open>Litc_Lock\<close>, \<open>Litc_Barrier\<close>: mutexes with condition variables, the allocator's spin lock and
    barriers as step relations of interleaved threads over a futex; the locale \<open>lock_protocol\<close> is the
    contract of a lock, interpreted for the mutex, the spin lock and the lock of uCore.

  \<^bold>\<open>uCore\<close>:
  \<^item> \<open>Ucore_String\<close>, \<open>Ucore_Printfmt\<close>: \<open>string.c\<close> and \<open>printfmt.c\<close>; the block functions agree with litc's,
    and numbers survive printing and parsing.
  \<^item> \<open>Ucore_List\<close>, \<open>Ucore_Skew\<close>: the linked structures of \<open>list.h\<close> and \<open>skew_heap.h\<close> on explicit stores,
    refined to lists and multisets; the locales \<open>entry_queue\<close> and \<open>priority_queue\<close> are their contracts.
  \<^item> \<open>Ucore_Sys\<close>: \<open>syscall.c\<close> with the call numbers of the ports, \<open>file.c\<close>, \<open>dir.c\<close>, \<open>ulib.c\<close>, \<open>stdio.c\<close>,
    \<open>panic.c\<close> and \<open>umain.c\<close>, with the kernel as a parameter.
  \<^item> \<open>Ucore_Misc\<close>: \<open>hash.c\<close>, \<open>rand.c\<close> and \<open>lock.h\<close>.
  \<^item> \<open>Ucore_Sh\<close>, \<open>Ucore_Ls\<close>: the shell and the directory lister, on top of all of these.

  \<^bold>\<open>What the theorems show.\<close> Functional correctness of the memory and string routines, of \<open>qsort\<close>, of the
  printers (fitting, truncation, round trips) and of the allocator (disjoint live blocks, contents kept by
  \<open>realloc\<close>, any client of the interface is safe); that streams deliver what the file holds and write what they are
  given, in order, across the boundaries of their buffer, and that opening and closing keep the heap and the list of open
  files; that \<open>readdir\<close> gives the entries of a directory, \<open>getopt\<close> the options of a command line, \<open>sscanf\<close> the numbers that were
  printed and \<open>select\<close> the descriptors that are ready; mutual exclusion, no lost wake-ups and progress of the
  mutex, safety of the barrier; refinement of lists and heaps; that the shell's interpreter is memory safe
  and ends for every line of up to 1022 characters and every kernel, that its line editor returns what was
  typed, and that a line of words is executed with these words; the full period of the random numbers and
  the balance of the hash. Theorems of the kind error state where the code fails: a terminator
  written behind the buffer, overruns of \<open>vprintfmt\<close>, lost system call arguments, a barrier for one thread,
  the file name of a redirection, \<open>fread\<close> at the end of the input and after a failed read, a word \<open>-\<close> among the options, a hang-up
  in \<open>select\<close>.

  \<^bold>\<open>Termination, fuel and bounds.\<close> No fuel is used. Loops are functions with a termination measure, or
  \<open>partial_function (option)\<close> where the code may run forever (\<open>_findseg\<close> and \<open>skew_heap_merge\<close> on a store
  with a cycle, \<open>strtoull\<close>, which calls itself, \<open>readline\<close>, the main loop of the shell, \<open>lsdir\<close>, the loops of \<open>fread\<close>, \<open>fwrite\<close> and \<open>fflush(NULL)\<close>, the loops
  of \<open>fdopendir\<close>). The theorems about \<open>free\<close>, the skew heaps, \<open>readline\<close>, the streams and \<open>readdir\<close> state that they return. The bounds 1024 (\<open>vprintfmt\<close>), 4096 (the line)
  and 32 (arguments) are those of the code.

  \<^bold>\<open>Assumptions about the environment\<close> are premises of the theorems that need them: what \<open>mmap\<close> returns
  (\<open>Litc_Malloc\<close>), what \<open>read\<close> and \<open>write\<close> do to a file (\<open>delivers\<close> and \<open>appends\<close> in \<open>Litc_Stdio\<close>),
  how \<open>getdents64\<close> lists a directory (\<open>lists_dir\<close> in \<open>Litc_Dir\<close>), what \<open>poll\<close> reports (\<open>polls\<close> in \<open>Litc_Select\<close>), what a terminal delivers (\<open>tty\<close> in \<open>Ucore_Sh\<close>), that a file can be opened. The futex is
  part of the step relations. Memory accesses of threads are sequentially consistent.

  \<^bold>\<open>Not modelled.\<close> The Rust kernel, the boot loader and the Rust and C++ programs; the test programs,
  whose results are the kernel's; \<open>dlmalloc.c\<close>, a vendored allocator that \<open>litc.c\<close> includes only if
  \<open>_DLMALLOC\<close> is set, which it is not; the small tools and servers on top of litc; demonstrations over the
  libc of another system; inline assembly and register headers of the ports. Of \<open>litc.c\<close>: creation and joining
  of threads, \<open>mkstemp\<close>, \<open>posix_spawn\<close>, the error texts, time, and the stubs for ported programs.
\<close>

section \<open>From the keyboard to the program\<close>

text \<open>
  C7: the line editor, the tokenizer and the interpreter together. If the characters typed at a terminal,
  after editing, are 1 to 32 words separated by white space, the first of them not \<open>cd\<close>, and files of that
  name can be opened, then reading the line and running it calls \<open>__exec\<close> with exactly these words.
\<close>

theorem typed_command_runs:
  assumes "tty (uarch_of (sh_st s)) K inp" "inp (ukern (sh_st s)) = cs @ nl # rest" "nl = 10 \<or> nl = 13"
    and "\<forall>c \<in> set cs. c \<noteq> 3 \<and> c \<noteq> 10 \<and> c \<noteq> 13" "clean (sh_st s)" "length (sh_line s) = BUFSIZE"
    and "edit (uarch_of (sh_st s)) [] cs = cmd_text bws @ b0" "words_ok bws" "bws \<noteq> []"
    and "length bws \<le> EXEC_MAX_ARG_NUM" "blanks b0" "snd (hd bws) \<noteq> bytes_of ''cd''"
    and "\<And>path st. cstr path (snd (hd bws)) \<Longrightarrow> fst (testfile K path st) = 0"
  shows "\<exists>b st argv line. readline K (Some (lit ''$ '')) (sh_line s) (sh_st s) = Some (True, b, st) \<and>
    inp (ukern st) = rest \<and> list_all2 cstr argv (map snd bws) \<and>
    (case s_exec K (KL 0) argv (snd (testfile K (hd argv) st)) of
       (r, st') \<Rightarrow> runcmd K (s\<lparr>sh_line := b, sh_st := st\<rparr>) = Some (r, s\<lparr>sh_line := line, sh_st := st'\<rparr>))"
proof -
  obtain b st where r: "readline K (Some (lit ''$ '')) (sh_line s) (sh_st s) = Some (True, b, st)"
    "cstr b (cmd_text bws @ b0)" "inp (ukern st) = rest"
    using readline_line[OF assms(1-6), of "Some (lit ''$ '')"] assms(7) by auto
  obtain rest' where "b = cmd_text bws @ b0 @ 0 # rest'" using r(2) by (auto simp: cstr_def)
  then show ?thesis
    using runcmd_words[OF assms(8-11), of "s\<lparr>sh_line := b, sh_st := st\<rparr>" rest' K] assms(12,13) r by simp
qed

lemma tty_testfile: "fst (testfile tty_kernel path st) = 0"
proof -
  have "sys_num (uarch_of st) C_openat \<noteq> 0" by (cases "uarch_of st") (simp_all add: sys_num_def MIPS_SYSCALL_def)
  then show ?thesis
    by (simp add: testfile_def u_open_def sys_open_def u_call_def u_syscall_def tty_kernel_def sys_num_def Let_def)
qed

theorem typed_command_runs_witness:
  "\<exists>b st argv line. readline tty_kernel (Some (lit ''$ '')) (replicate 4096 0) (ustate0 (bytes_of ''ls -l'' @ [10])) = Some (True, b, st) \<and>
    list_all2 cstr argv [bytes_of ''ls'', bytes_of ''-l''] \<and>
    (case s_exec tty_kernel (KL 0) argv (snd (testfile tty_kernel (hd argv) st)) of
       (r, st') \<Rightarrow> runcmd tty_kernel ((sh0 (replicate 4096 0) (bytes_of ''ls -l'' @ [10]))\<lparr>sh_line := b, sh_st := st\<rparr>) =
         Some (r, (sh0 (replicate 4096 0) (bytes_of ''ls -l'' @ [10]))\<lparr>sh_line := line, sh_st := st'\<rparr>))"
proof -
  let ?bws = "[([], bytes_of ''ls''), ([32 :: byte], bytes_of ''-l'')]" and ?s = "sh0 (replicate 4096 0) (bytes_of ''ls -l'' @ [10])"
  have w: "words_ok ?bws" "edit X86 [] (bytes_of ''ls -l'') = cmd_text ?bws @ []"
    "\<forall>c \<in> set (bytes_of ''ls -l''). c \<noteq> 3 \<and> c \<noteq> 10 \<and> c \<noteq> 13" "snd (hd ?bws) \<noteq> bytes_of ''cd''" by code_simp+
  have s: "sh_st ?s = ustate0 (bytes_of ''ls -l'' @ [10])" "sh_line ?s = replicate 4096 0" by (simp_all add: sh0_def)
  have u: "uarch_of (ustate0 k) = X86" "ukern (ustate0 k) = k" for k :: "byte list" by (simp_all add: ustate0_def)
  have p: "tty (uarch_of (sh_st ?s)) tty_kernel (\<lambda>k. k)" "edit (uarch_of (sh_st ?s)) [] (bytes_of ''ls -l'') = cmd_text ?bws @ []"
    unfolding s u by (rule tty_tty_kernel, rule w(2))
  have q: "(\<lambda>k. k) (ukern (sh_st ?s)) = bytes_of ''ls -l'' @ 10 # []" "clean (sh_st ?s)" "length (sh_line ?s) = BUFSIZE"
    unfolding s u by (simp_all add: BUFSIZE_def)
  have l: "(10::byte) = 10 \<or> (10::byte) = 13" "?bws \<noteq> []" "length ?bws \<le> EXEC_MAX_ARG_NUM" "blanks []"
    by (simp_all add: EXEC_MAX_ARG_NUM_def blanks_def)
  obtain b st argv line where
    "readline tty_kernel (Some (lit ''$ '')) (sh_line ?s) (sh_st ?s) = Some (True, b, st)"
    "list_all2 cstr argv (map snd ?bws)"
    "case s_exec tty_kernel (KL 0) argv (snd (testfile tty_kernel (hd argv) st)) of
       (r, st') \<Rightarrow> runcmd tty_kernel (?s\<lparr>sh_line := b, sh_st := st\<rparr>) = Some (r, ?s\<lparr>sh_line := line, sh_st := st'\<rparr>)"
    using typed_command_runs[OF p(1) q(1) l(1) w(3) q(2,3) p(2) w(1) l(2-4) w(4) tty_testfile] by (elim exE conjE) (rule that)
  then show ?thesis unfolding s list.map snd_conv by (intro exI conjI)
qed

end
